(* ===== verification/Memo_Prelude.thy ===== *)
theory Memo_Prelude
  imports Main "HOL-Library.Word" "HOL-Library.Sublist"
begin

unbundle bit_operations_syntax

section \<open>Prelude: bytes, digits, self-delimiting codecs\<close>

text \<open>
  What the component theories share. Machine integers are words of their width
  (\<open>u8\<close>, \<open>u32\<close>, \<open>u64\<close>); a \<^verbatim>\<open>std::string\<close> or \<^verbatim>\<open>llvm::StringRef\<close> is a
  \<open>string\<close> (a list of 8-bit characters, so its length counts bytes, as \<^verbatim>\<open>size()\<close>
  does); a \<^verbatim>\<open>std::vector<std::uint8_t>\<close> or \<^verbatim>\<open>llvm::ArrayRef<std::uint8_t>\<close> is a list
  of \<open>u8\<close>. A function that takes an array by reference and drops what it has read
  returns the rest of the list beside its result.

  The numeric lemmas read a word through \<open>unat\<close>: \<open>undigits\<close> is the number written by
  a big-endian list of digits and \<open>digits\<close> its inverse, which is how the base64 family,
  the CBOR head and the floating-point encoder are related to the numbers they write.

  The locales \<open>codec\<close> and \<open>seq_codec\<close> are the two interfaces the encoders of this
  program promise to their clients: decoding gives back what was encoded, and, for a
  self-delimiting format, also leaves the bytes that follow untouched.
\<close>

type_synonym u8 = "8 word"
type_synonym u32 = "32 word"
type_synonym u64 = "64 word"
type_synonym bytes = "u8 list"

named_theorems codec_simps \<open>equations that evaluate an encoder or a decoder one step\<close>

named_theorems wf_intros \<open>introduction rules for the well-formedness predicates\<close>

subsection \<open>Operations that may fail\<close>

text \<open>
  An operation that can stop with an error returns a sum; \<open>then_do\<close> is the early return
  of the first error, and \<open>sum_map\<close> runs an operation over a list in order.
\<close>

definition then_do :: "'e + 'a \<Rightarrow> ('a \<Rightarrow> 'e + 'b) \<Rightarrow> 'e + 'b" where
  "then_do x f = (case x of Inl e \<Rightarrow> Inl e | Inr a \<Rightarrow> f a)"

fun sum_map :: "('a \<Rightarrow> 'e + 'b) \<Rightarrow> 'a list \<Rightarrow> 'e + 'b list" where
  "sum_map f [] = Inr []"
| "sum_map f (x # xs) = then_do (f x) (\<lambda>y. then_do (sum_map f xs) (\<lambda>ys. Inr (y # ys)))"

lemma then_do_simps [simp]:
  "then_do (Inl e) f = Inl e"
  "then_do (Inr a) f = f a"
  by (simp_all add: then_do_def)

lemma then_do_Inr_iff: "then_do x f = Inr b \<longleftrightarrow> (\<exists>a. x = Inr a \<and> f a = Inr b)"
  by (cases x) auto

lemma then_do_assoc [simp]: "then_do (then_do x f) g = then_do x (\<lambda>a. then_do (f a) g)"
  by (cases x) auto

lemma then_do_cong [fundef_cong]:
  "x = y \<Longrightarrow> (\<And>a. y = Inr a \<Longrightarrow> f a = g a) \<Longrightarrow> then_do x f = then_do y g"
  by (cases y) auto

lemma sum_map_cong [fundef_cong]:
  "xs = ys \<Longrightarrow> (\<And>x. x \<in> set ys \<Longrightarrow> f x = g x) \<Longrightarrow> sum_map f xs = sum_map g ys"
  by (induction ys arbitrary: xs) auto

lemma sum_map_Inr: "(\<And>x. x \<in> set xs \<Longrightarrow> f x = Inr (g x)) \<Longrightarrow> sum_map f xs = Inr (map g xs)"
  by (induction xs) auto

lemma sum_map_Inr_iff: "sum_map f xs = Inr ys \<longleftrightarrow> list_all2 (\<lambda>x y. f x = Inr y) xs ys"
  by (induction xs arbitrary: ys) (auto simp: then_do_Inr_iff list_all2_Cons1)

subsection \<open>Characters and bytes\<close>

definition byte_of_char :: "char \<Rightarrow> u8" where
  "byte_of_char c = of_char c"

definition char_of_byte :: "u8 \<Rightarrow> char" where
  "char_of_byte b = char_of (unat b)"

definition to_bytes :: "string \<Rightarrow> bytes" where
  "to_bytes s = map byte_of_char s"

definition of_bytes :: "bytes \<Rightarrow> string" where
  "of_bytes bs = map char_of_byte bs"

subsection \<open>Big-endian digits\<close>

definition undigits :: "nat \<Rightarrow> nat list \<Rightarrow> nat" where
  "undigits B ds = foldl (\<lambda>v d. v * B + d) 0 ds"

primrec digits :: "nat \<Rightarrow> nat \<Rightarrow> nat \<Rightarrow> nat list" where
  "digits B 0 v = []"
| "digits B (Suc n) v = digits B n (v div B) @ [v mod B]"

text \<open>The bytes of a list as one big-endian number, and a number as so many bytes.\<close>

definition be_val :: "bytes \<Rightarrow> nat" where
  "be_val bs = undigits 256 (map unat bs)"

definition be_bytes :: "nat \<Rightarrow> nat \<Rightarrow> bytes" where
  "be_bytes n v = map of_nat (digits 256 n v)"

subsection \<open>Lemmas on characters and bytes\<close>

lemma of_char_less: "(of_char c :: nat) < 256"
  using of_char_mod_256 [of c, where 'a = nat] by (metis mod_less_divisor zero_less_numeral)

lemma unat_byte_of_char: "unat (byte_of_char c) = of_char c"
proof -
  have "byte_of_char c = of_nat (of_char c)"
    by (simp add: byte_of_char_def of_nat_of_char)
  then show ?thesis
    using of_char_less [of c] by (simp add: unat_of_nat)
qed

lemma char_of_byte_of_char [simp]: "char_of_byte (byte_of_char c) = c"
  by (simp add: char_of_byte_def unat_byte_of_char)

lemma unat_u8_less: "unat (b :: u8) < 256"
  using unsigned_less [of b, where 'a = nat] by simp

lemma byte_of_char_of_byte [simp]: "byte_of_char (char_of_byte b) = b"
  by (simp add: word_unat_eq_iff unat_byte_of_char char_of_byte_def unat_u8_less)

lemma of_bytes_to_bytes [simp]: "of_bytes (to_bytes s) = s"
  by (induction s) (simp_all add: of_bytes_def to_bytes_def)

lemma to_bytes_of_bytes [simp]: "to_bytes (of_bytes bs) = bs"
  by (induction bs) (simp_all add: of_bytes_def to_bytes_def)

lemma length_to_bytes [simp]: "length (to_bytes s) = length s"
  by (simp add: to_bytes_def)

lemma length_of_bytes [simp]: "length (of_bytes bs) = length bs"
  by (simp add: of_bytes_def)

lemma to_bytes_inject [simp]: "to_bytes s = to_bytes t \<longleftrightarrow> s = t"
  by (metis of_bytes_to_bytes)

lemma of_bytes_inject [simp]: "of_bytes s = of_bytes t \<longleftrightarrow> s = t"
  by (metis to_bytes_of_bytes)

lemma to_bytes_append [simp]: "to_bytes (s @ t) = to_bytes s @ to_bytes t"
  by (simp add: to_bytes_def)

lemma of_bytes_append [simp]: "of_bytes (s @ t) = of_bytes s @ of_bytes t"
  by (simp add: of_bytes_def)

lemma to_bytes_Nil [simp]: "to_bytes [] = []"
  by (simp add: to_bytes_def)

lemma of_bytes_Nil [simp]: "of_bytes [] = []"
  by (simp add: of_bytes_def)

subsection \<open>Lemmas on digits\<close>

lemma undigits_Nil [simp]: "undigits B [] = 0"
  by (simp add: undigits_def)

lemma undigits_snoc [simp]: "undigits B (ds @ [d]) = undigits B ds * B + d"
  by (simp add: undigits_def)

lemma undigits_append: "undigits B (xs @ ys) = undigits B xs * B ^ length ys + undigits B ys"
proof (induction ys rule: rev_induct)
  case (snoc y ys)
  then show ?case
    by (simp add: algebra_simps flip: append_assoc)
qed simp

lemma undigits_Cons: "undigits B (d # ds) = d * B ^ length ds + undigits B ds"
  using undigits_append [of B "[d]" ds] by (simp add: undigits_def)

lemma undigits_replicate_0 [simp]: "undigits B (replicate n 0) = 0"
  by (induction n) (simp_all add: undigits_Cons)

lemma length_digits [simp]: "length (digits B n v) = n"
  by (induction n arbitrary: v) simp_all

lemma undigits_digits: "undigits B (digits B n v) = v mod B ^ n"
proof (induction n arbitrary: v)
  case (Suc n)
  then show ?case
    by (simp add: mod_mult2_eq mult.commute)
qed simp

lemma digits_undigits:
  "\<forall>d \<in> set ds. d < B \<Longrightarrow> digits B (length ds) (undigits B ds) = ds"
proof (induction ds rule: rev_induct)
  case (snoc d ds)
  then have "d < B" and "digits B (length ds) (undigits B ds) = ds" by simp_all
  then show ?case by (simp add: div_mult_self3)
qed simp

lemma undigits_bound:
  "\<forall>d \<in> set ds. d < B \<Longrightarrow> undigits B ds < B ^ length ds"
proof (induction ds rule: rev_induct)
  case (snoc d ds)
  then have lt: "undigits B ds + 1 \<le> B ^ length ds" and "d < B" by simp_all
  have "undigits B ds * B + d < (undigits B ds + 1) * B"
    using \<open>d < B\<close> by (simp add: algebra_simps)
  also have "\<dots> \<le> B ^ length ds * B"
    using lt by (rule mult_le_mono1)
  finally show ?case by (simp add: mult.commute)
qed simp

lemma digits_bound: "0 < B \<Longrightarrow> d \<in> set (digits B n v) \<Longrightarrow> d < B"
  by (induction n arbitrary: v) auto

lemma digits_append: "digits B (m + n) v = digits B m (v div B ^ n) @ digits B n v"
proof (induction n arbitrary: v)
  case (Suc n)
  then show ?case
    by (simp add: div_mult2_eq)
qed simp

lemma digits_mod: "digits B n (v mod B ^ n) = digits B n v"
proof (induction n arbitrary: v)
  case (Suc n)
  have "v mod B ^ Suc n div B = v div B mod B ^ n"
    by (cases "B = 0") (simp_all add: mod_mult2_eq)
  moreover have "v mod B ^ Suc n mod B = v mod B"
    by (simp add: mod_mult2_eq)
  ultimately show ?case
    using Suc.IH [of "v div B"] by simp
qed simp

lemma nth_digits: "j < n \<Longrightarrow> digits B n v ! j = v div B ^ (n - Suc j) mod B"
proof (induction n arbitrary: v)
  case (Suc n)
  show ?case
  proof (cases "j < n")
    case True
    then have "digits B (Suc n) v ! j = v div B div B ^ (n - Suc j) mod B"
      using Suc.IH by (simp add: nth_append)
    also have "v div B div B ^ (n - Suc j) = v div B ^ (Suc n - Suc j)"
      using True by (simp add: Suc_diff_Suc flip: div_mult2_eq power_Suc)
    finally show ?thesis .
  next
    case False
    with Suc.prems have "j = n" by simp
    then show ?thesis by (simp add: nth_append)
  qed
qed simp

lemma length_be_bytes [simp]: "length (be_bytes n v) = n"
  by (simp add: be_bytes_def)

lemma be_val_be_bytes: "be_val (be_bytes n v) = v mod 256 ^ n"
proof -
  have "map unat (map of_nat (digits 256 n v) :: bytes) = digits 256 n v"
    by (rule map_idI [THEN trans [rotated]])
       (auto simp: unat_of_nat dest: digits_bound [rotated] intro!: map_cong)
  then show ?thesis
    by (simp add: be_val_def be_bytes_def undigits_digits)
qed

lemma be_bytes_be_val: "be_bytes (length bs) (be_val bs) = bs"
proof -
  have "digits 256 (length (map unat bs)) (undigits 256 (map unat bs)) = map unat bs"
    by (rule digits_undigits) (auto simp: unat_u8_less)
  then show ?thesis
    by (simp add: be_val_def be_bytes_def comp_def)
qed

lemma be_val_bound: "be_val bs < 256 ^ length bs"
  using undigits_bound [of "map unat bs" 256] by (simp add: be_val_def unat_u8_less)

lemma be_val_Nil [simp]: "be_val [] = 0"
  by (simp add: be_val_def)

lemma be_val_snoc [simp]: "be_val (bs @ [b]) = be_val bs * 256 + unat b"
  by (simp add: be_val_def)

lemma be_val_append: "be_val (as @ bs) = be_val as * 256 ^ length bs + be_val bs"
  by (simp add: be_val_def undigits_append)

subsection \<open>Shifting and masking 64-bit words\<close>

lemma unat_push_bit_or:
  fixes v c :: u64
  assumes "unat v * 2 ^ k < 2 ^ 64" and "unat c < 2 ^ k"
  shows "unat (push_bit k v OR c) = unat v * 2 ^ k + unat c"
proof -
  have push: "unat (push_bit k v) = push_bit k (unat v)"
    unfolding unsigned_push_bit_eq
    by (rule take_bit_nat_eq_self) (use assms(1) in \<open>simp add: push_bit_eq_mult [of k "unat v"]\<close>)
  have "push_bit k (unat v) AND unat c = 0"
  proof (rule bit_eqI)
    fix i
    show "bit (push_bit k (unat v) AND unat c) i \<longleftrightarrow> bit (0 :: nat) i"
    proof (cases "i < k")
      case False
      have "take_bit k (unat c) = unat c"
        using assms(2) by (simp add: take_bit_nat_eq_self)
      with False have "\<not> bit (unat c) i"
        by (metis bit_take_bit_iff)
      then show ?thesis by (simp add: bit_and_iff)
    qed (simp add: bit_and_iff bit_push_bit_iff)
  qed
  then have "push_bit k (unat v) OR unat c = push_bit k (unat v) + unat c"
    by (simp add: disjunctive_add_eq_or)
  with push show ?thesis
    by (simp only: unsigned_or_eq push_bit_eq_mult [of k "unat v"])
qed

lemma unat_u64_less: "unat (v :: u64) < 2 ^ 64"
  using unsigned_less [of v, where 'a = nat] by simp

lemma unat_shift_mask:
  "unat (drop_bit k (v :: u64) AND mask n) = unat v div 2 ^ k mod 2 ^ n"
  unfolding take_bit_eq_mask [symmetric] unsigned_take_bit_eq unsigned_drop_bit_eq
  using unat_u64_less [of v] by (simp add: drop_bit_eq_div take_bit_eq_mod)

lemma unat_ucast_u8: "unat (ucast (b :: u8) :: u64) = unat b"
  unfolding unsigned_ucast_eq by (rule take_bit_nat_eq_self) (use unat_u8_less [of b] in simp)

lemma unat_push_bit:
  "unat (v :: u64) * 2 ^ k < 2 ^ 64 \<Longrightarrow> unat (push_bit k v) = unat v * 2 ^ k"
  using unat_push_bit_or [of v k 0] by simp

subsection \<open>Interfaces of the encoders\<close>

text \<open>A codec gives back what was encoded, for the values it is meant for.\<close>

locale codec =
  fixes enc :: "'a \<Rightarrow> 'c"
    and dec :: "'c \<Rightarrow> 'a option"
    and wf :: "'a \<Rightarrow> bool"
  assumes dec_enc: "wf x \<Longrightarrow> dec (enc x) = Some x"
begin

lemma enc_inject: "wf x \<Longrightarrow> wf y \<Longrightarrow> enc x = enc y \<longleftrightarrow> x = y"
  by (metis dec_enc option.inject)

end

text \<open>
  A self-delimiting codec also reads one value off the front of a longer list and leaves
  the rest. Such encodings are prefix-free, can be concatenated, and the concatenation
  can be read back by calling the decoder until nothing is left.
\<close>

fun read_all :: "nat \<Rightarrow> ('b list \<Rightarrow> ('a \<times> 'b list) option) \<Rightarrow> 'b list \<Rightarrow> 'a list option" where
  "read_all fuel rd [] = Some []"
| "read_all 0 rd (b # bs) = None"
| "read_all (Suc fuel) rd (b # bs) =
     (case rd (b # bs) of
        None \<Rightarrow> None
      | Some (x, rest) \<Rightarrow> map_option ((#) x) (read_all fuel rd rest))"

locale seq_codec =
  fixes enc :: "'a \<Rightarrow> 'b list"
    and rd :: "'b list \<Rightarrow> ('a \<times> 'b list) option"
    and wf :: "'a \<Rightarrow> bool"
  assumes rd_enc: "wf x \<Longrightarrow> rd (enc x @ rest) = Some (x, rest)"
    and enc_nonempty: "wf x \<Longrightarrow> enc x \<noteq> []"
begin

lemma append_inject:
  assumes "wf x" and "wf y" and "enc x @ xs = enc y @ ys"
  shows "x = y \<and> xs = ys"
proof -
  have "Some (x, xs) = rd (enc x @ xs)"
    by (rule rd_enc [OF assms(1), symmetric])
  also have "\<dots> = Some (y, ys)"
    unfolding assms(3) by (rule rd_enc [OF assms(2)])
  finally show ?thesis by simp
qed

lemma prefix_free:
  assumes "wf x" and "wf y" and "Sublist.prefix (enc x) (enc y)"
  shows "x = y"
proof -
  from assms(3) obtain zs where "enc y = enc x @ zs" by (auto simp: prefix_def)
  then show ?thesis
    using append_inject [OF assms(1,2), of zs "[]"] by simp
qed

lemma read_all_concat:
  "\<forall>x \<in> set xs. wf x \<Longrightarrow> length xs \<le> fuel \<Longrightarrow>
   read_all fuel rd (concat (map enc xs)) = Some xs"
proof (induction xs arbitrary: fuel)
  case (Cons x xs)
  then obtain f where f: "fuel = Suc f" and le: "length xs \<le> f"
    by (cases fuel) auto
  from Cons.prems(1) have "wf x" by simp
  then obtain b bs where "enc x = b # bs"
    using enc_nonempty by (cases "enc x") auto
  moreover from this have "rd (b # bs @ concat (map enc xs)) = Some (x, concat (map enc xs))"
    using rd_enc [OF \<open>wf x\<close>] by simp
  ultimately show ?case
    using Cons.IH [of f] Cons.prems(1) f le by simp
qed simp

lemma length_concat_ge: "\<forall>x \<in> set xs. wf x \<Longrightarrow> length xs \<le> length (concat (map enc xs))"
proof (induction xs)
  case (Cons x xs)
  then have "length xs \<le> length (concat (map enc xs))" and "length (enc x) \<ge> 1"
    using enc_nonempty [of x] by (auto simp: Suc_le_eq)
  then show ?case by simp
qed simp

lemma concat_inject:
  assumes "\<forall>x \<in> set xs. wf x" and "\<forall>y \<in> set ys. wf y"
    and "concat (map enc xs) = concat (map enc ys)"
  shows "xs = ys"
proof -
  let ?f = "length xs + length ys"
  have "Some xs = read_all ?f rd (concat (map enc xs))"
    using read_all_concat [OF assms(1), of ?f] by simp
  also have "\<dots> = Some ys"
    using read_all_concat [OF assms(2), of ?f] assms(3) by simp
  finally show ?thesis by simp
qed

end

text \<open>A self-delimiting codec used on a whole list is a codec.\<close>

sublocale seq_codec \<subseteq> whole: codec enc
  "\<lambda>bs. case rd bs of Some (x, []) \<Rightarrow> Some x | _ \<Rightarrow> None" wf
proof unfold_locales
  fix x
  assume "wf x"
  then have "rd (enc x) = Some (x, [])"
    using rd_enc [of x "[]"] by simp
  then show "(case rd (enc x) of Some (x, []) \<Rightarrow> Some x | _ \<Rightarrow> None) = Some x" by simp
qed

end
