(* ===== verification/Multibase.thy ===== *)
theory Multibase
  imports Memo_Prelude
begin

section \<open>Multibase: binary data as text\<close>

text \<open>
  \<^verbatim>\<open>memodb/lib/Multibase.cpp\<close>. A \<open>multibase\<close> record is one \<^verbatim>\<open>BitwiseBase<bits_per_char>\<close>
  object: its prefix character, name, alphabet and optional padding character.
  \<open>encodeWithoutPrefix\<close> and \<open>decodeWithoutPrefix\<close> are the two virtual functions, with the
  loops of the source as recursive functions: the outer \<^verbatim>\<open>while\<close> takes one group of
  \<^verbatim>\<open>lcm(8, bits_per_char)\<close> bits at a time, the inner \<^verbatim>\<open>do\<close> loop gathers the group into the
  64-bit \<^verbatim>\<open>Value\<close>, and a last loop emits it. The inner loops carry the number \<open>i\<close> of
  passes made, from which \<^verbatim>\<open>NumBits\<close> is \<open>8 * i\<close> or \<open>bits_per_char * i\<close>.

  The lemmas show that for the eight bases of the source decoding an encoding gives the
  bytes back, with and without the prefix character, that text of a padded base has
  whole groups, and which malformed texts are refused.
\<close>

record multibase =
  mb_prefix :: char
  mb_name :: string
  bits_per_char :: nat
  mb_chars :: string
  mb_pad :: "char option"

abbreviation InvalidValue :: int where
  "InvalidValue \<equiv> -1"

abbreviation PadValue :: int where
  "PadValue \<equiv> -2"

definition mb_values :: "multibase \<Rightarrow> char \<Rightarrow> int" where
  "mb_values b =
     (let v0 = (\<lambda>_. InvalidValue);
          v1 = fold (\<lambda>i v. v(mb_chars b ! i := int i)) [0..<length (mb_chars b)] v0
      in case mb_pad b of None \<Rightarrow> v1 | Some p \<Rightarrow> v1(p := PadValue))"

subsection \<open>Encoding\<close>

text \<open>
  Both inner loops run until a multiple \<open>k * i\<close> of their step is divisible by \<open>n\<close>, which
  happens after at most \<open>n\<close> passes.
\<close>

lemma passes_decrease: "k * Suc i mod n \<noteq> 0 \<Longrightarrow> 0 < n \<Longrightarrow> n - Suc i mod n < n - i mod n"
  using mod_less_divisor [of n i] mod_mult_right_eq [of k "Suc i" n]
  by (cases "Suc (i mod n) = n") (simp_all add: mod_Suc diff_less_mono2)

definition gather_byte :: "bytes \<Rightarrow> u64 \<Rightarrow> nat \<Rightarrow> bytes \<times> u64 \<times> nat" where
  "gather_byte bs Value ValidBits =
     (let Value = push_bit 8 Value in
      case bs of
        [] \<Rightarrow> ([], Value, ValidBits)
      | b # bs' \<Rightarrow> (bs', Value OR ucast b, ValidBits + 8))"

function gather_bytes :: "nat \<Rightarrow> bytes \<Rightarrow> u64 \<Rightarrow> nat \<Rightarrow> nat \<Rightarrow> bytes \<times> u64 \<times> nat \<times> nat" where
  "gather_bytes bpc bs Value i ValidBits =
     (case gather_byte bs Value ValidBits of
        (bs, Value, ValidBits) \<Rightarrow>
          if 8 * Suc i mod bpc \<noteq> 0 \<and> bpc \<noteq> 0
          then gather_bytes bpc bs Value (Suc i) ValidBits
          else (bs, Value, 8 * Suc i, ValidBits))"
  by pat_completeness auto
termination
proof (relation "measure (\<lambda>(bpc, bs, Value, i, ValidBits). bpc - i mod bpc)")
  fix bpc i :: nat and bs bs' Value Value' vb vb'
  assume "8 * Suc i mod bpc \<noteq> 0 \<and> bpc \<noteq> 0"
  then show "((bpc, bs', Value', Suc i, vb'), bpc, bs, Value, i, vb)
      \<in> measure (\<lambda>(bpc, bs, Value, i, ValidBits). bpc - i mod bpc)"
    using passes_decrease [of 8 i bpc] by simp
qed simp

function emit_chars :: "multibase \<Rightarrow> u64 \<Rightarrow> nat \<Rightarrow> nat \<Rightarrow> string \<times> nat" where
  "emit_chars b Value NumBits ValidBits =
     (if ValidBits = 0 \<or> bits_per_char b = 0 then ([], NumBits)
      else let ValidBits = ValidBits - (if ValidBits > bits_per_char b then bits_per_char b else ValidBits);
               NumBits = NumBits - bits_per_char b;
               c = mb_chars b ! unat (drop_bit NumBits Value AND mask (bits_per_char b));
               (cs, NumBits) = emit_chars b Value NumBits ValidBits
           in (c # cs, NumBits))"
  by pat_completeness auto
termination
  by (relation "measure (\<lambda>(b, Value, NumBits, ValidBits). ValidBits)") auto

fun pad_chars :: "char \<Rightarrow> nat \<Rightarrow> nat \<Rightarrow> string" where
  "pad_chars p bpc NumBits =
     (if NumBits = 0 \<or> bpc = 0 then [] else p # pad_chars p bpc (NumBits - bpc))"

declare gather_bytes.simps [simp del] emit_chars.simps [simp del] pad_chars.simps [simp del]

lemma gather_byte_rest: "gather_byte bs v vb = (bs', v', vb') \<Longrightarrow> length bs' \<le> length bs - 1"
  by (auto simp: gather_byte_def Let_def split: list.splits)

lemma gather_bytes_rest: "gather_bytes bpc bs v i vb = (bs', r) \<Longrightarrow> length bs' \<le> length bs - 1"
proof (induction bpc bs v i vb rule: gather_bytes.induct)
  case (1 bpc bs v i vb)
  obtain b2 v2 vb2 where step: "gather_byte bs v vb = (b2, v2, vb2)"
    by (cases "gather_byte bs v vb") auto
  from gather_byte_rest [OF this] have le: "length b2 \<le> length bs - 1" .
  show ?case
  proof (cases "8 * Suc i mod bpc \<noteq> 0 \<and> bpc \<noteq> 0")
    case True
    then have "gather_bytes bpc b2 v2 (Suc i) vb2 = (bs', r)"
      using "1.prems" step by (subst (asm) gather_bytes.simps) simp
    from "1.IH" [OF step [symmetric] refl True this] le show ?thesis by simp
  next
    case False
    with "1.prems" step le show ?thesis by (subst (asm) gather_bytes.simps) (simp only: if_False prod.case prod.inject)
  qed
qed

function encodeWithoutPrefix :: "multibase \<Rightarrow> bytes \<Rightarrow> string" where
  "encodeWithoutPrefix b bs =
     (if bs = [] then []
      else case gather_bytes (bits_per_char b) bs 0 0 0 of
        (bs, Value, NumBits, ValidBits) \<Rightarrow>
          (let (cs, NumBits) = emit_chars b Value NumBits ValidBits;
               ps = (case mb_pad b of None \<Rightarrow> [] | Some p \<Rightarrow> pad_chars p (bits_per_char b) NumBits)
           in cs @ ps @ encodeWithoutPrefix b bs))"
  by pat_completeness auto
termination
proof (relation "measure (\<lambda>(b, bs). length bs)", goal_cases)
  case (2 b bs bs' q)
  then have "length bs' \<le> length bs - 1"
    using gather_bytes_rest by metis
  with \<open>bs \<noteq> []\<close> show ?case by (cases bs) auto
qed simp

declare encodeWithoutPrefix.simps [simp del]

subsection \<open>Decoding\<close>

text \<open>One pass of the inner loop: the new \<^verbatim>\<open>Value\<close>, \<^verbatim>\<open>ValidBits\<close>, \<^verbatim>\<open>PadSeen\<close> and text.\<close>

definition decode_char ::
    "multibase \<Rightarrow> string \<Rightarrow> u64 \<Rightarrow> nat \<Rightarrow> bool \<Rightarrow> (string \<times> u64 \<times> nat \<times> bool) option" where
  "decode_char b str Value ValidBits PadSeen =
     (let Value = push_bit (bits_per_char b) Value in
      case (case str of
              [] \<Rightarrow> (if mb_pad b \<noteq> None then None else Some (PadValue, []))
            | c # str' \<Rightarrow> Some (mb_values b c, str')) of
        None \<Rightarrow> None
      | Some (CharValue, str) \<Rightarrow>
          if CharValue = InvalidValue then None
          else if CharValue = PadValue then
            (if ValidBits = 0 then None else Some (str, Value, ValidBits, True))
          else if PadSeen then None
          else Some (str, Value OR of_int CharValue, ValidBits + bits_per_char b, PadSeen))"

function decode_group ::
    "multibase \<Rightarrow> string \<Rightarrow> u64 \<Rightarrow> nat \<Rightarrow> nat \<Rightarrow> bool
      \<Rightarrow> (string \<times> u64 \<times> nat \<times> nat \<times> bool) option" where
  "decode_group b str Value i ValidBits PadSeen =
     (case decode_char b str Value ValidBits PadSeen of
        None \<Rightarrow> None
      | Some (str, Value, ValidBits, PadSeen) \<Rightarrow>
          if bits_per_char b * Suc i mod 8 \<noteq> 0
          then decode_group b str Value (Suc i) ValidBits PadSeen
          else Some (str, Value, bits_per_char b * Suc i, ValidBits, PadSeen))"
  by pat_completeness auto
termination
proof (relation "measure (\<lambda>(b, str, Value, i, ValidBits, PadSeen). 8 - i mod 8)")
  fix b str Value i vb ps str' Value' vb' ps'
  assume "bits_per_char b * Suc i mod 8 \<noteq> 0"
  then show "((b, str', Value', Suc i, vb', ps'), b, str, Value, i, vb, ps)
      \<in> measure (\<lambda>(b, str, Value, i, ValidBits, PadSeen). 8 - i mod 8)"
    using passes_decrease [of "bits_per_char b" i 8] by simp
qed simp

fun emit_bytes :: "u64 \<Rightarrow> nat \<Rightarrow> nat \<Rightarrow> bytes \<times> nat" where
  "emit_bytes Value NumBits ValidBits =
     (if ValidBits \<ge> 8
      then let (bs, vb) = emit_bytes Value (NumBits - 8) (ValidBits - 8)
           in (ucast (drop_bit (NumBits - 8) Value AND mask 8) # bs, vb)
      else ([], ValidBits))"

declare decode_group.simps [simp del] emit_bytes.simps [simp del]

lemma decode_char_rest:
  "decode_char b str v vb ps = Some (str', v', vb', ps') \<Longrightarrow> length str' \<le> length str - 1"
  by (auto simp: decode_char_def Let_def split: list.splits if_splits)

lemma decode_group_rest:
  "decode_group b str v i vb ps = Some (str', r) \<Longrightarrow> length str' \<le> length str - 1"
proof (induction b str v i vb ps rule: decode_group.induct)
  case (1 b str v i vb ps)
  from "1.prems" obtain s2 v2 vb2 ps2 where step: "decode_char b str v vb ps = Some (s2, v2, vb2, ps2)"
    by (subst (asm) decode_group.simps) (auto split: option.splits)
  from decode_char_rest [OF this] have le: "length s2 \<le> length str - 1" .
  show ?case
  proof (cases "bits_per_char b * Suc i mod 8 \<noteq> 0")
    case True
    then have "decode_group b s2 v2 (Suc i) vb2 ps2 = Some (str', r)"
      using "1.prems" step by (subst (asm) decode_group.simps) simp
    from "1.IH" [OF step refl refl refl True this] le show ?thesis by simp
  next
    case False
    with "1.prems" step le show ?thesis by (subst (asm) decode_group.simps) simp
  qed
qed

function decode_loop :: "multibase \<Rightarrow> string \<Rightarrow> bool \<Rightarrow> bytes option" where
  "decode_loop b str PadSeen =
     (if str = [] then Some []
      else case decode_group b str 0 0 0 PadSeen of
        None \<Rightarrow> None
      | Some (str, Value, NumBits, ValidBits, PadSeen) \<Rightarrow>
          (let (bs, ValidBits) = emit_bytes Value NumBits ValidBits
           in if ValidBits \<ge> bits_per_char b then None
              else map_option ((@) bs) (decode_loop b str PadSeen)))"
  by pat_completeness auto
termination
proof (relation "measure (\<lambda>(b, str, PadSeen). length str)")
  fix b str PadSeen and r :: "string \<times> u64 \<times> nat \<times> nat \<times> bool"
    and str' q Value q1 NumBits q2 ValidBits ps' x bs vb'
  assume "str \<noteq> []" and "decode_group b str 0 0 0 PadSeen = Some r" and "(str', q) = r"
  then have "length str' \<le> length str - 1"
    using decode_group_rest by blast
  with \<open>str \<noteq> []\<close> show "((b, str', ps'), b, str, PadSeen) \<in> measure (\<lambda>(b, str, PadSeen). length str)"
    by (cases str) auto
qed simp

declare decode_loop.simps [simp del]

definition decodeWithoutPrefix :: "multibase \<Rightarrow> string \<Rightarrow> bytes option" where
  "decodeWithoutPrefix b str = decode_loop b str False"

subsection \<open>The bases\<close>

abbreviation base64_chars :: string where
  "base64_chars \<equiv> ''ABCDEFGHIJKLMNOPQRSTUVWXYZabcdefghijklmnopqrstuvwxyz0123456789+/''"

abbreviation base64url_chars :: string where
  "base64url_chars \<equiv> ''ABCDEFGHIJKLMNOPQRSTUVWXYZabcdefghijklmnopqrstuvwxyz0123456789-_''"

definition base16 :: multibase where
  "base16 = \<lparr>mb_prefix = CHR ''f'', mb_name = ''base16'', bits_per_char = 4,
     mb_chars = ''0123456789abcdef'', mb_pad = None\<rparr>"

definition base16upper :: multibase where
  "base16upper = \<lparr>mb_prefix = CHR ''F'', mb_name = ''base16upper'', bits_per_char = 4,
     mb_chars = ''0123456789ABCDEF'', mb_pad = None\<rparr>"

definition base32 :: multibase where
  "base32 = \<lparr>mb_prefix = CHR ''b'', mb_name = ''base32'', bits_per_char = 5,
     mb_chars = ''abcdefghijklmnopqrstuvwxyz234567'', mb_pad = None\<rparr>"

definition base32upper :: multibase where
  "base32upper = \<lparr>mb_prefix = CHR ''B'', mb_name = ''base32upper'', bits_per_char = 5,
     mb_chars = ''ABCDEFGHIJKLMNOPQRSTUVWXYZ234567'', mb_pad = None\<rparr>"

definition base64 :: multibase where
  "base64 = \<lparr>mb_prefix = CHR ''m'', mb_name = ''base64'', bits_per_char = 6,
     mb_chars = base64_chars, mb_pad = None\<rparr>"

definition base64pad :: multibase where
  "base64pad = \<lparr>mb_prefix = CHR ''M'', mb_name = ''base64pad'', bits_per_char = 6,
     mb_chars = base64_chars, mb_pad = Some (CHR ''='')\<rparr>"

definition base64url :: multibase where
  "base64url = \<lparr>mb_prefix = CHR ''u'', mb_name = ''base64url'', bits_per_char = 6,
     mb_chars = base64url_chars, mb_pad = None\<rparr>"

definition base64urlpad :: multibase where
  "base64urlpad = \<lparr>mb_prefix = CHR ''U'', mb_name = ''base64urlpad'', bits_per_char = 6,
     mb_chars = base64url_chars, mb_pad = Some (CHR ''='')\<rparr>"

definition AllBases :: "multibase list" where
  "AllBases = [base16, base16upper, base32, base32upper, base64, base64pad, base64url, base64urlpad]"

definition mb_decode :: "string \<Rightarrow> bytes option" where
  "mb_decode str =
     (case str of
        [] \<Rightarrow> None
      | c # rest \<Rightarrow>
          (case find (\<lambda>b. c = mb_prefix b) AllBases of
             Some b \<Rightarrow> decodeWithoutPrefix b rest
           | None \<Rightarrow> None))"

definition mb_encode :: "multibase \<Rightarrow> bytes \<Rightarrow> string" where
  "mb_encode b bs = mb_prefix b # encodeWithoutPrefix b bs"

definition findByName :: "string \<Rightarrow> multibase option" where
  "findByName name = find (\<lambda>b. name = mb_name b) AllBases"

definition eachBase :: "(multibase \<Rightarrow> 's \<Rightarrow> 's) \<Rightarrow> 's \<Rightarrow> 's" where
  "eachBase func s = fold func AllBases s"

subsection \<open>One group: what the loops compute\<close>

text \<open>
  The value a group stands for is the number its bytes (or its characters) write in base
  256 (or in base \<open>2 ^ bits_per_char\<close>), with zeros for what is missing at the end.
\<close>

definition group_val :: "nat \<Rightarrow> nat list \<Rightarrow> nat \<Rightarrow> nat" where
  "group_val B ds n = undigits B ds * B ^ (n - length ds)"

lemma group_val_Nil [simp]: "group_val B [] n = 0"
  by (simp add: group_val_def)

lemma group_val_Cons:
  "length ds \<le> n \<Longrightarrow> group_val B (d # ds) (Suc n) = d * B ^ n + group_val B ds n"
  by (simp add: group_val_def undigits_Cons algebra_simps flip: power_add)

lemma group_val_bound:
  assumes "\<forall>d \<in> set ds. d < B" and "length ds \<le> n" and "0 < B"
  shows "group_val B ds n < B ^ n"
proof -
  have "group_val B ds n < B ^ length ds * B ^ (n - length ds)"
    using undigits_bound [OF assms(1)] \<open>0 < B\<close> by (simp add: group_val_def)
  also have "\<dots> = B ^ n"
    using assms(2) by (simp flip: power_add)
  finally show ?thesis .
qed

text \<open>Taking more digits of a group value than were written gives the written ones back.\<close>

lemma digits_group_val:
  assumes "\<forall>d \<in> set ds. d < B" and "length ds \<le> n" and "0 < B"
  shows "take (length ds) (digits B n (group_val B ds n)) = ds"
proof -
  have "digits B (length ds + (n - length ds)) (group_val B ds n)
      = digits B (length ds) (undigits B ds) @ digits B (n - length ds) (group_val B ds n)"
    unfolding digits_append using \<open>0 < B\<close> by (simp add: group_val_def)
  then show ?thesis
    using assms(2) digits_undigits [OF assms(1)] by simp
qed

lemma group_val_take_digits:
  assumes "v < B ^ n" and "q \<le> n" and "B ^ (n - q) dvd v" and "0 < B"
  shows "group_val B (take q (digits B n v)) n = v"
proof -
  from assms(3) obtain u where v: "v = u * B ^ (n - q)" by (auto simp: dvd_def mult.commute)
  have "digits B (q + (n - q)) v = digits B q u @ digits B (n - q) v"
    unfolding digits_append using v \<open>0 < B\<close> by simp
  then have "take q (digits B n v) = digits B q u"
    using \<open>q \<le> n\<close> by simp
  moreover have "u * B ^ (n - q) < B ^ q * B ^ (n - q)"
    using assms(1) v \<open>q \<le> n\<close> by (simp flip: power_add)
  then have "u < B ^ q" by simp
  ultimately show ?thesis
    using v by (simp add: group_val_def undigits_digits)
qed

lemma gather_bytes_group:
  assumes "\<forall>j \<in> {1..<n}. 8 * (i + j) mod bpc \<noteq> 0" and "8 * (i + n) mod bpc = 0"
    and "0 < n" and "0 < bpc" and "(unat v + 1) * 256 ^ n \<le> 2 ^ 64"
  shows "\<exists>w. gather_bytes bpc bs v i vb
             = (drop n bs, w, 8 * (i + n), vb + 8 * length (take n bs))
           \<and> unat w = unat v * 256 ^ n + group_val 256 (map unat (take n bs)) n"
  using assms
proof (induction n arbitrary: bs v i vb)
  case (Suc n)
  obtain b2 v2 vb2 where step: "gather_byte bs v vb = (b2, v2, vb2)"
    by (cases "gather_byte bs v vb") auto
  let ?b = "case bs of [] \<Rightarrow> 0 | b # _ \<Rightarrow> unat b"
  have small: "unat v * 2 ^ 8 < 2 ^ 64" and room: "(unat v * 256 + ?b + 1) * 256 ^ n \<le> 2 ^ 64"
  proof -
    have "(unat v * 256 + ?b + 1) * 256 ^ n \<le> (unat v * 256 + 256) * 256 ^ n"
      by (rule mult_le_mono1) (auto split: list.splits simp: Suc_le_eq unat_u8_less)
    also have "\<dots> \<le> 2 ^ 64" using Suc.prems(5) by (simp add: algebra_simps)
    finally show "(unat v * 256 + ?b + 1) * 256 ^ n \<le> 2 ^ 64" .
    have "unat v * 2 ^ 8 < (unat v + 1) * 256 ^ Suc n"
      by (rule less_le_trans [of _ "(unat v + 1) * 256", OF _ mult_le_mono2]) auto
    then show "unat v * 2 ^ 8 < 2 ^ 64" using Suc.prems(5) by linarith
  qed
  have v2: "unat v2 = unat v * 256 + ?b" and b2: "b2 = drop 1 bs"
    and vb2: "vb2 = vb + 8 * length (take 1 bs)"
    using step unat_push_bit [OF small] unat_push_bit_or [OF small, of "ucast (hd bs)"] unat_u8_less
    by (auto simp: gather_byte_def Let_def unat_ucast_u8 split: list.splits)
  show ?case
  proof (cases n)
    case 0
    with Suc.prems step v2 b2 vb2 show ?thesis
      by (subst gather_bytes.simps) (auto simp: group_val_Cons split: list.splits)
  next
    case (Suc m)
    have "8 * Suc i mod bpc \<noteq> 0"
      using bspec [OF Suc.prems(1), of 1] Suc by simp
    then have unf: "gather_bytes bpc bs v i vb = gather_bytes bpc b2 v2 (Suc i) vb2"
      using step \<open>0 < bpc\<close> by (subst gather_bytes.simps) simp
    have "\<exists>w. gather_bytes bpc b2 v2 (Suc i) vb2
             = (drop n b2, w, 8 * (Suc i + n), vb2 + 8 * length (take n b2))
           \<and> unat w = unat v2 * 256 ^ n + group_val 256 (map unat (take n b2)) n"
    proof (rule Suc.IH)
      show "\<forall>j \<in> {1..<n}. 8 * (Suc i + j) mod bpc \<noteq> 0"
        using bspec [OF Suc.prems(1), of "Suc j" for j] by auto
    qed (use Suc.prems(2,4) Suc room v2 in auto)
    then show ?thesis
      unfolding unf b2 vb2 using v2
      by (cases bs) (auto simp: group_val_Cons algebra_simps)
  qed
qed simp

lemma emit_chars_digits:
  assumes "q * bits_per_char b \<ge> vb" and "q * bits_per_char b < vb + bits_per_char b"
    and "q \<le> n"
  shows "emit_chars b v (bits_per_char b * n) vb
       = (map ((!) (mb_chars b)) (take q (digits (2 ^ bits_per_char b) n (unat v))),
          bits_per_char b * (n - q))"
  using assms
proof (induction q arbitrary: vb n)
  case 0
  then show ?case by (subst emit_chars.simps) simp
next
  case (Suc q)
  let ?k = "bits_per_char b"
  from Suc.prems have k: "0 < ?k" and "0 < vb" and n: "0 < n"
    by (auto intro: Nat.gr0I)
  define vb' where "vb' = vb - (if vb > ?k then ?k else vb)"
  from n obtain n' where n': "n = Suc n'" by (cases n) auto
  have IH: "emit_chars b v (?k * n') vb'
      = (map ((!) (mb_chars b)) (take q (digits (2 ^ ?k) n' (unat v))), ?k * (n' - q))"
  proof (rule Suc.IH)
    have "q = 0" if "vb \<le> ?k"
    proof (rule ccontr)
      assume "q \<noteq> 0"
      then have "?k \<le> q * ?k" by (cases q) auto
      with Suc.prems(2) that show False by (simp only: mult_Suc)
    qed
    then show "vb' \<le> q * ?k" and "q * ?k < vb' + ?k"
      using Suc.prems k unfolding vb'_def by (auto simp: algebra_simps)
  qed (use Suc.prems n' in simp)
  have dig: "digits (2 ^ ?k) n (unat v)
      = (unat v div 2 ^ (?k * n') mod 2 ^ ?k) # digits (2 ^ ?k) n' (unat v)"
    using digits_append [of "2 ^ ?k" 1 n' "unat v"] by (simp add: n' power_mult)
  show ?case
    using IH k \<open>0 < vb\<close>
    unfolding dig
    by (subst emit_chars.simps) (simp add: Let_def vb'_def [symmetric] n' unat_shift_mask)
qed

lemma pad_chars_replicate: "0 < k \<Longrightarrow> pad_chars p k (k * n) = replicate n p"
  by (induction n) (simp_all add: pad_chars.simps [of p k])

lemma emit_bytes_digits:
  "vb div 8 \<le> n \<Longrightarrow>
   emit_bytes v (8 * n) vb = (map of_nat (take (vb div 8) (digits 256 n (unat v))), vb mod 8)"
proof (induction "vb div 8" arbitrary: vb n)
  case 0
  then have "vb < 8" by simp
  then show ?case by (subst emit_bytes.simps) simp
next
  case (Suc q)
  then have "8 \<le> vb" and q: "(vb - 8) div 8 = q" and m: "(vb - 8) mod 8 = vb mod 8"
    by (auto simp: le_div_geq le_mod_geq)
  from Suc obtain n' where n': "n = Suc n'" and le: "q \<le> n'" by (cases n) auto
  have dig: "digits 256 n (unat v) = (unat v div 256 ^ n' mod 256) # digits 256 n' (unat v)"
    using digits_append [of 256 1 n' "unat v"] by (simp add: n')
  have byte: "ucast (drop_bit (8 * n') v AND mask 8) = (of_nat (unat v div 256 ^ n' mod 256) :: u8)"
    using unat_shift_mask [of "8 * n'" v 8]
    by (simp add: power_mult) (metis of_nat_unat unsigned_ucast_eq)
  show ?case
    using Suc.hyps(1) [of "vb - 8" n'] q m le \<open>8 \<le> vb\<close> Suc.hyps(2)
    unfolding dig by (subst emit_bytes.simps) (simp add: n' byte flip: Suc.hyps(2))
qed

text \<open>
  What the decoding proofs need of an alphabet: every character has its position as its
  value, and no character of it is the padding character.
\<close>

definition alphabet_ok :: "multibase \<Rightarrow> bool" where
  "alphabet_ok b \<longleftrightarrow>
     bits_per_char b \<in> {4, 5, 6} \<and> length (mb_chars b) = 2 ^ bits_per_char b \<and>
     (\<forall>i < length (mb_chars b). mb_values b (mb_chars b ! i) = int i) \<and>
     (case mb_pad b of None \<Rightarrow> True | Some p \<Rightarrow> mb_values b p = PadValue)"

lemma decode_char_digit:
  assumes "alphabet_ok b" and "d < 2 ^ bits_per_char b" and "unat v * 2 ^ bits_per_char b < 2 ^ 64"
  shows "\<exists>w. decode_char b (mb_chars b ! d # str) v vb False = Some (str, w, vb + bits_per_char b, False)
           \<and> unat w = unat v * 2 ^ bits_per_char b + d"
proof -
  have "d < 2 ^ 64"
    using assms(1,2) by (auto simp: alphabet_ok_def)
  then have d: "unat (of_nat d :: u64) = d"
    by (simp add: unat_of_nat)
  have val: "mb_values b (mb_chars b ! d) = int d"
    using assms(1,2) by (simp add: alphabet_ok_def)
  show ?thesis
    using unat_push_bit_or [OF assms(3), of "of_nat d"] assms(2)
    by (simp add: decode_char_def Let_def val d)
qed

lemma decode_char_pad:
  assumes "alphabet_ok b" and "unat v * 2 ^ bits_per_char b < 2 ^ 64" and "0 < vb"
    and "str = (case mb_pad b of None \<Rightarrow> [] | Some p \<Rightarrow> p # str')" and "mb_pad b = None \<Longrightarrow> str' = []"
  shows "\<exists>w. decode_char b str v vb ps = Some (str', w, vb, True)
           \<and> unat w = unat v * 2 ^ bits_per_char b"
  using assms unat_push_bit [OF assms(2)]
  by (auto simp: decode_char_def Let_def alphabet_ok_def split: option.splits)

definition pad_tail :: "multibase \<Rightarrow> nat \<Rightarrow> string" where
  "pad_tail b n = (case mb_pad b of None \<Rightarrow> [] | Some p \<Rightarrow> replicate n p)"

text \<open>The passes of the inner loop that are left after \<open>i\<close> passes.\<close>

definition passes_left :: "nat \<Rightarrow> nat \<Rightarrow> nat \<Rightarrow> bool" where
  "passes_left k i n \<longleftrightarrow>
     0 < n \<and> k * (i + n) mod 8 = 0 \<and> (\<forall>j \<in> {1..<n}. k * (i + j) mod 8 \<noteq> 0)"

lemma passes_left_SucD:
  assumes "passes_left k i (Suc (Suc n))"
  shows "passes_left k (Suc i) (Suc n)" and "k * Suc i mod 8 \<noteq> 0"
proof -
  from assms have all: "j \<in> {1..<Suc (Suc n)} \<Longrightarrow> k * (i + j) mod 8 \<noteq> 0" for j
    unfolding passes_left_def by blast
  from all [of 1] show "k * Suc i mod 8 \<noteq> 0" by simp
  have "k * (Suc i + j) mod 8 \<noteq> 0" if "j \<in> {1..<Suc n}" for j
    using all [of "Suc j"] that by simp
  with assms show "passes_left k (Suc i) (Suc n)" unfolding passes_left_def by simp
qed

lemma decode_group_last:
  "passes_left (bits_per_char b) i (Suc 0) \<Longrightarrow>
   decode_char b str v vb ps = Some (str', w, vb', ps') \<Longrightarrow>
   decode_group b str v i vb ps = Some (str', w, bits_per_char b * Suc i, vb', ps')"
  by (subst decode_group.simps) (simp add: passes_left_def)

lemma decode_group_more:
  "passes_left (bits_per_char b) i (Suc (Suc n)) \<Longrightarrow>
   decode_char b str v vb ps = Some (str', w, vb', ps') \<Longrightarrow>
   decode_group b str v i vb ps = decode_group b str' w (Suc i) vb' ps'"
  by (drule passes_left_SucD(2), subst decode_group.simps) simp

lemma decode_group_pads:
  assumes "alphabet_ok b" and "passes_left (bits_per_char b) i n"
    and "unat v * (2 ^ bits_per_char b) ^ n < 2 ^ 64" and "0 < vb"
    and "mb_pad b = None \<Longrightarrow> rest = []"
  shows "\<exists>w. decode_group b (pad_tail b n @ rest) v i vb ps
             = Some (rest, w, bits_per_char b * (i + n), vb, True)
           \<and> unat w = unat v * (2 ^ bits_per_char b) ^ n"
  using assms(2,3)
proof (induction n arbitrary: v i ps)
  case (Suc n)
  let ?B = "2 ^ bits_per_char b :: nat"
  have "unat v * ?B \<le> unat v * ?B * ?B ^ n" by simp
  also have "\<dots> < 2 ^ 64" using Suc.prems(2) by (simp add: mult.assoc)
  finally have small: "unat v * ?B < 2 ^ 64" .
  have "pad_tail b (Suc n) @ rest = (case mb_pad b of None \<Rightarrow> [] | Some p \<Rightarrow> p # pad_tail b n @ rest)"
    and "mb_pad b = None \<Longrightarrow> pad_tail b n @ rest = []"
    using assms(5) by (auto simp: pad_tail_def split: option.splits)
  from decode_char_pad [OF assms(1) small assms(4) this, of ps]
  obtain w where step: "decode_char b (pad_tail b (Suc n) @ rest) v vb ps
      = Some (pad_tail b n @ rest, w, vb, True)" and w: "unat w = unat v * ?B"
    by blast
  show ?case
  proof (cases n)
    case 0
    with decode_group_last [OF _ step] Suc.prems(1) w show ?thesis
      by (simp add: pad_tail_def split: option.splits)
  next
    case (Suc m)
    with Suc.prems(1) have "passes_left (bits_per_char b) (Suc i) n"
      and unf: "decode_group b (pad_tail b (Suc n) @ rest) v i vb ps
        = decode_group b (pad_tail b n @ rest) w (Suc i) vb True"
      using decode_group_more [OF _ step] passes_left_SucD(1) by auto
    from Suc.IH [OF this(1), of w True] Suc.prems(2) w show ?thesis
      unfolding unf by (simp add: mult.assoc)
  qed
qed (simp add: passes_left_def)

lemma decode_group_digits:
  assumes "alphabet_ok b" and "passes_left (bits_per_char b) i n"
    and "(unat v + 1) * (2 ^ bits_per_char b) ^ n \<le> 2 ^ 64"
    and "\<forall>d \<in> set ds. d < 2 ^ bits_per_char b" and "length ds \<le> n" and "0 < vb \<or> ds \<noteq> []"
    and "mb_pad b = None \<Longrightarrow> length ds < n \<Longrightarrow> rest = []"
  shows "\<exists>w. decode_group b (map ((!) (mb_chars b)) ds @ pad_tail b (n - length ds) @ rest) v i vb False
             = Some (rest, w, bits_per_char b * (i + n), vb + bits_per_char b * length ds, length ds < n)
           \<and> unat w = unat v * (2 ^ bits_per_char b) ^ n + group_val (2 ^ bits_per_char b) ds n"
  using assms(2-7)
proof (induction ds arbitrary: v i vb n)
  case Nil
  have "unat v * (2 ^ bits_per_char b) ^ n < 2 ^ 64"
    using Nil.prems(2) by (rule less_le_trans [rotated]) simp
  with decode_group_pads [OF assms(1) Nil.prems(1) this, of vb rest False] Nil.prems show ?case
    by (auto simp: passes_left_def)
next
  case (Cons d ds)
  let ?B = "2 ^ bits_per_char b :: nat"
  obtain m where m: "n = Suc m" using Cons.prems(1) by (cases n) (auto simp: passes_left_def)
  have d: "d < ?B" using Cons.prems(3) by simp
  have room: "(unat v * ?B + d + 1) * ?B ^ m \<le> 2 ^ 64"
  proof -
    have "(unat v * ?B + d + 1) * ?B ^ m \<le> (unat v * ?B + ?B) * ?B ^ m"
      by (rule mult_le_mono1) (use d in simp)
    also have "\<dots> \<le> 2 ^ 64" using Cons.prems(2) by (simp add: m algebra_simps)
    finally show ?thesis .
  qed
  have "unat v * ?B < (unat v * ?B + d + 1) * 1" by simp
  also have "\<dots> \<le> (unat v * ?B + d + 1) * ?B ^ m" by (rule mult_le_mono2) simp
  also note room
  finally have small: "unat v * ?B < 2 ^ 64" .
  let ?str = "map ((!) (mb_chars b)) ds @ pad_tail b (m - length ds) @ rest"
  obtain w where step: "decode_char b (mb_chars b ! d # ?str) v vb False
      = Some (?str, w, vb + bits_per_char b, False)" and w: "unat w = unat v * ?B + d"
    using decode_char_digit [OF assms(1) d small] by blast
  have k: "0 < bits_per_char b" using assms(1) by (auto simp: alphabet_ok_def)
  show ?case
  proof (cases m)
    case 0
    with decode_group_last [OF _ step] Cons.prems(1,4) w show ?thesis
      by (simp add: m group_val_def undigits_def pad_tail_def split: option.splits)
  next
    case (Suc m')
    have unf: "decode_group b (mb_chars b ! d # ?str) v i vb False
        = decode_group b ?str w (Suc i) (vb + bits_per_char b) False"
      and left: "passes_left (bits_per_char b) (Suc i) m"
      using Cons.prems(1) decode_group_more [OF _ step] passes_left_SucD(1) Suc m by auto
    from Cons.IH [OF left, of w "vb + bits_per_char b"] Cons.prems(3-6) room w k m
    show ?thesis by (auto simp: unf group_val_Cons algebra_simps)
  qed
qed

subsection \<open>Encoding and decoding a group\<close>

text \<open>
  \<open>group_bytes\<close> and \<open>group_chars\<close> are the sizes of a whole group. The encoder writes
  \<open>chars_for k m\<close> characters for the \<open>m\<close> bytes it found.
\<close>

definition group_bytes :: "nat \<Rightarrow> nat" where
  "group_bytes k = k div gcd 8 k"

definition group_chars :: "nat \<Rightarrow> nat" where
  "group_chars k = 8 div gcd 8 k"

definition chars_for :: "nat \<Rightarrow> nat \<Rightarrow> nat" where
  "chars_for k m = (8 * m + k - 1) div k"

text \<open>What holds of the sizes is checked for each of the three values of \<^verbatim>\<open>bits_per_char\<close>.\<close>

definition group_sizes_ok :: "nat \<Rightarrow> bool" where
  "group_sizes_ok k \<longleftrightarrow>
     8 * group_bytes k = k * group_chars k \<and> passes_left k 0 (group_chars k) \<and>
     0 < group_bytes k \<and> group_bytes k \<le> 8 \<and>
     (\<forall>j \<in> {1..<group_bytes k}. 8 * j mod k \<noteq> 0) \<and>
     (\<forall>m \<in> {0..group_bytes k}.
        chars_for k m \<le> group_chars k \<and> (chars_for k m < group_chars k \<longleftrightarrow> m < group_bytes k) \<and>
        (0 < m \<longrightarrow> 0 < chars_for k m) \<and> k * chars_for k m div 8 = m \<and> k * chars_for k m mod 8 < k)"

lemma group_sizes: "k \<in> {4, 5, 6} \<Longrightarrow> group_sizes_ok k"
proof -
  have "group_sizes_ok 4" "group_sizes_ok 5" "group_sizes_ok 6" by code_simp+
  then show "k \<in> {4, 5, 6} \<Longrightarrow> group_sizes_ok k" by blast
qed

lemma chars_for_bounds:
  assumes "0 < k"
  shows "8 * m \<le> chars_for k m * k" and "chars_for k m * k < 8 * m + k"
proof -
  have "chars_for k m * k + (8 * m + k - 1) mod k = 8 * m + k - 1"
    by (simp add: chars_for_def)
  moreover have "(8 * m + k - 1) mod k < k" using assms by simp
  ultimately show "8 * m \<le> chars_for k m * k" and "chars_for k m * k < 8 * m + k"
    using assms by linarith+
qed

definition group_digits :: "nat \<Rightarrow> bytes \<Rightarrow> nat list" where
  "group_digits k bs =
     take (chars_for k (length bs))
       (digits (2 ^ k) (group_chars k) (group_val 256 (map unat bs) (group_bytes k)))"

lemma encode_group:
  assumes "alphabet_ok b" and "bs \<noteq> []"
  defines "k \<equiv> bits_per_char b"
  defines "ds \<equiv> group_digits k (take (group_bytes k) bs)"
  shows "encodeWithoutPrefix b bs
       = map ((!) (mb_chars b)) ds @ pad_tail b (group_chars k - length ds)
           @ encodeWithoutPrefix b (drop (group_bytes k) bs)"
proof -
  have k: "k \<in> {4, 5, 6}" using assms(1) by (auto simp: alphabet_ok_def k_def)
  note sz = group_sizes [OF k, unfolded group_sizes_ok_def]
  define m where "m = min (length bs) (group_bytes k)"
  have m: "m \<in> {0..group_bytes k}" by (simp add: m_def)
  have "256 ^ group_bytes k \<le> (256 ^ 8 :: nat)"
    by (rule power_increasing) (use sz in auto)
  then have "(unat (0 :: u64) + 1) * 256 ^ group_bytes k \<le> 2 ^ 64" by simp
  with sz k obtain w where g: "gather_bytes k bs 0 0 0
      = (drop (group_bytes k) bs, w, k * group_chars k, 8 * m)"
    and w: "unat w = group_val 256 (map unat (take (group_bytes k) bs)) (group_bytes k)"
    using gather_bytes_group [of "group_bytes k" 0 k 0 bs 0] by (auto simp: m_def)
  have ds: "ds = take (chars_for k m) (digits (2 ^ k) (group_chars k) (unat w))"
    by (simp add: ds_def group_digits_def w m_def)
  have le: "chars_for k m \<le> group_chars k" using sz m by blast
  then have len: "length ds = chars_for k m" by (simp add: ds)
  have e: "emit_chars b w (k * group_chars k) (8 * m)
      = (map ((!) (mb_chars b)) ds, k * (group_chars k - chars_for k m))"
    unfolding ds k_def using chars_for_bounds [of k m] k le
    by (intro emit_chars_digits) (auto simp: k_def)
  have p: "(case mb_pad b of None \<Rightarrow> [] | Some p \<Rightarrow> pad_chars p k (k * (group_chars k - chars_for k m)))
      = pad_tail b (group_chars k - length ds)"
    using k by (auto simp: pad_tail_def len pad_chars_replicate split: option.splits)
  show ?thesis
    using assms(2) g e p unfolding k_def by (subst encodeWithoutPrefix.simps) (simp add: Let_def)
qed

lemma decode_encoded_group:
  assumes "alphabet_ok b" and "bs \<noteq> []" and "length bs \<le> group_bytes (bits_per_char b)"
    and "length bs < group_bytes (bits_per_char b) \<Longrightarrow> rest = []"
  defines "k \<equiv> bits_per_char b"
  defines "ds \<equiv> group_digits k bs"
  shows "decode_loop b (map ((!) (mb_chars b)) ds @ pad_tail b (group_chars k - length ds) @ rest) False
       = map_option ((@) bs) (decode_loop b rest (length bs < group_bytes k))"
proof -
  have k: "k \<in> {4, 5, 6}" using assms(1) by (auto simp: alphabet_ok_def k_def)
  note sz = group_sizes [OF k, unfolded group_sizes_ok_def]
  from sz have G: "8 * group_bytes k = k * group_chars k" "group_bytes k \<le> 8"
      "passes_left k 0 (group_chars k)" by blast+
  have m: "length bs \<in> {0..group_bytes k}" using assms(3) by (simp add: k_def)
  with sz have q: "chars_for k (length bs) \<le> group_chars k"
      "chars_for k (length bs) < group_chars k \<longleftrightarrow> length bs < group_bytes k"
      "0 < chars_for k (length bs)" "k * chars_for k (length bs) div 8 = length bs"
      "k * chars_for k (length bs) mod 8 < k"
    using assms(2) by blast+
  let ?v = "group_val 256 (map unat bs) (group_bytes k)"
  have small: "\<forall>d \<in> set (map unat bs). d < 256" by (auto simp: unat_u8_less)
  have pow: "256 ^ group_bytes k = ((2 :: nat) ^ k) ^ group_chars k"
    using G(1) power_mult [of "2 :: nat" 8 "group_bytes k"] by (simp add: power_mult)
  have v: "?v < (2 ^ k) ^ group_chars k"
    using group_val_bound [OF small] m by (simp flip: pow)
  have len: "length ds = chars_for k (length bs)" by (simp add: ds_def group_digits_def q)
  have ne: "ds \<noteq> []" using len q(3) by auto
  have "group_val (2 ^ k) ds (group_chars k) = ?v"
    unfolding ds_def group_digits_def
  proof (rule group_val_take_digits [OF v q(1)])
    have "k * (group_chars k - chars_for k (length bs)) \<le> 8 * (group_bytes k - length bs)"
      using chars_for_bounds(1) [of k "length bs"] k G(1)
      by (simp only: diff_mult_distrib2) (auto simp: mult.commute intro: diff_le_mono2)
    then have "(2 :: nat) ^ (k * (group_chars k - chars_for k (length bs)))
        dvd 2 ^ (8 * (group_bytes k - length bs))"
      by (rule le_imp_power_dvd)
    then show "(2 ^ k) ^ (group_chars k - chars_for k (length bs)) dvd ?v"
      by (auto simp: group_val_def power_mult intro: dvd_mult)
  qed simp
  moreover have "\<forall>d \<in> set ds. d < 2 ^ k"
    unfolding ds_def group_digits_def using digits_bound by (auto dest!: in_set_takeD)
  moreover have "(unat (0 :: u64) + 1) * (2 ^ k) ^ group_chars k \<le> 2 ^ 64"
    using power_increasing [OF G(2), of "256 :: nat"] by (simp flip: pow)
  ultimately obtain w where g: "decode_group b
        (map ((!) (mb_chars b)) ds @ pad_tail b (group_chars k - length ds) @ rest) 0 0 0 False
      = Some (rest, w, 8 * group_bytes k, k * length ds, length ds < group_chars k)"
    and w: "unat w = ?v"
    using decode_group_digits [OF assms(1), of 0 "group_chars k" 0 ds 0 rest] G q(1-3) assms(4) ne
    by (auto simp: k_def [symmetric] len)
  have e: "emit_bytes w (8 * group_bytes k) (k * length ds) = (bs, k * length ds mod 8)"
    using emit_bytes_digits [of "k * length ds" "group_bytes k" w]
      digits_group_val [OF small, of "group_bytes k"] m q(4)
    by (simp add: len w comp_def)
  show ?thesis
    using g e q(2,5) ne by (subst decode_loop.simps) (simp add: len k_def [symmetric])
qed

lemma decode_loop_encode:
  "alphabet_ok b \<Longrightarrow> decode_loop b (encodeWithoutPrefix b bs) False = Some bs"
proof (induction bs rule: length_induct)
  case (1 bs)
  show ?case
  proof (cases "bs = []")
    case True
    then show ?thesis
      by (subst encodeWithoutPrefix.simps, subst decode_loop.simps) simp
  next
    case False
    define G where "G = group_bytes (bits_per_char b)"
    have "0 < G"
      using "1.prems" group_sizes unfolding alphabet_ok_def group_sizes_ok_def G_def by blast
    with False have ne: "take G bs \<noteq> []" and shorter: "length (drop G bs) < length bs"
      by (auto simp: length_greater_0_conv [symmetric] simp del: length_greater_0_conv)
    have rest: "encodeWithoutPrefix b (drop G bs) = []" if "length (take G bs) < G"
      using that by (subst encodeWithoutPrefix.simps) simp
    then have "decode_loop b (encodeWithoutPrefix b bs) False
        = map_option ((@) (take G bs)) (decode_loop b (encodeWithoutPrefix b (drop G bs)) (length (take G bs) < G))"
      unfolding encode_group [OF "1.prems" False] G_def
      by (intro decode_encoded_group "1.prems") (use ne in \<open>auto simp: G_def\<close>)
    also have "decode_loop b (encodeWithoutPrefix b (drop G bs)) (length (take G bs) < G) = Some (drop G bs)"
    proof (cases "length (take G bs) < G")
      case True
      with rest show ?thesis by (simp add: decode_loop.simps)
    next
      case False
      with "1.IH" shorter "1.prems" show ?thesis by simp
    qed
    finally show ?thesis by simp
  qed
qed

subsection \<open>The bases of the source\<close>

lemmas base_defs = base16_def base16upper_def base32_def base32upper_def
  base64_def base64pad_def base64url_def base64urlpad_def

lemma mb_values_nth:
  assumes "distinct (mb_chars b)" and "i < length (mb_chars b)" and "mb_pad b \<noteq> Some (mb_chars b ! i)"
  shows "mb_values b (mb_chars b ! i) = int i"
proof -
  have "fold (\<lambda>i v. v(mb_chars b ! i := int i)) [0..<n] v0 (mb_chars b ! i)
      = (if i < n then int i else v0 (mb_chars b ! i))"
    if "n \<le> length (mb_chars b)" for n and v0 :: "char \<Rightarrow> int"
    using that assms(1,2) by (induction n) (auto simp: nth_eq_iff_index_eq)
  from this [of "length (mb_chars b)"] assms show ?thesis
    by (auto simp: mb_values_def Let_def split: option.splits)
qed

lemma alphabet_okI:
  assumes "bits_per_char b \<in> {4, 5, 6}" and "length (mb_chars b) = 2 ^ bits_per_char b"
    and "distinct (mb_chars b)" and "case mb_pad b of None \<Rightarrow> True | Some p \<Rightarrow> p \<notin> set (mb_chars b)"
  shows "alphabet_ok b"
  using assms mb_values_nth [OF assms(3)]
  by (auto simp: alphabet_ok_def mb_values_def Let_def split: option.splits)

lemma AllBases_alphabet_ok: "b \<in> set AllBases \<Longrightarrow> alphabet_ok b"
  by (rule alphabet_okI) (auto simp: AllBases_def base_defs)

lemma mb_prefix_bases:
  "mb_prefix base16 = CHR ''f''"
  "mb_prefix base16upper = CHR ''F''"
  "mb_prefix base32 = CHR ''b''"
  "mb_prefix base32upper = CHR ''B''"
  "mb_prefix base64 = CHR ''m''"
  "mb_prefix base64pad = CHR ''M''"
  "mb_prefix base64url = CHR ''u''"
  "mb_prefix base64urlpad = CHR ''U''"
  by (simp_all add: base_defs)

lemma mb_name_bases:
  "mb_name base16 = ''base16''"
  "mb_name base16upper = ''base16upper''"
  "mb_name base32 = ''base32''"
  "mb_name base32upper = ''base32upper''"
  "mb_name base64 = ''base64''"
  "mb_name base64pad = ''base64pad''"
  "mb_name base64url = ''base64url''"
  "mb_name base64urlpad = ''base64urlpad''"
  by (simp_all add: base_defs)

lemma AllBases_find_prefix: "b \<in> set AllBases \<Longrightarrow> find (\<lambda>b'. mb_prefix b = mb_prefix b') AllBases = Some b"
  by (auto simp: AllBases_def mb_prefix_bases)

lemma AllBases_find_name: "b \<in> set AllBases \<Longrightarrow> find (\<lambda>b'. mb_name b = mb_name b') AllBases = Some b"
  by (auto simp: AllBases_def mb_name_bases)

lemma decodeWithoutPrefix_encode:
  "b \<in> set AllBases \<Longrightarrow> decodeWithoutPrefix b (encodeWithoutPrefix b bs) = Some bs"
  by (simp add: decodeWithoutPrefix_def decode_loop_encode AllBases_alphabet_ok)

interpretation mb: codec "mb_encode b" mb_decode "\<lambda>_. b \<in> set AllBases" for b
proof unfold_locales
  fix bs
  assume b: "b \<in> set AllBases"
  then show "mb_decode (mb_encode b bs) = Some bs"
    by (simp add: mb_decode_def mb_encode_def AllBases_find_prefix decodeWithoutPrefix_encode)
qed

text \<open>
  C15: in each of the eight bases, \<^verbatim>\<open>Multibase::decode\<close> applied to the text that
  \<^verbatim>\<open>Multibase::encode\<close> writes gives the encoded bytes back, for every byte sequence.
\<close>

theorem mb_decode_encode: "b \<in> set AllBases \<Longrightarrow> mb_decode (mb_encode b bs) = Some bs"
  by (rule mb.dec_enc)

theorem mb_decode_encode_witness:
  "base64pad \<in> set AllBases \<and> mb_encode base64pad [1, 85, 0, 0] = ''MAVUAAA==''
     \<and> mb_decode ''MAVUAAA=='' = Some [1, 85, 0, 0]"
proof -
  have mem: "base64pad \<in> set AllBases" by (simp add: AllBases_def)
  have enc: "mb_encode base64pad [1, 85, 0, 0] = ''MAVUAAA==''" by code_simp
  from mb_decode_encode [OF mem, of "[1, 85, 0, 0]"] mem enc show ?thesis by simp
qed

text \<open>The characters an encoder writes, for the formats that embed its text.\<close>

lemma set_encodeWithoutPrefix:
  assumes "alphabet_ok b"
  shows "set (encodeWithoutPrefix b bs) \<subseteq> set (mb_chars b) \<union> set_option (mb_pad b)"
proof (induction bs rule: length_induct)
  case (1 bs)
  show ?case
  proof (cases "bs = []")
    case True
    then show ?thesis by (subst encodeWithoutPrefix.simps) simp
  next
    case False
    define k where "k = bits_per_char b"
    have "0 < group_bytes k" and len: "length (mb_chars b) = 2 ^ k"
      using assms group_sizes unfolding alphabet_ok_def group_sizes_ok_def k_def by blast+
    with False have "length (drop (group_bytes k) bs) < length bs"
      by (cases bs) auto
    with 1 have IH: "set (encodeWithoutPrefix b (drop (group_bytes k) bs)) \<subseteq> set (mb_chars b) \<union> set_option (mb_pad b)"
      by blast
    have "d < length (mb_chars b)" if "d \<in> set (group_digits k (take (group_bytes k) bs))" for d
      unfolding len
      by (rule digits_bound) (use that in \<open>auto simp: group_digits_def dest: in_set_takeD\<close>)
    then have "set (map ((!) (mb_chars b)) (group_digits k (take (group_bytes k) bs))) \<subseteq> set (mb_chars b)"
      by auto
    moreover have "set (pad_tail b n) \<subseteq> set_option (mb_pad b)" for n
      by (auto simp: pad_tail_def split: option.splits)
    ultimately show ?thesis
      unfolding encode_group [OF assms False] k_def [symmetric] using IH by fastforce
  qed
qed

subsection \<open>Decoded bytes are no longer than the text\<close>

lemma decode_char_bits:
  "decode_char b str v vb ps = Some (str', v', vb', ps') \<Longrightarrow>
   vb' + bits_per_char b * length str' \<le> vb + bits_per_char b * length str"
  by (auto simp: decode_char_def Let_def split: list.splits if_splits)

lemma decode_group_bits:
  "decode_group b str v i vb ps = Some (str', v', nb, vb', ps') \<Longrightarrow>
   vb' + bits_per_char b * length str' \<le> vb + bits_per_char b * length str"
proof (induction b str v i vb ps rule: decode_group.induct)
  case (1 b str v i vb ps)
  then obtain s2 v2 vb2 ps2 where step: "decode_char b str v vb ps = Some (s2, v2, vb2, ps2)"
    by (subst (asm) (2) decode_group.simps) (auto split: option.splits)
  note le = decode_char_bits [OF step]
  show ?case
  proof (cases "bits_per_char b * Suc i mod 8 \<noteq> 0")
    case True
    then have "decode_group b s2 v2 (Suc i) vb2 ps2 = Some (str', v', nb, vb', ps')"
      using "1.prems" step by (subst (asm) decode_group.simps) simp
    from "1.IH" [OF step refl refl refl True this] le show ?thesis by simp
  next
    case False
    with "1.prems" step le show ?thesis by (subst (asm) decode_group.simps) simp
  qed
qed

lemma emit_bytes_bits: "8 * length (fst (emit_bytes v nb vb)) \<le> vb"
proof (induction v nb vb rule: emit_bytes.induct)
  case (1 v nb vb)
  then show ?case
    by (subst emit_bytes.simps) (auto simp: Let_def split: prod.splits)
qed

lemma decode_loop_bits:
  "decode_loop b str ps = Some bs \<Longrightarrow> 8 * length bs \<le> bits_per_char b * length str"
proof (induction b str ps arbitrary: bs rule: decode_loop.induct)
  case (1 b str ps)
  show ?case
  proof (cases "str = []")
    case True
    with "1.prems" show ?thesis by (subst (asm) decode_loop.simps) simp
  next
    case False
    from "1.prems" False obtain s2 v2 nb vb ps2 out left bs2 where
      g: "decode_group b str 0 0 0 ps = Some (s2, v2, nb, vb, ps2)"
      and e: "emit_bytes v2 nb vb = (out, left)" and l: "\<not> left \<ge> bits_per_char b"
      and r: "decode_loop b s2 ps2 = Some bs2" "bs = out @ bs2"
      by (subst (asm) decode_loop.simps) (auto simp: Let_def split: option.splits prod.splits if_splits)
    have "8 * length bs2 \<le> bits_per_char b * length s2"
      by (rule "1.IH" [OF False g refl refl refl refl e [symmetric] refl l r(1)])
    with decode_group_bits [OF g] emit_bytes_bits [of v2 nb vb] e r(2) show ?thesis by simp
  qed
qed

lemma decodeWithoutPrefix_length:
  assumes "decodeWithoutPrefix b str = Some bs" and "bits_per_char b \<le> 8"
  shows "length bs \<le> length str"
proof -
  have "8 * length bs \<le> bits_per_char b * length str"
    using assms(1) decode_loop_bits by (simp add: decodeWithoutPrefix_def)
  also have "\<dots> \<le> 8 * length str" using assms(2) by simp
  finally show ?thesis by simp
qed

end
