(* ===== verification/CID.thy ===== *)
theory CID
  imports Multibase "HOL-Library.List_Lexorder"
begin

section \<open>CID: content identifiers\<close>

text \<open>
  \<^verbatim>\<open>memodb/lib/CID.cpp\<close> and \<^verbatim>\<open>CID.h\<close>. A \<open>cid\<close> record has the private fields of class
  \<^verbatim>\<open>CID\<close>; \<open>cid_Bytes\<close> is the whole encoded identifier. \<^verbatim>\<open>enum class Multicodec\<close> has an
  underlying \<^verbatim>\<open>int\<close>, so a codec is a 32-bit word and the cast back to 64 bits extends its
  sign. \<open>blake2b\<close> stands for libsodium's \<^verbatim>\<open>crypto_generichash_blake2b\<close> with a 32-byte
  output, and the command-line option \<^verbatim>\<open>-cid-base\<close> is an argument of \<open>asString\<close>.

  The lemmas show that the decoder reads exactly the canonical encodings: it gives back
  every well-formed identifier followed by any bytes, and whatever it accepts is the
  encoding of the identifier it returns, after at most one \<^verbatim>\<open>0x00\<close> prefix byte. Hence
  identifiers are prefix-free, and equality of \<^verbatim>\<open>Bytes\<close>, which \<^verbatim>\<open>operator==\<close> compares, is
  equality.
\<close>

type_synonym Multicodec = u32

abbreviation CIDv1 :: Multicodec where "CIDv1 \<equiv> 0x01"
abbreviation Raw :: Multicodec where "Raw \<equiv> 0x55"
abbreviation DAG_CBOR :: Multicodec where "DAG_CBOR \<equiv> 0x71"
abbreviation DAG_CBOR_Unrestricted :: Multicodec where "DAG_CBOR_Unrestricted \<equiv> 0x0171"
abbreviation Identity :: Multicodec where "Identity \<equiv> 0x00"
abbreviation Blake2b_256 :: Multicodec where "Blake2b_256 \<equiv> 0xb220"

record cid =
  ContentType :: Multicodec
  HashType :: Multicodec
  HashSize :: nat
  cid_Bytes :: bytes

function writeVarInt :: "u64 \<Rightarrow> bytes" where
  "writeVarInt Value =
     (if Value \<ge> 0x80 then (ucast (Value AND 0x7f) OR 0x80) # writeVarInt (drop_bit 7 Value)
      else [ucast Value])"
  by pat_completeness auto
termination
proof (relation "measure unat")
  fix Value :: u64
  assume "Value \<ge> 0x80"
  then have "0 < unat Value" by (simp add: word_le_nat_alt)
  then show "(drop_bit 7 Value, Value) \<in> measure unat"
    by (simp add: drop_bit_eq_div unat_div)
qed simp

declare writeVarInt.simps [simp del]

definition isIdentity :: "cid \<Rightarrow> bool" where
  "isIdentity c \<longleftrightarrow> HashType c = Identity"

definition take_back :: "nat \<Rightarrow> 'a list \<Rightarrow> 'a list" where
  "take_back n xs = drop (length xs - n) xs"

definition getHashBytes :: "cid \<Rightarrow> bytes" where
  "getHashBytes c = take_back (HashSize c) (cid_Bytes c)"

definition make_cid :: "Multicodec \<Rightarrow> Multicodec \<Rightarrow> bytes \<Rightarrow> cid" where
  "make_cid ct ht hash =
     \<lparr>ContentType = ct, HashType = ht, HashSize = length hash,
      cid_Bytes = writeVarInt (scast CIDv1) @ writeVarInt (scast ct) @ writeVarInt (scast ht)
        @ writeVarInt (of_nat (length hash)) @ hash\<rparr>"

definition default_hash :: "bytes \<Rightarrow> Multicodec" where
  "default_hash Content = (if length Content \<le> 32 + 2 then Identity else Blake2b_256)"

text \<open>
  For any other hash type the code has a failing assertion and then, where assertions are
  compiled out, falls back to the default; the definition is the latter. No caller in the
  program passes such a type.
\<close>

definition calculate :: "(bytes \<Rightarrow> bytes) \<Rightarrow> Multicodec \<Rightarrow> bytes \<Rightarrow> Multicodec option \<Rightarrow> cid" where
  "calculate blake2b ct Content ht =
     (let ht = (case ht of None \<Rightarrow> default_hash Content | Some h \<Rightarrow> h);
          ht = (if ht = Identity \<or> ht = Blake2b_256 then ht else default_hash Content)
      in make_cid ct ht (if ht = Identity then Content else blake2b Content))"

function loadVarInt_loop :: "u64 \<Rightarrow> nat \<Rightarrow> bytes \<Rightarrow> (u64 \<times> bytes) option" where
  "loadVarInt_loop Result Shift bs =
     (if Shift \<ge> 64 - 7 then None
      else case bs of
        [] \<Rightarrow> None
      | Byte # bs \<Rightarrow>
          (let Result = Result OR push_bit Shift (ucast (Byte AND 0x7f))
           in if Byte AND 0x80 = 0
              then (if Byte = 0 \<and> Shift \<noteq> 0 then None else Some (Result, bs))
              else loadVarInt_loop Result (Shift + 7) bs))"
  by pat_completeness auto
termination
  by (relation "measure (\<lambda>(Result, Shift, bs). length bs)") auto

declare loadVarInt_loop.simps [simp del]

definition loadVarIntFromSequence :: "bytes \<Rightarrow> (u64 \<times> bytes) option" where
  "loadVarIntFromSequence bs = loadVarInt_loop 0 0 bs"

definition loadMulticodecFromSequence :: "bytes \<Rightarrow> (Multicodec \<times> bytes) option" where
  "loadMulticodecFromSequence bs =
     (case loadVarIntFromSequence bs of
        None \<Rightarrow> None
      | Some (raw, bs) \<Rightarrow>
          (let Result = ucast raw :: u32 in if scast Result \<noteq> raw then None else Some (Result, bs)))"

definition hash_supported :: "Multicodec \<Rightarrow> u64 \<Rightarrow> bool" where
  "hash_supported ht sz \<longleftrightarrow> (if ht = Identity then True else if ht = Blake2b_256 then sz = 32 else False)"

definition content_supported :: "Multicodec \<Rightarrow> bool" where
  "content_supported ct \<longleftrightarrow> \<not> (ct \<noteq> Raw \<and> ct \<noteq> DAG_CBOR \<and> ct \<noteq> DAG_CBOR_Unrestricted)"

definition cid_loadFromSequence :: "bytes \<Rightarrow> (cid \<times> bytes) option" where
  "cid_loadFromSequence bs =
     (let OrigBytes = (case bs of [] \<Rightarrow> bs | b # bs' \<Rightarrow> if b = 0 then bs' else bs) in
      case loadMulticodecFromSequence OrigBytes of
        None \<Rightarrow> None
      | Some (version, bs) \<Rightarrow>
          if version \<noteq> CIDv1 then None
          else case loadMulticodecFromSequence bs of
            None \<Rightarrow> None
          | Some (ct, bs) \<Rightarrow>
              (case loadMulticodecFromSequence bs of
                 None \<Rightarrow> None
               | Some (ht, bs) \<Rightarrow>
                   (case loadVarIntFromSequence bs of
                      None \<Rightarrow> None
                    | Some (sz, bs) \<Rightarrow>
                        if length bs < unat sz then None
                        else if \<not> content_supported ct then None
                        else if \<not> hash_supported ht sz then None
                        else (let bs = drop (unat sz) bs
                              in Some (\<lparr>ContentType = ct, HashType = ht, HashSize = unat sz,
                                   cid_Bytes = take (length OrigBytes - length bs) OrigBytes\<rparr>, bs)))))"

definition cid_fromBytes :: "bytes \<Rightarrow> cid option" where
  "cid_fromBytes bs =
     (case cid_loadFromSequence bs of
        None \<Rightarrow> None
      | Some (c, rest) \<Rightarrow> if rest \<noteq> [] then None else Some c)"

definition cid_parse :: "string \<Rightarrow> cid option" where
  "cid_parse Text = (case mb_decode Text of None \<Rightarrow> None | Some bs \<Rightarrow> cid_fromBytes bs)"

definition asString :: "multibase \<Rightarrow> cid \<Rightarrow> string" where
  "asString Base c = mb_encode Base (cid_Bytes c)"

definition asString_default :: "string \<Rightarrow> cid \<Rightarrow> string" where
  "asString_default MultibaseOption c =
     (case findByName MultibaseOption of
        Some Base \<Rightarrow> asString Base c
      | None \<Rightarrow> asString base64url c)"

definition cid_less :: "cid \<Rightarrow> cid \<Rightarrow> bool" where
  "cid_less c d \<longleftrightarrow> cid_Bytes c < cid_Bytes d"

definition cid_eq :: "cid \<Rightarrow> cid \<Rightarrow> bool" where
  "cid_eq c d \<longleftrightarrow> cid_Bytes c = cid_Bytes d"

subsection \<open>Variable-length integers\<close>

lemma writeVarInt_small: "v < 0x80 \<Longrightarrow> writeVarInt v = [ucast v]"
  by (subst writeVarInt.simps) (auto dest: leD)

lemma writeVarInt_large:
  "v \<ge> 0x80 \<Longrightarrow> writeVarInt v = (ucast (v AND 0x7f) OR 0x80) # writeVarInt (drop_bit 7 v)"
  by (subst writeVarInt.simps) simp

lemma writeVarInt_nonempty [simp]: "writeVarInt v \<noteq> []"
  by (subst writeVarInt.simps) simp

lemma mask7: "(0x7f :: 'a::len word) = mask 7"
  by (simp add: mask_eq_exp_minus_1)

lemma high_bit: "(x :: u8) AND 0x80 = 0 \<longleftrightarrow> \<not> bit x 7"
  using and_exp_eq_0_iff_not_bit [of x 7] by simp

lemma bit_0x80: "bit (0x80 :: 'a::len word) i \<longleftrightarrow> i = 7 \<and> 7 < LENGTH('a)"
  using bit_exp_iff [of 7 i, where 'a = "'a word"] by (auto simp: possible_bit_def)

lemma more_byte:
  fixes v :: u64
  defines "byte \<equiv> ucast (v AND 0x7f) OR 0x80 :: u8"
  shows "byte AND 0x80 \<noteq> 0" and "(ucast (byte AND 0x7f) :: u64) = take_bit 7 v"
proof -
  have bits: "bit byte n \<longleftrightarrow> n < 7 \<and> bit v n \<or> n = 7" for n
    unfolding byte_def mask7 bit_or_iff bit_0x80 by (auto simp: bit_simps)
  show "byte AND 0x80 \<noteq> 0"
    unfolding high_bit by (simp add: bits)
  show "(ucast (byte AND 0x7f) :: u64) = take_bit 7 v"
    unfolding mask7 by (rule bit_eqI) (auto simp: bit_simps bits)
qed

lemma last_byte:
  fixes v :: u64
  assumes "v < 0x80"
  shows "(ucast v :: u8) AND 0x80 = 0" and "(ucast ((ucast v :: u8) AND 0x7f) :: u64) = v"
    and "(ucast v :: u8) = 0 \<longleftrightarrow> v = 0"
proof -
  have "unat v < 2 ^ 7" using assms by (simp add: word_less_nat_alt)
  then have "take_bit 7 v = v"
    by (simp add: word_unat_eq_iff unsigned_take_bit_eq take_bit_nat_eq_self)
  then have bits: "bit v i \<Longrightarrow> i < 7" for i
    by (metis bit_take_bit_iff)
  show "(ucast v :: u8) AND 0x80 = 0"
    unfolding high_bit using bits [of 7] by (auto simp: bit_simps)
  show *: "(ucast ((ucast v :: u8) AND 0x7f) :: u64) = v"
    unfolding mask7 by (rule bit_eqI) (auto simp: bit_simps dest: bits)
  show "(ucast v :: u8) = 0 \<longleftrightarrow> v = 0"
    using * by auto
qed

lemma low_high_7:
  "push_bit k (take_bit 7 v) OR push_bit (k + 7) (drop_bit 7 v) = push_bit k (v :: u64)"
proof (rule bit_eqI)
  fix n
  show "bit (push_bit k (take_bit 7 v) OR push_bit (k + 7) (drop_bit 7 v)) n \<longleftrightarrow> bit (push_bit k v) n"
  proof (cases "k + 7 \<le> n")
    case True
    then obtain m where "n = k + 7 + m" using le_Suc_ex by blast
    then show ?thesis by (auto simp: bit_simps)
  qed (auto simp: bit_simps)
qed

lemma loadVarInt_loop_writeVarInt:
  "unat v * 2 ^ Shift < 2 ^ 63 \<Longrightarrow> 7 dvd Shift \<Longrightarrow> v \<noteq> 0 \<or> Shift = 0 \<Longrightarrow>
   loadVarInt_loop r Shift (writeVarInt v @ rest) = Some (r OR push_bit Shift v, rest)"
proof (induction v arbitrary: r Shift rule: writeVarInt.induct)
  case (1 v)
  have room: "Shift < 57"
  proof (cases "v = 0")
    case False
    then have "1 \<le> unat v" by (simp add: Suc_le_eq unat_gt_0)
    then have "1 * 2 ^ Shift \<le> unat v * 2 ^ Shift" by (rule mult_le_mono1)
    also note "1.prems"(1)
    finally have "(2 :: nat) ^ Shift < 2 ^ 63" by simp
    then have "Shift < 63" by (rule power_less_imp_less_exp [rotated]) simp
    with "1.prems"(2) show ?thesis by presburger
  qed (use "1.prems"(3) in simp)
  show ?case
  proof (cases "v \<ge> 0x80")
    case True
    have "0x80 \<le> unat v" using True by (simp add: word_le_nat_alt)
    then have "drop_bit 7 v \<noteq> 0"
      by (simp add: word_unat_eq_iff drop_bit_eq_div unat_div)
    moreover have "unat (drop_bit 7 v) * 2 ^ (Shift + 7) \<le> unat v * 2 ^ Shift"
    proof -
      have "unat (drop_bit 7 v) * 2 ^ (Shift + 7) = (unat v div 128 * 128) * 2 ^ Shift"
        by (simp add: drop_bit_eq_div unat_div power_add)
      also have "\<dots> \<le> unat v * 2 ^ Shift" by (rule mult_le_mono1) simp
      finally show ?thesis .
    qed
    ultimately have IH: "loadVarInt_loop r' (Shift + 7) (writeVarInt (drop_bit 7 v) @ rest)
        = Some (r' OR push_bit (Shift + 7) (drop_bit 7 v), rest)" for r'
      using "1.prems"(1,2) by (intro "1.IH" [OF True]) auto
    have "\<not> 64 - 7 \<le> Shift" using room by simp
    with more_byte [of v] show ?thesis
      unfolding writeVarInt_large [OF True] append_Cons
      by (subst loadVarInt_loop.simps) (simp only: IH Let_def list.case if_False or.assoc low_high_7)
  next
    case False
    then have small: "v < 0x80" by simp
    then show ?thesis
      using room "1.prems"(3) last_byte [OF small]
      by (subst loadVarInt_loop.simps) (simp add: writeVarInt_small)
  qed
qed

lemma loadVarInt_writeVarInt:
  "unat v < 2 ^ 63 \<Longrightarrow> loadVarIntFromSequence (writeVarInt v @ rest) = Some (v, rest)"
  using loadVarInt_loop_writeVarInt [of v 0 0 rest] by (simp add: loadVarIntFromSequence_def)

text \<open>Whatever the reader accepts is what the writer writes.\<close>

lemma varint_cons:
  fixes u :: u64 and Byte :: u8
  assumes "Byte AND 0x80 \<noteq> 0" and "u \<noteq> 0" and "unat u * 2 ^ (Shift + 7) < 2 ^ 63" and "Shift < 57"
  defines "v \<equiv> push_bit 7 u OR ucast (Byte AND 0x7f)"
  shows "writeVarInt v = Byte # writeVarInt u" and "unat v * 2 ^ Shift < 2 ^ 63" and "v \<noteq> 0"
proof -
  let ?low = "ucast (Byte AND 0x7f) :: u64"
  have low: "unat ?low < 128"
  proof -
    have "?low = take_bit 7 (ucast Byte)"
      unfolding mask7 by (rule bit_eqI) (auto simp: bit_simps)
    then show ?thesis by (simp add: unsigned_take_bit_eq take_bit_nat_less_exp [where n = 7, simplified])
  qed
  have "Shift + 7 \<le> 63" using assms(4) by simp
  then have "unat u * 2 ^ (Shift + 7) < 2 ^ (63 - (Shift + 7)) * 2 ^ (Shift + 7)"
    using assms(3) by (simp flip: power_add)
  then have "unat u + 1 \<le> 2 ^ (63 - (Shift + 7))" by simp
  then have "(unat u + 1) * 2 ^ (Shift + 7) \<le> 2 ^ (63 - (Shift + 7)) * 2 ^ (Shift + 7)"
    by (rule mult_le_mono1)
  also have "\<dots> = 2 ^ 63" using \<open>Shift + 7 \<le> 63\<close> by (simp flip: power_add)
  finally have room: "(unat u + 1) * 128 * 2 ^ Shift \<le> 2 ^ 63" by (simp add: power_add algebra_simps)
  have "unat u * 128 * 1 \<le> unat u * 128 * 2 ^ Shift" by (rule mult_le_mono2) simp
  also have "\<dots> < 2 ^ 64" using room by (simp add: algebra_simps)
  finally have v: "unat v = unat u * 128 + unat ?low"
    unfolding v_def using unat_push_bit_or [of u 7 ?low] low by simp
  have "unat v * 2 ^ Shift < (unat u + 1) * 128 * 2 ^ Shift"
    by (rule mult_strict_right_mono) (use v low in simp_all)
  from this room show "unat v * 2 ^ Shift < 2 ^ 63" by (rule less_le_trans)
  have "1 \<le> unat u" using assms(2) by (simp add: Suc_le_eq unat_gt_0)
  then have "128 \<le> unat v" using v by simp
  then have large: "v \<ge> 0x80" by (simp add: word_le_nat_alt)
  then show "v \<noteq> 0" by auto
  have "drop_bit 7 v = u"
    using v low by (simp add: word_unat_eq_iff drop_bit_eq_div unat_div)
  moreover have "(ucast (v AND 0x7f) OR 0x80 :: u8) = Byte"
  proof (rule bit_eqI)
    fix n
    assume "possible_bit TYPE(u8) n"
    then have "n < 8" by simp
    then have "n = 7 \<or> n < 7" by linarith
    moreover have "bit Byte 7" using assms(1) by (simp add: high_bit)
    ultimately show "bit (ucast (v AND 0x7f) OR 0x80 :: u8) n \<longleftrightarrow> bit Byte n"
      unfolding v_def mask7 bit_or_iff bit_0x80 by (auto simp: bit_simps)
  qed
  ultimately show "writeVarInt v = Byte # writeVarInt u"
    unfolding writeVarInt_large [OF large] by simp
qed

lemma varint_one:
  fixes Byte :: u8
  assumes "Byte AND 0x80 = 0"
  shows "writeVarInt (ucast (Byte AND 0x7f)) = [Byte]" and "unat (ucast (Byte AND 0x7f) :: u64) < 128"
    and "(ucast (Byte AND 0x7f) :: u64) = 0 \<longleftrightarrow> Byte = 0"
proof -
  have "Byte AND 0x7f = Byte"
  proof (rule bit_eqI)
    fix n
    assume "possible_bit TYPE(u8) n"
    then have "n = 7 \<or> n < 7" by auto
    then show "bit (Byte AND 0x7f) n \<longleftrightarrow> bit Byte n"
      using assms unfolding high_bit mask7 by (auto simp: bit_simps)
  qed
  then have eq: "ucast (Byte AND 0x7f) = (ucast Byte :: u64)" and m: "take_bit 7 Byte = Byte"
    by (simp_all add: take_bit_eq_mask mask7)
  have "unat (take_bit 7 Byte) < 2 ^ 7" unfolding unsigned_take_bit_eq by (rule take_bit_nat_less_exp)
  then have "unat Byte < 128" using m by simp
  then show small: "unat (ucast (Byte AND 0x7f) :: u64) < 128"
    unfolding eq by (simp add: unat_ucast_u8)
  then have "(ucast (Byte AND 0x7f) :: u64) < 0x80" by (simp add: word_less_nat_alt)
  moreover have "ucast (ucast Byte :: u64) = Byte"
    by (rule bit_eqI) (simp add: bit_simps)
  ultimately show "writeVarInt (ucast (Byte AND 0x7f)) = [Byte]"
    by (simp add: writeVarInt_small eq)
  show "(ucast (Byte AND 0x7f) :: u64) = 0 \<longleftrightarrow> Byte = 0"
    unfolding eq word_unat_eq_iff unat_ucast_u8 by simp
qed

lemma loadVarInt_loop_canonical:
  "loadVarInt_loop r Shift bs = Some (w, rest) \<Longrightarrow>
   \<exists>v. w = r OR push_bit Shift v \<and> bs = writeVarInt v @ rest \<and> (Shift \<noteq> 0 \<longrightarrow> v \<noteq> 0)
     \<and> unat v * 2 ^ Shift < 2 ^ 63"
proof (induction r Shift bs rule: loadVarInt_loop.induct)
  case (1 r Shift bs)
  from "1.prems" obtain Byte bs' where bs: "bs = Byte # bs'" and room: "Shift < 57"
    by (subst (asm) loadVarInt_loop.simps) (auto split: if_splits list.splits)
  let ?low = "ucast (Byte AND 0x7f) :: u64"
  let ?r = "r OR push_bit Shift ?low"
  show ?case
  proof (cases "Byte AND 0x80 = 0")
    case True
    with "1.prems" room have w: "w = ?r" "rest = bs'" "\<not> (Byte = 0 \<and> Shift \<noteq> 0)"
      unfolding bs by (subst (asm) loadVarInt_loop.simps, simp add: Let_def split: if_splits)+
    have "unat ?low * 2 ^ Shift < 128 * 2 ^ Shift"
      using varint_one(2) [OF True] by simp
    also have "\<dots> = 2 ^ (7 + Shift)" by (simp add: power_add)
    also have "\<dots> \<le> 2 ^ 63" using room by (intro power_increasing) auto
    finally show ?thesis
      using w varint_one [OF True] bs by (intro exI [of _ ?low]) auto
  next
    case False
    with "1.prems" room have "loadVarInt_loop ?r (Shift + 7) bs' = Some (w, rest)"
      unfolding bs by (subst (asm) loadVarInt_loop.simps) (simp add: Let_def)
    with "1.IH" room bs False obtain u where u: "w = ?r OR push_bit (Shift + 7) u"
        "bs' = writeVarInt u @ rest" "u \<noteq> 0" "unat u * 2 ^ (Shift + 7) < 2 ^ 63"
      by auto
    let ?v = "push_bit 7 u OR ?low"
    have "w = r OR push_bit Shift ?v"
      unfolding u(1) push_bit_or push_bit_push_bit by (simp only: or.assoc or.commute or.left_commute)
    moreover note varint_cons [OF False u(3,4) room]
    ultimately show ?thesis
      using u(2) bs by (intro exI [of _ ?v]) simp
  qed
qed

lemma loadVarInt_iff:
  "loadVarIntFromSequence bs = Some (v, rest) \<longleftrightarrow> bs = writeVarInt v @ rest \<and> unat v < 2 ^ 63"
proof
  assume "loadVarIntFromSequence bs = Some (v, rest)"
  then show "bs = writeVarInt v @ rest \<and> unat v < 2 ^ 63"
    using loadVarInt_loop_canonical [of 0 0 bs v rest] by (auto simp: loadVarIntFromSequence_def)
qed (auto simp: loadVarInt_writeVarInt)

interpretation varint: seq_codec writeVarInt loadVarIntFromSequence "\<lambda>v. unat v < 2 ^ 63"
  by unfold_locales (simp_all add: loadVarInt_writeVarInt)

text \<open>A codec survives the round trip through 64 bits when its value is not negative.\<close>

lemma loadMulticodec_iff:
  "loadMulticodecFromSequence bs = Some (m, rest) \<longleftrightarrow>
     bs = writeVarInt (scast m) @ rest \<and> unat (scast m :: u64) < 2 ^ 63"
proof -
  have cast: "ucast (scast m :: u64) = m"
    by (rule bit_eqI) (auto simp: bit_simps)
  have reads: "loadMulticodecFromSequence (writeVarInt (scast m) @ rest) = Some (m, rest)"
    if "unat (scast m :: u64) < 2 ^ 63"
    using that cast by (simp add: loadMulticodecFromSequence_def loadVarInt_writeVarInt)
  show ?thesis
  proof
    assume "loadMulticodecFromSequence bs = Some (m, rest)"
    then have "loadVarIntFromSequence bs = Some (scast m, rest)"
      unfolding loadMulticodecFromSequence_def
      by (auto simp: Let_def split: option.splits prod.splits if_splits)
    then show "bs = writeVarInt (scast m) @ rest \<and> unat (scast m :: u64) < 2 ^ 63"
      by (simp add: loadVarInt_iff)
  qed (use reads in blast)
qed

subsection \<open>Well-formed identifiers\<close>

definition wf_cid :: "cid \<Rightarrow> bool" where
  "wf_cid c \<longleftrightarrow>
     content_supported (ContentType c) \<and> hash_supported (HashType c) (of_nat (HashSize c))
     \<and> HashSize c < 2 ^ 63 \<and> HashSize c \<le> length (cid_Bytes c)
     \<and> c = make_cid (ContentType c) (HashType c) (getHashBytes c)"

lemma take_back_append [simp]: "take_back (length ys) (xs @ ys) = ys"
  by (simp add: take_back_def)

lemma length_take_back [simp]: "n \<le> length xs \<Longrightarrow> length (take_back n xs) = n"
  by (simp add: take_back_def)

lemma make_cid_fields [simp]:
  "ContentType (make_cid ct ht hash) = ct" "HashType (make_cid ct ht hash) = ht"
  "HashSize (make_cid ct ht hash) = length hash" "getHashBytes (make_cid ct ht hash) = hash"
  by (simp_all add: make_cid_def getHashBytes_def flip: append_assoc)

lemma make_cid_Bytes:
  "cid_Bytes (make_cid ct ht hash)
     = 1 # writeVarInt (scast ct) @ writeVarInt (scast ht) @ writeVarInt (of_nat (length hash)) @ hash"
  by (simp add: make_cid_def writeVarInt_small)

lemma wf_make_cid:
  "wf_cid (make_cid ct ht hash) \<longleftrightarrow>
     content_supported ct \<and> hash_supported ht (of_nat (length hash)) \<and> length hash < 2 ^ 63"
  unfolding wf_cid_def by (simp add: make_cid_Bytes)

lemma wf_cid_exhaust:
  assumes "wf_cid c"
  obtains ct ht hash where "c = make_cid ct ht hash" "content_supported ct"
    "hash_supported ht (of_nat (length hash))" "length hash < 2 ^ 63"
  using assms that unfolding wf_cid_def by (metis make_cid_fields(3))

lemma supported_codecs:
  "content_supported ct \<Longrightarrow> unat (scast ct :: u64) < 2 ^ 63"
  "hash_supported ht sz \<Longrightarrow> unat (scast ht :: u64) < 2 ^ 63"
  by (auto simp: content_supported_def hash_supported_def split: if_splits)

lemma cid_load_make_cid:
  assumes "content_supported ct" and "hash_supported ht (of_nat (length hash))"
    and "length hash < 2 ^ 63"
  shows "cid_loadFromSequence (cid_Bytes (make_cid ct ht hash) @ rest)
       = Some (make_cid ct ht hash, rest)"
proof -
  have n: "unat (of_nat (length hash) :: u64) = length hash"
    using assms(3) by (simp add: unat_of_nat)
  have load: "loadMulticodecFromSequence (writeVarInt (scast m) @ xs) = Some (m, xs)"
    if "unat (scast m :: u64) < 2 ^ 63" for m xs
    using that by (simp add: loadMulticodec_iff)
  have v: "loadMulticodecFromSequence (1 # xs) = Some (CIDv1, xs)" for xs
    using load [of CIDv1 xs] by (simp add: writeVarInt_small)
  note codecs = load [OF supported_codecs(1) [OF assms(1)]] load [OF supported_codecs(2) [OF assms(2)]]
  show ?thesis
    using assms n unfolding cid_loadFromSequence_def make_cid_Bytes
    by (simp add: v codecs loadVarInt_writeVarInt Let_def)
       (simp add: make_cid_def writeVarInt_small)
qed

lemma cid_load_wf: "wf_cid c \<Longrightarrow> cid_loadFromSequence (cid_Bytes c @ rest) = Some (c, rest)"
  by (erule wf_cid_exhaust) (simp add: cid_load_make_cid)

text \<open>Conversely, a successful load has read a well-formed identifier and nothing else.\<close>

lemma cid_load_cases:
  assumes "cid_loadFromSequence bs = Some (c, rest)"
  shows "wf_cid c \<and> (bs = cid_Bytes c @ rest \<or> bs = 0 # cid_Bytes c @ rest)"
proof -
  define orig where "orig = (case bs of [] \<Rightarrow> bs | b # bs' \<Rightarrow> if b = 0 then bs' else bs)"
  have bs: "bs = orig \<or> bs = 0 # orig"
    by (auto simp: orig_def split: list.splits)
  from assms obtain ct b1 ht b2 sz b3 where
      l0: "loadMulticodecFromSequence orig = Some (CIDv1, b1)"
      and l1: "\<exists>b2'. loadMulticodecFromSequence b1 = Some (ct, b2') \<and> loadMulticodecFromSequence b2' = Some (ht, b2)"
      and l2: "loadVarIntFromSequence b2 = Some (sz, b3)"
      and ok: "unat sz \<le> length b3" "content_supported ct" "hash_supported ht sz"
      and c: "c = \<lparr>ContentType = ct, HashType = ht, HashSize = unat sz,
                   cid_Bytes = take (length orig - length rest) orig\<rparr>"
      and rest: "rest = drop (unat sz) b3"
    unfolding cid_loadFromSequence_def orig_def [symmetric] Let_def
    by (auto split: option.splits prod.splits if_splits)
  define hash where "hash = take (unat sz) b3"
  have b3: "b3 = hash @ rest" and n: "length hash = unat sz"
    using ok(1) rest by (simp_all add: hash_def)
  from l0 l1 l2 have "orig = cid_Bytes (make_cid ct ht hash) @ rest" and "unat sz < 2 ^ 63"
    unfolding make_cid_def loadMulticodec_iff loadVarInt_iff b3 n by auto
  moreover from this have "c = make_cid ct ht hash"
    unfolding c using n by (simp add: make_cid_def)
  ultimately show ?thesis
    using bs ok n by (auto simp: wf_make_cid)
qed

interpretation cids: seq_codec cid_Bytes cid_loadFromSequence wf_cid
proof unfold_locales
  fix c and rest :: bytes
  assume "wf_cid c"
  then show "cid_loadFromSequence (cid_Bytes c @ rest) = Some (c, rest)" by (rule cid_load_wf)
next
  fix c
  assume "wf_cid c"
  then show "cid_Bytes c \<noteq> []" by (elim wf_cid_exhaust) (simp add: make_cid_Bytes)
qed

lemma cid_fromBytes_wf: "wf_cid c \<Longrightarrow> cid_fromBytes (cid_Bytes c) = Some c"
  using cid_load_wf [of c "[]"] by (simp add: cid_fromBytes_def)

lemma cid_fromBytes_cases:
  "cid_fromBytes bs = Some c \<Longrightarrow> wf_cid c \<and> (bs = cid_Bytes c \<or> bs = 0 # cid_Bytes c)"
  using cid_load_cases [of bs c "[]"] by (auto simp: cid_fromBytes_def split: option.splits if_splits)

text \<open>
  C6: the CID decoder reads exactly the well-formed identifiers. A sequence of bytes is
  read as identifier \<open>c\<close> and rest \<open>rest\<close> if and only if \<open>c\<close> is well formed and the bytes
  are its encoding, with at most one \<^verbatim>\<open>0x00\<close> prefix byte, followed by \<open>rest\<close>.
\<close>

theorem cid_loadFromSequence_iff:
  "cid_loadFromSequence bs = Some (c, rest) \<longleftrightarrow>
     wf_cid c \<and> (bs = cid_Bytes c @ rest \<or> bs = 0 # cid_Bytes c @ rest)"
proof
  assume "wf_cid c \<and> (bs = cid_Bytes c @ rest \<or> bs = 0 # cid_Bytes c @ rest)"
  moreover have "cid_loadFromSequence (0 # cid_Bytes c @ rest) = cid_loadFromSequence (cid_Bytes c @ rest)"
    if "wf_cid c"
    using that by (elim wf_cid_exhaust) (simp add: cid_loadFromSequence_def make_cid_Bytes)
  ultimately show "cid_loadFromSequence bs = Some (c, rest)"
    by (auto simp: cid_load_wf)
qed (rule cid_load_cases)

text \<open>
  C16: no encoded identifier is a proper prefix of another, so a database key made of
  identifiers written one after the other determines the identifiers; and identifiers
  that \<^verbatim>\<open>operator==\<close> considers equal are equal in every field.
\<close>

theorem cids_prefix_free:
  assumes "wf_cid c" and "wf_cid d"
  shows "(Sublist.prefix (cid_Bytes c) (cid_Bytes d) \<longleftrightarrow> c = d) \<and> (cid_eq c d \<longleftrightarrow> c = d)"
  using cids.prefix_free [OF assms] cids.whole.enc_inject [OF assms] by (auto simp: cid_eq_def)

theorem cids_prefix_free_witness:
  "\<not> Sublist.prefix (cid_Bytes (make_cid Raw Identity [1])) (cid_Bytes (make_cid Raw Identity [1, 2]))
   \<and> \<not> cid_eq (make_cid Raw Identity [1]) (make_cid DAG_CBOR Identity [1])"
proof -
  have "wf_cid (make_cid Raw Identity [1])" "wf_cid (make_cid Raw Identity [1, 2])"
    "wf_cid (make_cid DAG_CBOR Identity [1])"
    by (simp_all add: wf_make_cid content_supported_def hash_supported_def)
  from cids_prefix_free [OF this(1,2)] cids_prefix_free [OF this(1,3)] show ?thesis
    by (simp add: make_cid_def)
qed

text \<open>The identifier computed for some content.\<close>

lemma wf_calculate:
  assumes "content_supported ct" and "length Content < 2 ^ 63" and "\<forall>bs. length (blake2b bs) = 32"
  shows "wf_cid (calculate blake2b ct Content ht)"
  using assms by (auto simp: calculate_def Let_def wf_make_cid hash_supported_def default_hash_def)

lemma length_Bytes_make_cid:
  "length (cid_Bytes (make_cid ct ht hash))
     = 1 + length (writeVarInt (scast ct)) + length (writeVarInt (scast ht))
         + length (writeVarInt (of_nat (length hash))) + length hash"
  by (simp add: make_cid_Bytes)

lemma length_varint_codecs:
  "length (writeVarInt (scast Identity)) = 1" "length (writeVarInt (scast Blake2b_256)) = 3"
  "length (writeVarInt v) \<ge> 1"
  by (code_simp, code_simp) (simp add: Suc_le_eq)

text \<open>
  C20: the default choice of \<^verbatim>\<open>CID::calculate\<close> between an identity identifier and a hash
  gives the shorter encoding (and the identity identifier when both have the same
  length), whatever the content. \<open>blake2b\<close> is only assumed to give 32 bytes.
\<close>

theorem calculate_shortest:
  assumes "\<forall>bs. length (blake2b bs) = 32" and "ht \<in> {Identity, Blake2b_256}"
  shows "length (cid_Bytes (calculate blake2b ct Content None))
           \<le> length (cid_Bytes (calculate blake2b ct Content (Some ht)))
       \<and> (isIdentity (calculate blake2b ct Content None) \<longleftrightarrow> length Content \<le> 34)"
proof (cases "length Content \<le> 34")
  case True
  then have "(of_nat (length Content) :: u64) < 0x80"
    by (simp add: word_less_nat_alt unat_of_nat)
  with True assms show ?thesis
    using length_varint_codecs
    by (auto simp: calculate_def default_hash_def length_Bytes_make_cid writeVarInt_small isIdentity_def)
next
  case False
  with assms show ?thesis
    using length_varint_codecs length_varint_codecs(3) [of "of_nat (length Content)"]
    by (auto simp: calculate_def default_hash_def length_Bytes_make_cid writeVarInt_small isIdentity_def)
qed

theorem calculate_shortest_witness:
  "\<exists>blake2b :: bytes \<Rightarrow> bytes. (\<forall>bs. length (blake2b bs) = 32)
     \<and> length (cid_Bytes (calculate blake2b Raw (replicate 34 7) None))
         \<le> length (cid_Bytes (calculate blake2b Raw (replicate 34 7) (Some Blake2b_256)))"
proof (intro exI conjI)
  let ?h = "\<lambda>bs :: bytes. replicate 32 0 :: bytes"
  show len: "\<forall>bs. length (?h bs) = 32" by simp
  show "length (cid_Bytes (calculate ?h Raw (replicate 34 7) None))
         \<le> length (cid_Bytes (calculate ?h Raw (replicate 34 7) (Some Blake2b_256)))"
    using calculate_shortest [OF len, of Blake2b_256 Raw "replicate 34 7"] by simp
qed

text \<open>
  C21: printing an identifier as text, with the base named on the command line or with
  the default one, and parsing the text gives the identifier back.
\<close>

theorem cid_parse_asString: "wf_cid c \<Longrightarrow> cid_parse (asString_default opt c) = Some c"
proof -
  assume "wf_cid c"
  have "base64url \<in> set AllBases" by (simp add: AllBases_def)
  moreover have "b \<in> set AllBases" if "findByName opt = Some b" for b
    using that by (auto simp: findByName_def find_Some_iff)
  ultimately obtain b where "b \<in> set AllBases" "asString_default opt c = mb_encode b (cid_Bytes c)"
    by (cases "findByName opt") (auto simp: asString_default_def asString_def)
  then show ?thesis
    using \<open>wf_cid c\<close> by (simp add: cid_parse_def mb.dec_enc cid_fromBytes_wf)
qed

theorem cid_parse_asString_witness:
  "cid_parse (asString_default ''base32'' (make_cid Raw Identity [1])) = Some (make_cid Raw Identity [1])
   \<and> asString_default ''base32'' (make_cid Raw Identity [1]) = ''bafkqaaib''"
proof -
  have "wf_cid (make_cid Raw Identity [1])"
    by (simp add: wf_make_cid content_supported_def hash_supported_def)
  from cid_parse_asString [OF this, of "''base32''"]
  have "cid_parse (asString_default ''base32'' (make_cid Raw Identity [1])) = Some (make_cid Raw Identity [1])" .
  moreover have "asString_default ''base32'' (make_cid Raw Identity [1]) = ''bafkqaaib''"
    by code_simp
  ultimately show ?thesis by simp
qed

text \<open>The encoded size, for containers that hold identifiers.\<close>

lemma length_writeVarInt_aux: "unat v < 128 ^ n \<Longrightarrow> length (writeVarInt v) \<le> Suc n"
proof (induction n arbitrary: v)
  case 0
  then have "v = 0" by (simp add: word_unat_eq_iff)
  then show ?case by (simp add: writeVarInt_small)
next
  case (Suc n)
  have "unat (drop_bit 7 v) < 128 ^ n"
    using Suc.prems by (simp add: drop_bit_eq_div unat_div less_mult_imp_div_less mult.commute)
  from Suc.IH [OF this] show ?case
    by (subst writeVarInt.simps) simp
qed

lemma length_writeVarInt: "length (writeVarInt v) \<le> 11"
proof -
  have "unat v < 128 ^ 10" using unat_u64_less [of v] by simp
  from length_writeVarInt_aux [OF this] show ?thesis by simp
qed

lemma wf_cid_length:
  assumes "wf_cid c"
  shows "length (cid_Bytes c) + 1 < 2 ^ 64"
proof -
  from assms obtain ct ht hash where c: "c = make_cid ct ht hash" and "length hash < 2 ^ 63"
    by (rule wf_cid_exhaust)
  then show ?thesis
    using length_writeVarInt [of "scast ct"] length_writeVarInt [of "scast ht"]
      length_writeVarInt [of "of_nat (length hash)"]
    by (simp add: length_Bytes_make_cid)
qed

text \<open>The text of an identifier in the default base is free of the characters that separate names.\<close>

lemma asString_chars: "set (asString base64url c) \<subseteq> insert CHR ''u'' (set (mb_chars base64url))"
proof -
  have "alphabet_ok base64url" by (rule AllBases_alphabet_ok) (simp add: AllBases_def)
  moreover have "mb_pad base64url = None" and p: "mb_prefix base64url = CHR ''u''"
    by (simp_all add: base64url_def)
  ultimately have "set (encodeWithoutPrefix base64url (cid_Bytes c)) \<subseteq> set (mb_chars base64url)"
    using set_encodeWithoutPrefix [of base64url "cid_Bytes c"] by simp
  then show ?thesis unfolding asString_def mb_encode_def p by auto
qed

lemma cid_parse_base64url: "wf_cid c \<Longrightarrow> cid_parse (asString base64url c) = Some c"
  by (simp add: cid_parse_def asString_def mb.dec_enc AllBases_def cid_fromBytes_wf)

end
