(* ===== verification/Float64.thy ===== *)
theory Float64
  imports Memo_Prelude
begin

section \<open>Double-precision numbers and their bits\<close>

text \<open>
  A \<^verbatim>\<open>double\<close> is \<open>NaN\<close>, an infinity or \<open>Finite s m e\<close>, the number \<open>m * 2 ^ e\<close> with the
  sign \<open>s\<close>, in the one form IEEE 754 gives it: either \<open>e = -1074\<close>, or \<open>m\<close> has 53 bits. The
  bits of a NaN are never looked at by the program and are not kept. The functions of
  \<^verbatim>\<open><cmath>\<close> the program uses compute the exact result and round it to the nearest double
  with ties to even (\<open>fl_round\<close>).

  \<open>encodeFloat\<close> is \<^verbatim>\<open>CBOREncoder::encodeFloat\<close> (\<^verbatim>\<open>CBOREncoder.cpp\<close>) and \<open>decode_float\<close> the
  function of that name of \<^verbatim>\<open>Node.cpp\<close>; both take the sizes of the format. The lemmas show
  that the 64-bit format is written exactly and read back.
\<close>

datatype double = NaN | Infinity bool | Finite bool nat int

definition wf_double :: "double \<Rightarrow> bool" where
  "wf_double d =
     (case d of
        Finite s m e \<Rightarrow> m < 2 ^ 53 \<and> (e = -1074 \<or> 2 ^ 52 \<le> m \<and> -1074 < e \<and> e \<le> 971)
      | _ \<Rightarrow> True)"

subsection \<open>Arithmetic\<close>

fun bitlen :: "nat \<Rightarrow> nat" where
  "bitlen n = (if n = 0 then 0 else Suc (bitlen (n div 2)))"

declare bitlen.simps [simp del]

definition shift_right_even :: "nat \<Rightarrow> nat \<Rightarrow> nat" where
  "shift_right_even m k =
     (let q = m div 2 ^ k; r = m mod 2 ^ k; half = 2 ^ (k - 1)
      in if k \<noteq> 0 \<and> (r > half \<or> r = half \<and> odd q) then q + 1 else q)"

definition fl_round :: "bool \<Rightarrow> nat \<Rightarrow> int \<Rightarrow> double" where
  "fl_round s m e =
     (if m = 0 then Finite s 0 (-1074)
      else let q = max (-1074) (e + int (bitlen m) - 53);
               m' = (if q \<le> e then m * 2 ^ nat (e - q) else shift_right_even m (nat (q - e)));
               (m', q) = (if m' = 2 ^ 53 then (2 ^ 52, q + 1) else (m', q))
           in if q > 971 then Infinity s else Finite s m' q)"

fun signbit :: "double \<Rightarrow> bool" where
  "signbit NaN = False"
| "signbit (Infinity s) = s"
| "signbit (Finite s m e) = s"

definition isinf :: "double \<Rightarrow> bool" where
  "isinf d = (case d of Infinity _ \<Rightarrow> True | _ \<Rightarrow> False)"

definition isfinite :: "double \<Rightarrow> bool" where
  "isfinite d = (case d of Finite _ _ _ \<Rightarrow> True | _ \<Rightarrow> False)"

definition is_zero :: "double \<Rightarrow> bool" where
  "is_zero d = (case d of Finite _ m _ \<Rightarrow> m = 0 | _ \<Rightarrow> False)"

fun fl_abs :: "double \<Rightarrow> double" where
  "fl_abs NaN = NaN"
| "fl_abs (Infinity s) = Infinity False"
| "fl_abs (Finite s m e) = Finite False m e"

fun fl_neg :: "double \<Rightarrow> double" where
  "fl_neg NaN = NaN"
| "fl_neg (Infinity s) = Infinity (\<not> s)"
| "fl_neg (Finite s m e) = Finite (\<not> s) m e"

fun frexp :: "double \<Rightarrow> double \<times> int" where
  "frexp (Finite s m e) =
     (if m = 0 then (Finite s m e, 0)
      else (Finite s (m * 2 ^ (53 - bitlen m)) (-53), e + int (bitlen m)))"
| "frexp d = (d, 0)"

fun ldexp :: "double \<Rightarrow> int \<Rightarrow> double" where
  "ldexp (Finite s m e) n = fl_round s m (e + n)"
| "ldexp d n = d"

definition fl_of_u64 :: "u64 \<Rightarrow> double" where
  "fl_of_u64 v = fl_round False (unat v) 0"

text \<open>Subtraction of finite numbers: the exact difference over a common exponent, rounded.\<close>

definition fl_int :: "bool \<Rightarrow> nat \<Rightarrow> int" where
  "fl_int s m = (if s then - int m else int m)"

fun fl_minus :: "double \<Rightarrow> double \<Rightarrow> double" where
  "fl_minus (Finite s m e) (Finite t n f) =
     (let c = min e f;
          d = fl_int s m * 2 ^ nat (e - c) - fl_int t n * 2 ^ nat (f - c)
      in fl_round (d < 0 \<or> d = 0 \<and> s \<and> \<not> t) (nat (abs d)) c)"
| "fl_minus NaN y = NaN"
| "fl_minus x NaN = NaN"
| "fl_minus (Infinity s) (Infinity t) = (if s = t then NaN else Infinity s)"
| "fl_minus (Infinity s) (Finite t n f) = Infinity s"
| "fl_minus (Finite s m e) (Infinity t) = Infinity (\<not> t)"

definition fl_one :: double where
  "fl_one = Finite False (2 ^ 52) (-52)"

text \<open>The conversion to an unsigned integer drops the fraction of a nonnegative number.\<close>

definition u64_of_fl :: "double \<Rightarrow> u64" where
  "u64_of_fl d =
     (case d of
        Finite s m e \<Rightarrow> of_nat (if e \<ge> 0 then m * 2 ^ nat e else m div 2 ^ nat (- e))
      | _ \<Rightarrow> 0)"

definition fl_eq :: "double \<Rightarrow> double \<Rightarrow> bool" where
  "fl_eq x y \<longleftrightarrow> x \<noteq> NaN \<and> (x = y \<or> is_zero x \<and> is_zero y)"

subsection \<open>Encoding and decoding the bits\<close>

definition encode_mantissa :: "double \<Rightarrow> nat \<Rightarrow> int \<Rightarrow> int \<Rightarrow> int \<times> u64 \<times> bool" where
  "encode_mantissa v mantissa_size exponent_bias exponent_mask =
     (let (v, exponent) = frexp (fl_abs v);
          exponent = exponent + (exponent_bias - 1)
      in if exponent \<ge> exponent_mask then (exponent_mask, 0, False)
         else let (v, exponent) = (if exponent \<le> 0 then (ldexp v exponent, 0)
                                   else (fl_minus (ldexp v 1) fl_one, exponent));
                  v = ldexp v (int mantissa_size);
                  mantissa = u64_of_fl v
              in (exponent, mantissa, fl_eq (fl_of_u64 mantissa) v))"

definition encodeFloat :: "double \<Rightarrow> nat \<Rightarrow> nat \<Rightarrow> int \<Rightarrow> u64 \<times> bool" where
  "encodeFloat v total_size mantissa_size exponent_bias =
     (let exponent_mask = 2 ^ (total_size - mantissa_size - 1) - 1 :: int;
          (sign, exponent, mantissa, exact) =
            (if v = NaN then (False, exponent_mask, push_bit (mantissa_size - 1) 1, True)
             else if isinf v then (signbit v, exponent_mask, 0, True)
             else if is_zero v then (signbit v, 0, 0, True)
             else (signbit v, encode_mantissa v mantissa_size exponent_bias exponent_mask))
      in ((if sign then push_bit (total_size - 1) 1 else 0)
            OR push_bit mantissa_size (of_int exponent) OR mantissa, exact))"

definition decode_float :: "u64 \<Rightarrow> nat \<Rightarrow> nat \<Rightarrow> int \<Rightarrow> double" where
  "decode_float v total_size mantissa_size exponent_bias =
     (let exponent_mask = mask (total_size - mantissa_size - 1);
          exponent = drop_bit mantissa_size v AND exponent_mask;
          mantissa = v AND mask mantissa_size;
          result =
            (if exponent = 0 then ldexp (fl_of_u64 mantissa) (1 - (int mantissa_size + exponent_bias))
             else if exponent = exponent_mask then (if mantissa = 0 then Infinity False else NaN)
             else ldexp (fl_of_u64 (mantissa + push_bit mantissa_size 1))
                    (sint (ucast (exponent - of_int (int mantissa_size + exponent_bias)) :: u32)))
      in if v AND push_bit (total_size - 1) 1 \<noteq> 0 then fl_neg result else result)"

subsection \<open>Rounding is exact on representable numbers\<close>

lemma bitlen_0 [simp]: "bitlen 0 = 0"
  by (simp add: bitlen.simps)

lemma bitlen_pos: "0 < n \<Longrightarrow> bitlen n = Suc (bitlen (n div 2))"
  by (simp add: bitlen.simps)

lemma bitlen_bounds: "0 < n \<Longrightarrow> 2 ^ (bitlen n - 1) \<le> n \<and> n < 2 ^ bitlen n"
proof (induction n rule: bitlen.induct)
  case (1 n)
  show ?case
  proof (cases "n div 2 = 0")
    case True
    with "1.prems" have "n = 1" by simp
    then show ?thesis by (simp add: bitlen.simps)
  next
    case False
    then have IH: "2 ^ (bitlen (n div 2) - 1) \<le> n div 2" "n div 2 < 2 ^ bitlen (n div 2)"
      using "1.IH" "1.prems" by auto
    have "bitlen (n div 2) = Suc (bitlen (n div 2) - 1)"
      using False by (simp add: bitlen_pos)
    then have "2 ^ bitlen (n div 2) \<le> n"
      using IH(1) by (metis div_times_less_eq_dividend le_trans mult_le_mono1 power_Suc2)
    with IH(2) "1.prems" show ?thesis by (simp add: bitlen_pos)
  qed
qed

lemma bitlen_unique:
  assumes "2 ^ k \<le> n" and "n < 2 ^ Suc k"
  shows "bitlen n = Suc k"
proof -
  have n: "0 < n" using assms(1) by (metis less_le_trans zero_less_numeral zero_less_power)
  note b = bitlen_bounds [OF n]
  have "2 ^ k < (2 :: nat) ^ bitlen n" using assms(1) b by linarith
  moreover have "2 ^ (bitlen n - 1) < (2 :: nat) ^ Suc k" using assms(2) b by linarith
  ultimately have "k < bitlen n" "bitlen n - 1 < Suc k"
    by (metis one_less_numeral_iff power_less_imp_less_exp semiring_norm(76))+
  then show ?thesis by linarith
qed

lemma bitlen_le: "n < 2 ^ k \<Longrightarrow> bitlen n \<le> k"
proof (cases "n = 0")
  case False
  assume "n < 2 ^ k"
  with False bitlen_bounds [of n] have "2 ^ (bitlen n - 1) < (2 :: nat) ^ k" by linarith
  then have "bitlen n - 1 < k" by (rule power_less_imp_less_exp [rotated]) simp
  then show ?thesis by linarith
qed simp

lemma bitlen_scale: "0 < m \<Longrightarrow> bitlen (m * 2 ^ j) = bitlen m + j"
proof (induction j)
  case (Suc j)
  have "m * 2 ^ Suc j div 2 = m * 2 ^ j" by simp
  with Suc show ?case by (subst bitlen_pos) simp_all
qed simp

lemma shift_right_even_exact: "k \<le> j \<Longrightarrow> shift_right_even (m * 2 ^ j) k = m * 2 ^ (j - k)"
proof -
  assume "k \<le> j"
  then have eq: "m * 2 ^ j = (m * 2 ^ (j - k)) * 2 ^ k" by (simp flip: power_add)
  show ?thesis unfolding eq by (simp add: shift_right_even_def Let_def)
qed

text \<open>The exponent that \<open>fl_round\<close> chooses.\<close>

abbreviation round_exp :: "nat \<Rightarrow> int \<Rightarrow> int" where
  "round_exp m e \<equiv> max (-1074) (e + int (bitlen m) - 53)"

lemma fl_round_exact:
  assumes "0 < m" and "m < 2 ^ 53" and "-1074 \<le> e" and "e + int (bitlen m) - 53 \<le> 971"
  shows "fl_round s m e = Finite s (m * 2 ^ nat (e - round_exp m e)) (round_exp m e)"
proof -
  have bl: "bitlen m \<le> 53" using assms(2) by (rule bitlen_le)
  let ?q = "round_exp m e"
  have q: "?q \<le> e" using bl assms(3) by simp
  have "m * 2 ^ nat (e - ?q) < 2 ^ bitlen m * 2 ^ nat (e - ?q)"
    using bitlen_bounds [OF assms(1)] by simp
  also have "\<dots> = 2 ^ (bitlen m + nat (e - ?q))" by (simp add: power_add)
  also have "\<dots> \<le> 2 ^ 53" by (rule power_increasing) (use bl in linarith, simp)
  finally have "m * 2 ^ nat (e - ?q) \<noteq> 2 ^ 53" by simp
  with q assms(1,4) show ?thesis by (simp add: fl_round_def Let_def)
qed

lemma fl_round_scale:
  assumes "0 < m" and "round_exp m e \<le> e"
  shows "fl_round s (m * 2 ^ j) (e - int j) = fl_round s m e"
proof -
  let ?q = "round_exp m e"
  have "(if ?q \<le> e - int j then m * 2 ^ j * 2 ^ nat (e - int j - ?q)
         else shift_right_even (m * 2 ^ j) (nat (?q - (e - int j)))) = m * 2 ^ nat (e - ?q)"
  proof (cases "?q \<le> e - int j")
    case True
    then have "nat (e - ?q) = j + nat (e - int j - ?q)" by linarith
    with True show ?thesis by (simp add: power_add)
  next
    case False
    then have "nat (?q - (e - int j)) \<le> j" and "j - nat (?q - (e - int j)) = nat (e - ?q)"
      using assms(2) by linarith+
    with False show ?thesis by (simp only: if_False shift_right_even_exact)
  qed
  with assms show ?thesis
    by (simp add: fl_round_def Let_def bitlen_scale)
qed

lemma ldexp_fl_round:
  assumes "m < 2 ^ 53" and "-1074 \<le> e" and "e \<le> 971" and "-1074 \<le> e + n"
  shows "ldexp (fl_round s m e) n = fl_round s m (e + n)"
proof (cases "m = 0")
  case True
  then show ?thesis by (simp add: fl_round_def)
next
  case False
  have bl: "bitlen m \<le> 53" using assms(1) by (rule bitlen_le)
  let ?q = "round_exp m e"
  have "?q + n = e + n - int (nat (e - ?q))" using bl assms(2) by simp
  moreover have "fl_round s (m * 2 ^ nat (e - ?q)) (e + n - int (nat (e - ?q))) = fl_round s m (e + n)"
    by (rule fl_round_scale) (use False bl assms(4) in auto)
  ultimately show ?thesis
    using fl_round_exact [of m e s] False assms(1,2,3) bl by (simp only: ldexp.simps)
qed

lemma u64_of_fl_round:
  assumes "k < 2 ^ 53"
  shows "u64_of_fl (fl_round s k 0) = of_nat k" and "fl_of_u64 (of_nat k) = fl_round False k 0"
proof -
  have "unat (of_nat k :: u64) = k" using assms by (simp add: unat_of_nat)
  then show "fl_of_u64 (of_nat k) = fl_round False k 0" by (simp add: fl_of_u64_def)
  show "u64_of_fl (fl_round s k 0) = of_nat k"
  proof (cases "k = 0")
    case False
    have "bitlen k \<le> 53" using assms by (rule bitlen_le)
    then show ?thesis
      using fl_round_exact [of k 0 s] False assms by (simp add: u64_of_fl_def)
  qed (simp add: fl_round_def u64_of_fl_def)
qed

lemma fl_round_not_NaN [simp]: "fl_round s m e \<noteq> NaN"
  by (simp add: fl_round_def Let_def split: prod.splits)

lemma fl_round_normal: "2 ^ 52 \<le> m \<Longrightarrow> m < 2 ^ 53 \<Longrightarrow> -1074 \<le> e \<Longrightarrow> e \<le> 971 \<Longrightarrow>
  fl_round s m e = Finite s m e"
  using fl_round_exact [of m e s] bitlen_unique [of 52 m] by simp

lemma fl_round_denormal: "m < 2 ^ 53 \<Longrightarrow> fl_round s m (-1074) = Finite s m (-1074)"
  using fl_round_exact [of m "-1074" s] bitlen_le [of m 53] by (cases "m = 0") (simp_all add: fl_round_def)

subsection \<open>The 64-bit format\<close>

lemma encode_mantissa_64:
  assumes "wf_double (Finite s m e)" and "m \<noteq> 0"
  shows "encode_mantissa (Finite s m e) 52 1023 2047
       = (if 2 ^ 52 \<le> m then (e + 1075, of_nat (m - 2 ^ 52), True) else (0, of_nat m, True))"
proof -
  have m: "m < 2 ^ 53" "-1074 \<le> e" "e \<le> 971" using assms(1) by (auto simp: wf_double_def)
  let ?f = "Finite False (m * 2 ^ (53 - bitlen m)) (-53)"
  have bl: "bitlen m \<le> 53" using m(1) by (rule bitlen_le)
  have frexp: "frexp (fl_abs (Finite s m e)) = (?f, e + int (bitlen m))"
    using assms(2) by simp
  have ld: "ldexp ?f (int (bitlen m) - 52) = fl_round False m (-52)"
  proof -
    have "ldexp ?f (int (bitlen m) - 52) = fl_round False (m * 2 ^ (53 - bitlen m)) (-52 - int (53 - bitlen m))"
      using bl by (simp add: algebra_simps of_nat_diff)
    also have "\<dots> = fl_round False m (-52)"
      by (rule fl_round_scale) (use assms(2) bl in auto)
    finally show ?thesis .
  qed
  have up: "ldexp (fl_round False k (-52)) 52 = fl_round False k 0" if "k < 2 ^ 53" for k
    using ldexp_fl_round [of k "-52" 52 False] that by simp
  have exact: "fl_eq (fl_of_u64 (u64_of_fl (fl_round False k 0))) (fl_round False k 0)"
    if "k < 2 ^ 53" for k
    by (simp only: u64_of_fl_round [OF that]) (simp add: fl_eq_def)
  show ?thesis
  proof (cases "2 ^ 52 \<le> m")
    case True
    then have b: "bitlen m = 53" using bitlen_unique [of 52 m] m(1) by simp
    have "fl_minus (ldexp ?f 1) fl_one = fl_round False (m - 2 ^ 52) (-52)"
    proof -
      have "ldexp ?f 1 = Finite False m (-52)"
        using ld b fl_round_normal [OF True m(1), of "-52" False] by simp
      then show ?thesis
        using True by (simp add: fl_one_def fl_int_def Let_def of_nat_diff)
          (simp add: nat_diff_distrib)
    qed
    moreover have "m - 2 ^ 52 < 2 ^ 53" using m(1) by simp
    ultimately show ?thesis
      unfolding encode_mantissa_def frexp
      using True b m up [of "m - 2 ^ 52"] exact [of "m - 2 ^ 52"] u64_of_fl_round(1) [of "m - 2 ^ 52" False]
      by (simp add: Let_def)
  next
    case False
    then have b: "bitlen m \<le> 52" using bitlen_le [of m 52] by simp
    have e: "e = -1074" using assms(1) False by (auto simp: wf_double_def)
    show ?thesis
      unfolding encode_mantissa_def frexp
      using False b e ld up [of m] exact [of m] u64_of_fl_round(1) [of m False] m
      by (simp add: Let_def algebra_simps)
  qed
qed

text \<open>A word put together from a sign, an 11-bit exponent and a 52-bit mantissa.\<close>

definition join_bits :: "bool \<Rightarrow> u64 \<Rightarrow> u64 \<Rightarrow> u64" where
  "join_bits sign E k = (if sign then push_bit 63 1 else 0) OR push_bit 52 E OR k"

lemma join_bits_fields:
  assumes "take_bit 11 E = E" and "take_bit 52 k = k"
  shows "drop_bit 52 (join_bits sign E k) AND mask 11 = E"
    and "join_bits sign E k AND mask 52 = k"
    and "join_bits sign E k AND push_bit 63 1 \<noteq> 0 \<longleftrightarrow> sign"
proof -
  have E: "bit E n \<Longrightarrow> n < 11" and k: "bit k n \<Longrightarrow> n < 52" for n
    using assms by (metis bit_take_bit_iff)+
  have top: "bit (push_bit 63 1 :: u64) n \<longleftrightarrow> n = 63" for n
    unfolding bit_push_bit_iff by (auto simp: bit_1_iff)
  have bits: "bit (join_bits sign E k) n \<longleftrightarrow> sign \<and> n = 63 \<or> 52 \<le> n \<and> n < 64 \<and> bit E (n - 52) \<or> bit k n" for n
    unfolding join_bits_def bit_or_iff bit_push_bit_iff [of 52] if_distrib [of "\<lambda>w. bit w n"] top
    by (auto simp: possible_bit_def)
  show "drop_bit 52 (join_bits sign E k) AND mask 11 = E"
    by (rule bit_eqI) (auto simp: bit_simps bits dest: E k)
  show "join_bits sign E k AND mask 52 = k"
    by (rule bit_eqI) (auto simp: bit_simps bits dest: E k)
  have "push_bit 63 1 = (2 ^ 63 :: u64)" by simp
  then have "join_bits sign E k AND push_bit 63 1 \<noteq> 0 \<longleftrightarrow> bit (join_bits sign E k) 63"
    using and_exp_eq_0_iff_not_bit [of "join_bits sign E k" 63] by simp
  also have "\<dots> \<longleftrightarrow> sign" unfolding bits by (auto dest: E k)
  finally show "join_bits sign E k AND push_bit 63 1 \<noteq> 0 \<longleftrightarrow> sign" .
qed

lemma of_nat_take_bit:
  assumes "n < 2 ^ k" and "k \<le> 64"
  shows "take_bit k (of_nat n :: u64) = of_nat n"
proof -
  have "(2 :: nat) ^ k \<le> 2 ^ 64" using assms(2) by (rule power_increasing) simp
  with assms(1) have "n < 2 ^ 64" by linarith
  then show ?thesis
    using assms(1) unfolding word_unat_eq_iff unsigned_take_bit_eq
    by (simp add: unat_of_nat take_bit_nat_eq_self)
qed

lemma ucast_of_int_down: "ucast (of_int i :: u64) = (of_int i :: u32)"
  by (rule bit_eqI) (simp add: bit_simps)

lemma sint_of_int_u32: "sint (of_int i :: u32) = signed_take_bit 31 i"
  by (simp add: signed_of_int)

text \<open>What a 64-bit pattern stands for.\<close>

lemma decode_float_join:
  assumes "E < 2048" and "k < 2 ^ 52"
  shows "decode_float (join_bits s (of_nat E) (of_nat k)) 64 52 1023
       = (if E = 0 then Finite s k (-1074)
          else if E = 2047 then (if k = 0 then Infinity s else NaN)
          else Finite s (k + 2 ^ 52) (int E - 1075))"
proof -
  have E: "take_bit 11 (of_nat E :: u64) = of_nat E" and k: "take_bit 52 (of_nat k :: u64) = of_nat k"
    using assms by (auto intro!: of_nat_take_bit)
  note fields = join_bits_fields [OF E k, of s]
  have inj: "unat (of_nat E :: u64) = E" "unat (of_nat k :: u64) = k"
    using assms by (simp_all add: unat_of_nat)
  have k0: "of_nat k = (0 :: u64) \<longleftrightarrow> k = 0" and E0: "of_nat E = (0 :: u64) \<longleftrightarrow> E = 0"
    and E1: "of_nat E = (mask 11 :: u64) \<longleftrightarrow> E = 2047"
    using inj by (auto simp: word_unat_eq_iff mask_eq_exp_minus_1)
  have k53: "k < 2 ^ 53" using assms(2) by simp
  have den: "ldexp (fl_of_u64 (of_nat k)) (- 1074) = Finite False k (-1074)"
    using u64_of_fl_round(2) [OF k53] ldexp_fl_round [OF k53, of 0 "-1074" False]
      fl_round_denormal [OF k53] by simp
  have nor: "ldexp (fl_of_u64 (of_nat k + push_bit 52 1))
        (sint (ucast (of_nat E - of_int 1075 :: u64) :: u32)) = Finite False (k + 2 ^ 52) (int E - 1075)"
    if "E \<noteq> 0" "E \<noteq> 2047"
  proof -
    have "of_nat k + push_bit 52 1 = (of_nat (k + 2 ^ 52) :: u64)" by simp
    moreover have "sint (ucast (of_nat E - of_int 1075 :: u64) :: u32) = int E - 1075"
    proof -
      have eq: "of_nat E - of_int 1075 = (of_int (int E - 1075) :: u64)" by simp
      have "ucast (of_nat E - of_int 1075 :: u64) = (of_int (int E - 1075) :: u32)"
        unfolding eq by (rule ucast_of_int_down)
      moreover have "signed_take_bit 31 (int E - 1075) = int E - 1075"
        using assms(1) by (simp add: signed_take_bit_int_eq_self)
      ultimately show ?thesis by (simp only: sint_of_int_u32)
    qed
    moreover have "k + 2 ^ 52 < 2 ^ 53" using assms(2) by simp
    ultimately show ?thesis
      using that assms u64_of_fl_round(2) [of "k + 2 ^ 52"]
        ldexp_fl_round [of "k + 2 ^ 52" 0 "int E - 1075" False]
        fl_round_normal [of "k + 2 ^ 52" "int E - 1075" False]
      by simp
  qed
  have sizes: "64 - 52 - 1 = (11 :: nat)" "64 - 1 = (63 :: nat)" "int 52 + 1023 = 1075"
    "(1 :: int) - 1075 = -1074" by simp_all
  have "decode_float (join_bits s (of_nat E) (of_nat k)) 64 52 1023 =
      (let r = (if E = 0 then Finite False k (-1074)
                else if E = 2047 then (if k = 0 then Infinity False else NaN)
                else Finite False (k + 2 ^ 52) (int E - 1075))
       in if s then fl_neg r else r)"
    unfolding decode_float_def Let_def sizes fields k0 E0 E1 den
    by (simp only: nor not_False_eq_True cong: if_cong)
  then show ?thesis by simp
qed

lemma encodeFloat_64:
  "encodeFloat v 64 52 1023 =
     (let (sign, exponent, mantissa, exact) =
        (if v = NaN then (False, 2047, of_nat (2 ^ 51), True)
         else if isinf v then (signbit v, 2047, 0, True)
         else if is_zero v then (signbit v, 0, 0, True)
         else (signbit v, encode_mantissa v 52 1023 2047))
      in (join_bits sign (of_int exponent) mantissa, exact))"
proof -
  have sizes: "64 - 52 - 1 = (11 :: nat)" "64 - 1 = (63 :: nat)" "2 ^ 11 - 1 = (2047 :: int)"
    "push_bit (52 - 1) 1 = (of_nat (2 ^ 51) :: u64)" by simp_all
  show ?thesis unfolding encodeFloat_def sizes join_bits_def Let_def by (rule refl)
qed

text \<open>Sign, exponent and mantissa fields of a double, as numbers.\<close>

definition float_fields :: "double \<Rightarrow> bool \<times> nat \<times> nat" where
  "float_fields d =
     (case d of
        NaN \<Rightarrow> (False, 2047, 2 ^ 51)
      | Infinity s \<Rightarrow> (s, 2047, 0)
      | Finite s m e \<Rightarrow> if 2 ^ 52 \<le> m then (s, nat (e + 1075), m - 2 ^ 52) else (s, 0, m))"

lemma encodeFloat_fields:
  assumes "wf_double d" and "float_fields d = (s, E, k)"
  shows "encodeFloat d 64 52 1023 = (join_bits s (of_nat E) (of_nat k), True)"
proof (cases d)
  case (Finite t m e)
  have e: "-1074 \<le> e" using assms(1) Finite by (auto simp: wf_double_def)
  show ?thesis
  proof (cases "m = 0")
    case True
    then show ?thesis
      using assms(2) Finite unfolding encodeFloat_64 by (auto simp: float_fields_def isinf_def is_zero_def)
  next
    case False
    then show ?thesis
      using assms(2) Finite e encode_mantissa_64 [OF assms(1) [unfolded Finite] False]
      unfolding encodeFloat_64
      by (auto simp: float_fields_def isinf_def is_zero_def split: if_splits)
  qed
qed (use assms in \<open>auto simp: encodeFloat_64 float_fields_def isinf_def\<close>)

lemma float_fields_bounds:
  assumes "wf_double d" and "float_fields d = (s, E, k)"
  shows "E < 2048 \<and> k < 2 ^ 52
    \<and> d = (if E = 0 then Finite s k (-1074)
           else if E = 2047 then (if k = 0 then Infinity s else NaN)
           else Finite s (k + 2 ^ 52) (int E - 1075))"
  using assms by (cases d) (auto simp: float_fields_def wf_double_def split: if_splits)

lemma join_bits_exhaust:
  obtains s E k where "v = join_bits s (of_nat E) (of_nat k)" "E < 2048" "k < 2 ^ 52"
proof -
  define E k where "E = unat (drop_bit 52 v AND mask 11)" and "k = unat (v AND mask 52)"
  have E: "E < 2048" and k: "k < 2 ^ 52"
    unfolding E_def k_def using unat_shift_mask [of 52 v 11] unat_shift_mask [of 0 v 52] by simp_all
  have "v = join_bits (bit v 63) (of_nat E) (of_nat k)"
  proof (rule bit_eqI)
    fix n
    assume "possible_bit TYPE(u64) n"
    then have n: "n < 64" by simp
    have top: "bit (push_bit 63 1 :: u64) n \<longleftrightarrow> n = 63"
      unfolding bit_push_bit_iff using n by (auto simp: bit_1_iff)
    show "bit v n \<longleftrightarrow> bit (join_bits (bit v 63) (of_nat E) (of_nat k)) n"
      unfolding join_bits_def bit_or_iff bit_push_bit_iff [of 52] if_distrib [of "\<lambda>w. bit w n"] top
      using n by (cases "n = 63") (auto simp: E_def k_def bit_simps not_less)
  qed
  with E k that show thesis by blast
qed

lemma decode_encode_float:
  assumes "wf_double d"
  shows "decode_float (fst (encodeFloat d 64 52 1023)) 64 52 1023 = d \<and> snd (encodeFloat d 64 52 1023)"
proof -
  obtain s E k where f: "float_fields d = (s, E, k)" by (cases "float_fields d") auto
  note b = float_fields_bounds [OF assms f]
  then have "decode_float (join_bits s (of_nat E) (of_nat k)) 64 52 1023 = d"
    using decode_float_join [of E k s] by auto
  then show ?thesis by (simp only: encodeFloat_fields [OF assms f] fst_conv snd_conv)
qed

lemma encode_decode_float:
  assumes "decode_float v 64 52 1023 \<noteq> NaN"
  shows "fst (encodeFloat (decode_float v 64 52 1023) 64 52 1023) = v"
proof -
  obtain s E k where v: "v = join_bits s (of_nat E) (of_nat k)" and b: "E < 2048" "k < 2 ^ 52"
    by (rule join_bits_exhaust)
  let ?d = "decode_float v 64 52 1023"
  have d: "?d = (if E = 0 then Finite s k (-1074)
          else if E = 2047 then (if k = 0 then Infinity s else NaN)
          else Finite s (k + 2 ^ 52) (int E - 1075))"
    unfolding v by (rule decode_float_join [OF b])
  have "wf_double ?d" unfolding d using b by (auto simp: wf_double_def)
  moreover have "float_fields ?d = (s, E, k)"
    using assms b unfolding d by (auto simp: float_fields_def split: if_splits)
  ultimately show ?thesis
    using encodeFloat_fields v by simp
qed

text \<open>Every rounded number is well formed, so every decoded float is.\<close>

lemma shift_right_even_le: "shift_right_even m k \<le> m div 2 ^ k + 1" "m div 2 ^ k \<le> shift_right_even m k"
  by (simp_all add: shift_right_even_def Let_def)

lemma wf_fl_round: "wf_double (fl_round s m e)"
proof (cases "m = 0")
  case False
  let ?bl = "bitlen m" and ?q = "round_exp m e"
  note b = bitlen_bounds [of m] and bl = bitlen_pos [of m]
  define m' where "m' = (if ?q \<le> e then m * 2 ^ nat (e - ?q) else shift_right_even m (nat (?q - e)))"
  have "m' \<le> 2 ^ 53 \<and> (?q = -1074 \<or> 2 ^ 52 \<le> m')"
  proof (cases "?q \<le> e")
    case True
    then have "bitlen m' = ?bl + nat (e - ?q)" and "0 < m'"
      using False by (simp_all add: m'_def bitlen_scale)
    then have len: "bitlen m' \<le> 53" "?q = -1074 \<or> bitlen m' = 53" and "m' < 2 ^ bitlen m'" "2 ^ (bitlen m' - 1) \<le> m'"
      using True bitlen_bounds [of m'] by linarith+
    moreover have "(2 :: nat) ^ bitlen m' \<le> 2 ^ 53" using len(1) by (rule power_increasing) simp
    ultimately show ?thesis by auto
  next
    case q: False
    define k where "k = nat (?q - e)"
    have k: "?bl \<le> 53 + k" "?q = -1074 \<or> ?bl = 53 + k" using q by (auto simp: k_def)
    have m': "m div 2 ^ k \<le> m'" "m' \<le> m div 2 ^ k + 1"
      unfolding m'_def k_def if_not_P [OF q] by (rule shift_right_even_le)+
    have "m < 2 ^ 53 * 2 ^ k"
      using b False power_increasing [OF k(1), of "2 :: nat"] by (simp add: power_add)
    then have "m div 2 ^ k < 2 ^ 53" by (simp add: less_mult_imp_div_less)
    moreover have "2 ^ 52 \<le> m div 2 ^ k" if "?bl = 53 + k"
    proof -
      have "2 ^ 52 * 2 ^ k \<le> m" using b False that by (simp add: power_add)
      then have "2 ^ 52 * 2 ^ k div 2 ^ k \<le> m div 2 ^ k" by (rule div_le_mono)
      then show ?thesis by simp
    qed
    ultimately show ?thesis using m' k(2) by fastforce
  qed
  moreover obtain q where q: "?q = q" "-1074 \<le> q" by simp
  moreover have "fl_round s m e = (case if m' = 2 ^ 53 then (2 ^ 52, ?q + 1) else (m', ?q) of
      (m', q) \<Rightarrow> if q > 971 then Infinity s else Finite s m' q)"
    using False unfolding fl_round_def Let_def m'_def by (simp only: if_False)
  ultimately show ?thesis
    unfolding q(1) by (auto simp: wf_double_def)
qed (simp add: fl_round_def wf_double_def)

lemma wf_ldexp: "wf_double d \<Longrightarrow> wf_double (ldexp d n)"
  by (cases d) (simp_all add: wf_fl_round)

lemma wf_fl_neg [simp]: "wf_double (fl_neg d) \<longleftrightarrow> wf_double d"
  by (cases d) (simp_all add: wf_double_def)

lemma wf_decode_float: "wf_double (decode_float v total_size mantissa_size exponent_bias)"
proof -
  have "wf_double (Infinity s)" "wf_double NaN" for s by (simp_all add: wf_double_def)
  then show ?thesis
    by (simp add: decode_float_def Let_def wf_ldexp fl_of_u64_def wf_fl_round)
qed

text \<open>
  C19: every double is written exactly in the 64-bit format and read back unchanged; and
  every 64-bit pattern that is not a NaN is read as a double that is written with the
  same bits again.
\<close>

theorem float64_roundtrip:
  assumes "wf_double d" and "decode_float v 64 52 1023 \<noteq> NaN"
  shows "decode_float (fst (encodeFloat d 64 52 1023)) 64 52 1023 = d
    \<and> snd (encodeFloat d 64 52 1023)
    \<and> fst (encodeFloat (decode_float v 64 52 1023) 64 52 1023) = v"
  using decode_encode_float [OF assms(1)] encode_decode_float [OF assms(2)] by simp

theorem float64_roundtrip_witness:
  "decode_float (fst (encodeFloat (Finite True 3 (-1074)) 64 52 1023)) 64 52 1023 = Finite True 3 (-1074)
   \<and> fst (encodeFloat (decode_float (join_bits False (of_nat 1023) (of_nat (2 ^ 51))) 64 52 1023) 64 52 1023)
       = join_bits False (of_nat 1023) (of_nat (2 ^ 51))"
proof -
  have w: "wf_double (Finite True 3 (-1074))" by (simp add: wf_double_def)
  have "decode_float (join_bits False (of_nat 1023) (of_nat (2 ^ 51))) 64 52 1023
      = Finite False (2 ^ 51 + 2 ^ 52) (-52)"
    by (subst decode_float_join) simp_all
  then have n: "decode_float (join_bits False (of_nat 1023) (of_nat (2 ^ 51))) 64 52 1023 \<noteq> NaN"
    by simp
  from float64_roundtrip [OF w n] show ?thesis by blast
qed

end
