(* ===== verification/NodeMap.thy ===== *)
theory NodeMap
  imports Memo_Prelude "HOL-Library.List_Lexorder" "HOL-Library.Char_ord"
begin

section \<open>NodeMap: maps as sorted vectors\<close>

text \<open>
  The class template \<^verbatim>\<open>NodeMap\<close> of \<^verbatim>\<open>memodb/include/memodb/Node.h\<close>: the private vector
  \<^verbatim>\<open>members_\<close> of key-value pairs is a list of pairs. \<^verbatim>\<open>std::lower_bound\<close> gives the position
  before which every member compares less than the key, and an iterator is a position
  (\<^verbatim>\<open>end()\<close> is the length of the list).

  \<open>nm_sorted\<close> is the invariant of the class. The locale \<open>key_value_map\<close> is the contract
  that the rest of the program relies on; it is interpreted on the operations below. The
  last lemma says that the list is determined by the lookups, so that two maps built in
  different orders are the same vector and are encoded alike.
\<close>

type_synonym 'v node_map = "(string \<times> 'v) list"

definition key_compare :: "string \<Rightarrow> string \<Rightarrow> bool" where
  "key_compare a b = (if length a \<noteq> length b then length a < length b else a < b)"

definition nm_compare :: "string \<times> 'v \<Rightarrow> string \<Rightarrow> bool" where
  "nm_compare a b = key_compare (fst a) b"

definition lower_bound :: "'v node_map \<Rightarrow> string \<Rightarrow> nat" where
  "lower_bound ms name = length (takeWhile (\<lambda>a. nm_compare a name) ms)"

definition nm_find :: "'v node_map \<Rightarrow> string \<Rightarrow> nat" where
  "nm_find ms name =
     (let it = lower_bound ms name
      in if it \<noteq> length ms \<and> fst (ms ! it) = name then it else length ms)"

definition nm_lookup :: "'v node_map \<Rightarrow> string \<Rightarrow> 'v option" where
  "nm_lookup ms name = (let it = nm_find ms name in if it = length ms then None else Some (snd (ms ! it)))"

definition nm_erase :: "'v node_map \<Rightarrow> string \<Rightarrow> 'v node_map" where
  "nm_erase ms name =
     (let it = nm_find ms name in if it \<noteq> length ms then take it ms @ drop (Suc it) ms else ms)"

definition insert_or_assign :: "'v node_map \<Rightarrow> string \<Rightarrow> 'v \<Rightarrow> 'v node_map \<times> nat \<times> bool" where
  "insert_or_assign ms name v =
     (let it = lower_bound ms name
      in if it \<noteq> length ms \<and> fst (ms ! it) = name then (ms[it := (name, v)], it, False)
         else (take it ms @ (name, v) # drop it ms, it, True))"

definition try_emplace :: "'v node_map \<Rightarrow> string \<Rightarrow> 'v \<Rightarrow> 'v node_map \<times> nat \<times> bool" where
  "try_emplace ms name v =
     (let it = lower_bound ms name
      in if it \<noteq> length ms \<and> fst (ms ! it) = name then (ms, it, False)
         else (take it ms @ (name, v) # drop it ms, it, True))"

definition nm_init :: "(string \<times> 'v) list \<Rightarrow> 'v node_map" where
  "nm_init items = foldl (\<lambda>ms (k, v). fst (insert_or_assign ms k v)) [] items"

definition nm_sorted :: "'v node_map \<Rightarrow> bool" where
  "nm_sorted ms = sorted_wrt key_compare (map fst ms)"

subsection \<open>The order of the keys\<close>

lemma key_compare_irrefl [simp]: "\<not> key_compare a a"
  by (simp add: key_compare_def)

lemma key_compare_trans: "key_compare a b \<Longrightarrow> key_compare b c \<Longrightarrow> key_compare a c"
  by (auto simp: key_compare_def split: if_splits)

lemma key_compare_total: "key_compare a b \<or> a = b \<or> key_compare b a"
  by (auto simp: key_compare_def)

lemma key_compare_asym: "key_compare a b \<Longrightarrow> \<not> key_compare b a"
  using key_compare_trans key_compare_irrefl by blast

lemma nm_sorted_Nil [simp]: "nm_sorted []"
  by (simp add: nm_sorted_def)

lemma nm_sorted_Cons: "nm_sorted ((k, v) # ms) \<longleftrightarrow> (\<forall>k' \<in> fst ` set ms. key_compare k k') \<and> nm_sorted ms"
  by (auto simp: nm_sorted_def)

lemma nm_sorted_distinct: "nm_sorted ms \<Longrightarrow> distinct (map fst ms)"
  by (induction ms) (auto simp: nm_sorted_def)

lemma nm_sorted_append:
  "nm_sorted (xs @ ys) \<longleftrightarrow>
     nm_sorted xs \<and> nm_sorted ys \<and> (\<forall>a \<in> fst ` set xs. \<forall>b \<in> fst ` set ys. key_compare a b)"
  by (auto simp: nm_sorted_def sorted_wrt_append)

subsection \<open>Recursive equations\<close>

text \<open>The binary search and the insertion, as recursive functions over the list.\<close>

lemma lower_bound_Cons:
  "lower_bound ((k, v) # ms) name = (if key_compare k name then Suc (lower_bound ms name) else 0)"
  by (simp add: lower_bound_def nm_compare_def)

lemma lower_bound_Nil [simp]: "lower_bound [] name = 0"
  by (simp add: lower_bound_def)

lemma lower_bound_le: "lower_bound ms name \<le> length ms"
  by (simp add: lower_bound_def length_takeWhile_le)

lemma nm_lookup_map_of: "nm_sorted ms \<Longrightarrow> nm_lookup ms name = map_of ms name"
proof (induction ms)
  case Nil
  then show ?case by (simp add: nm_lookup_def nm_find_def)
next
  case (Cons kv ms)
  obtain k v where kv: "kv = (k, v)" by (cases kv)
  have above: "\<forall>k' \<in> fst ` set ms. key_compare k k'" and "nm_sorted ms"
    using Cons.prems by (simp_all add: kv nm_sorted_Cons)
  consider "key_compare k name" | "k = name" | "key_compare name k"
    using key_compare_total by blast
  then show ?case
  proof cases
    case 1
    with Cons.IH \<open>nm_sorted ms\<close> show ?thesis
      by (auto simp: kv nm_lookup_def nm_find_def Let_def lower_bound_Cons)
  next
    case 2
    then show ?thesis
      by (simp add: kv nm_lookup_def nm_find_def Let_def lower_bound_Cons)
  next
    case 3
    then have "map_of ms name = None" using above key_compare_asym by (simp add: map_of_eq_None_iff) blast
    with 3 show ?thesis
      by (auto simp: kv nm_lookup_def nm_find_def Let_def lower_bound_Cons dest: key_compare_asym)
  qed
qed

lemma insert_or_assign_Nil: "fst (insert_or_assign [] name v) = [(name, v)]"
  by (simp add: insert_or_assign_def)

lemma insert_or_assign_Cons:
  "fst (insert_or_assign ((k, w) # ms) name v) =
     (if key_compare k name then (k, w) # fst (insert_or_assign ms name v)
      else if k = name then (name, v) # ms
      else (name, v) # (k, w) # ms)"
  by (simp add: insert_or_assign_def Let_def lower_bound_Cons)

lemma try_emplace_new:
  "snd (snd (try_emplace ms name v)) \<Longrightarrow> fst (try_emplace ms name v) = fst (insert_or_assign ms name v)"
  "\<not> snd (snd (try_emplace ms name v)) \<Longrightarrow> fst (try_emplace ms name v) = ms"
  by (auto simp: try_emplace_def insert_or_assign_def Let_def split: if_splits)

lemma try_emplace_inserted:
  "nm_sorted ms \<Longrightarrow> snd (snd (try_emplace ms name v)) \<longleftrightarrow> nm_lookup ms name = None"
  by (auto simp: try_emplace_def nm_lookup_def nm_find_def Let_def)

lemma insert_or_assign_inserted:
  "snd (snd (insert_or_assign ms name v)) \<longleftrightarrow> nm_lookup ms name = None"
  by (auto simp: insert_or_assign_def nm_lookup_def nm_find_def Let_def)

lemma nm_erase_Nil: "nm_erase [] name = []"
  by (simp add: nm_erase_def nm_find_def)

lemma nm_erase_Cons:
  "nm_erase ((k, w) # ms) name =
     (if key_compare k name then (k, w) # nm_erase ms name
      else if k = name then ms else (k, w) # ms)"
  by (auto simp: nm_erase_def nm_find_def Let_def lower_bound_Cons)

lemma keys_insert_or_assign:
  "fst ` set (fst (insert_or_assign ms name v)) = insert name (fst ` set ms)"
proof (induction ms)
  case (Cons kv ms)
  then show ?case by (cases kv) (simp add: insert_or_assign_Cons insert_commute)
qed (simp add: insert_or_assign_Nil)

lemma keys_nm_erase: "fst ` set (nm_erase ms name) \<subseteq> fst ` set ms"
proof (induction ms)
  case (Cons kv ms)
  then show ?case by (cases kv) (simp add: nm_erase_Cons subset_insertI subset_insertI2)
qed (simp add: nm_erase_Nil)

lemma nm_sorted_insert_or_assign: "nm_sorted ms \<Longrightarrow> nm_sorted (fst (insert_or_assign ms name v))"
proof (induction ms)
  case (Cons kv ms)
  obtain k w where kv: "kv = (k, w)" by (cases kv)
  with Cons key_compare_total [of k name] show ?case
    by (auto simp: insert_or_assign_Cons nm_sorted_Cons keys_insert_or_assign
        intro: key_compare_trans simp flip: image_image)
qed (simp add: insert_or_assign_Nil nm_sorted_def)

lemma nm_sorted_erase: "nm_sorted ms \<Longrightarrow> nm_sorted (nm_erase ms name)"
proof (induction ms)
  case (Cons kv ms)
  obtain k w where kv: "kv = (k, w)" by (cases kv)
  have "\<forall>k' \<in> fst ` set (nm_erase ms name). key_compare k k'"
    using Cons.prems keys_nm_erase [of ms name] by (simp only: kv nm_sorted_Cons) blast
  with Cons show ?case
    by (simp add: kv nm_erase_Cons nm_sorted_Cons)
qed (simp add: nm_erase_Nil)

lemma nm_lookup_insert_or_assign:
  assumes "nm_sorted ms"
  shows "nm_lookup (fst (insert_or_assign ms name v)) = (nm_lookup ms)(name \<mapsto> v)"
proof -
  have "map_of (fst (insert_or_assign ms name v)) = (map_of ms)(name \<mapsto> v)"
    using assms
  proof (induction ms)
    case (Cons kv ms)
    obtain k w where "kv = (k, w)" by (cases kv)
    with Cons show ?case
      by (auto simp: insert_or_assign_Cons nm_sorted_Cons fun_eq_iff)
  qed (simp add: insert_or_assign_Nil)
  with assms show ?thesis
    by (auto simp: nm_lookup_map_of nm_sorted_insert_or_assign fun_eq_iff)
qed

lemma nm_lookup_erase:
  assumes "nm_sorted ms"
  shows "nm_lookup (nm_erase ms name) = (nm_lookup ms)(name := None)"
proof -
  have "map_of (nm_erase ms name) = (map_of ms)(name := None)"
    using assms
  proof (induction ms)
    case (Cons kv ms)
    obtain k w where kv: "kv = (k, w)" by (cases kv)
    have none: "map_of ms name = None" if "\<not> key_compare k name"
      using that Cons.prems by (auto simp: kv nm_sorted_Cons map_of_eq_None_iff)
    with Cons show ?case
      by (auto simp: kv nm_erase_Cons nm_sorted_Cons fun_eq_iff)
  qed (simp add: nm_erase_Nil)
  with assms show ?thesis
    by (auto simp: nm_lookup_map_of nm_sorted_erase fun_eq_iff)
qed

text \<open>Appending in order: a sorted list is rebuilt by inserting its members one by one.\<close>

lemma insert_or_assign_last:
  "\<forall>k \<in> fst ` set ms. key_compare k name \<Longrightarrow> fst (insert_or_assign ms name v) = ms @ [(name, v)]"
  by (induction ms) (auto simp: insert_or_assign_Nil insert_or_assign_Cons)

text \<open>The vector is determined by the lookups.\<close>

lemma nm_sorted_ext:
  assumes "nm_sorted xs" and "nm_sorted ys" and "\<And>k. nm_lookup xs k = nm_lookup ys k"
  shows "xs = ys"
proof -
  have "map_of xs = map_of ys"
    using assms by (simp add: fun_eq_iff flip: nm_lookup_map_of)
  with assms(1,2) show ?thesis
  proof (induction xs arbitrary: ys)
    case Nil
    then show ?case by (cases ys) (auto simp: fun_eq_iff split: if_splits)
  next
    case (Cons kv xs)
    obtain k v where kv: "kv = (k, v)" by (cases kv)
    from Cons.prems(3) have "map_of ys k = Some v" by (simp add: kv fun_eq_iff split: if_splits)
    then obtain k' v' ys' where ys: "ys = (k', v') # ys'" by (cases ys) auto
    have "\<not> key_compare k k'" "\<not> key_compare k' k"
    proof -
      have "k \<in> insert k' (fst ` set ys')" "k' \<in> insert k (fst ` set xs)"
        using Cons.prems(3) unfolding kv ys
        by (metis domI dom_map_of_conv_image_fst fst_conv image_insert list.simps(15) map_of_Cons_code(2))+
      then show "\<not> key_compare k k'" "\<not> key_compare k' k"
        using Cons.prems(1,2) by (auto simp: kv ys nm_sorted_Cons dest: key_compare_asym)
    qed
    then have eq: "k' = k" using key_compare_total by blast
    have "v' = v" using fun_cong [OF Cons.prems(3), of k] by (simp add: kv ys eq)
    moreover have "xs = ys'"
    proof (rule Cons.IH)
      have "map_of xs k = None" "map_of ys' k = None"
        using Cons.prems(1,2) by (auto simp: kv ys eq nm_sorted_Cons map_of_eq_None_iff)
      then have "map_of xs x = map_of ys' x" for x
        using fun_cong [OF Cons.prems(3), of x] by (cases "x = k") (simp_all add: kv ys eq)
      then show "map_of xs = map_of ys'" by (simp add: fun_eq_iff)
    qed (use Cons.prems in \<open>auto simp: kv ys nm_sorted_Cons\<close>)
    ultimately show ?case by (simp add: kv ys eq)
  qed
qed

subsection \<open>The contract of a map\<close>

text \<open>
  A map with updates, deletion and an extensional representation. What a client needs of
  a map it has filled in some order follows from these laws alone.
\<close>

locale key_value_map =
  fixes empty :: 'm
    and lookup :: "'m \<Rightarrow> 'k \<Rightarrow> 'v option"
    and assign :: "'m \<Rightarrow> 'k \<Rightarrow> 'v \<Rightarrow> 'm"
    and erase :: "'m \<Rightarrow> 'k \<Rightarrow> 'm"
    and invar :: "'m \<Rightarrow> bool"
  assumes invar_empty: "invar empty"
    and lookup_empty: "lookup empty k = None"
    and invar_assign: "invar m \<Longrightarrow> invar (assign m k v)"
    and lookup_assign: "invar m \<Longrightarrow> lookup (assign m k v) = (lookup m)(k \<mapsto> v)"
    and invar_erase: "invar m \<Longrightarrow> invar (erase m k)"
    and lookup_erase: "invar m \<Longrightarrow> lookup (erase m k) = (lookup m)(k := None)"
    and extensional: "invar m \<Longrightarrow> invar m' \<Longrightarrow> lookup m = lookup m' \<Longrightarrow> m = m'"
begin

lemma invar_assigns: "invar m \<Longrightarrow> invar (foldl (\<lambda>m (k, v). assign m k v) m items)"
  by (induction items arbitrary: m) (auto simp: invar_assign)

lemma lookup_assigns:
  "invar m \<Longrightarrow> lookup (foldl (\<lambda>m (k, v). assign m k v) m items) = lookup m ++ map_of (rev items)"
proof (induction items arbitrary: m)
  case (Cons kv items)
  then show ?case
    by (cases kv) (auto simp: invar_assign lookup_assign map_add_def fun_eq_iff split: option.splits)
qed simp

lemma assigns_eq_iff:
  "foldl (\<lambda>m (k, v). assign m k v) empty xs = foldl (\<lambda>m (k, v). assign m k v) empty ys
     \<longleftrightarrow> map_of (rev xs) = map_of (rev ys)"
proof -
  have e: "lookup empty = Map.empty" by (simp add: fun_eq_iff lookup_empty)
  show ?thesis
    using extensional [OF invar_assigns [OF invar_empty, of xs] invar_assigns [OF invar_empty, of ys]]
      lookup_assigns [OF invar_empty, of xs] lookup_assigns [OF invar_empty, of ys]
    by (auto simp: e)
qed

lemma erase_assign: "invar m \<Longrightarrow> lookup m k = None \<Longrightarrow> erase (assign m k v) k = m"
  by (rule extensional) (auto simp: invar_assign invar_erase lookup_assign lookup_erase fun_eq_iff)

lemma assign_commute: "invar m \<Longrightarrow> k \<noteq> k' \<Longrightarrow> assign (assign m k v) k' v' = assign (assign m k' v') k v"
  by (rule extensional) (auto simp: invar_assign lookup_assign fun_eq_iff)

end

interpretation nmap: key_value_map "[]" nm_lookup "\<lambda>ms k v. fst (insert_or_assign ms k v)" nm_erase nm_sorted
proof unfold_locales
  show "nm_lookup [] k = None" for k by (simp add: nm_lookup_def nm_find_def)
next
  fix xs ys :: "'v node_map"
  assume "nm_sorted xs" "nm_sorted ys" "nm_lookup xs = nm_lookup ys"
  then show "xs = ys" by (intro nm_sorted_ext) simp_all
qed (simp_all add: nm_sorted_insert_or_assign nm_lookup_insert_or_assign nm_sorted_erase nm_lookup_erase)

text \<open>
  C13: the vector of a map depends only on the last value given to each key, not on the
  order of the insertions; and conversely the vector determines these values. The CBOR
  encoding of a map, and with it its CID, is therefore canonical.
\<close>

theorem nm_init_canonical: "nm_init xs = nm_init ys \<longleftrightarrow> map_of (rev xs) = map_of (rev ys)"
  unfolding nm_init_def by (rule nmap.assigns_eq_iff)

text \<open>
  C14: every operation of \<^verbatim>\<open>NodeMap\<close> keeps the members sorted (by length, then bytewise),
  and looking a key up afterwards gives what the operation promises: the assigned value,
  nothing after \<^verbatim>\<open>erase\<close>, and the old value when \<^verbatim>\<open>try_emplace\<close> found one.
\<close>

theorem nm_operations:
  assumes "nm_sorted ms"
  shows "nm_sorted (fst (insert_or_assign ms k v)) \<and> nm_sorted (nm_erase ms k)
    \<and> nm_sorted (fst (try_emplace ms k v))
    \<and> nm_lookup (fst (insert_or_assign ms k v)) = (nm_lookup ms)(k \<mapsto> v)
    \<and> nm_lookup (nm_erase ms k) = (nm_lookup ms)(k := None)
    \<and> nm_lookup (fst (try_emplace ms k v)) = (nm_lookup ms)(k := Some (case nm_lookup ms k of None \<Rightarrow> v | Some w \<Rightarrow> w))
    \<and> (snd (snd (try_emplace ms k v)) \<longleftrightarrow> nm_lookup ms k = None)"
proof -
  have "nm_sorted (fst (try_emplace ms k v))"
    using assms try_emplace_new [of ms k v] nm_sorted_insert_or_assign by metis
  moreover have "nm_lookup (fst (try_emplace ms k v))
      = (nm_lookup ms)(k := Some (case nm_lookup ms k of None \<Rightarrow> v | Some w \<Rightarrow> w))"
    using assms try_emplace_new [of ms k v] try_emplace_inserted [OF assms, of k v]
    by (cases "nm_lookup ms k") (auto simp: nm_lookup_insert_or_assign)
  ultimately show ?thesis
    using assms by (simp add: nmap.invar_assign nmap.invar_erase nmap.lookup_assign nmap.lookup_erase
        try_emplace_inserted)
qed

theorem nm_operations_witness:
  "nm_sorted [(''b'', 1 :: nat), (''aa'', 2)] \<and>
   nm_lookup (fst (try_emplace [(''b'', 1 :: nat), (''aa'', 2)] ''b'' 7)) ''b'' = Some 1"
proof -
  have s: "nm_sorted [(''b'', 1 :: nat), (''aa'', 2)]"
    by (simp add: nm_sorted_def key_compare_def)
  moreover have "nm_lookup [(''b'', 1 :: nat), (''aa'', 2)] ''b'' = Some 1"
    by code_simp
  ultimately show ?thesis
    using nm_operations [OF s, of "''b''" 7] by simp
qed

end
