(* ===== verification/Node.thy ===== *)
theory Node
  imports NodeMap CID Float64
begin

section \<open>Node: structured values\<close>

text \<open>
  \<^verbatim>\<open>memodb/include/memodb/Node.h\<close> and the accessors of \<^verbatim>\<open>memodb/lib/Node.cpp\<close>. The variant
  of class \<^verbatim>\<open>Node\<close> is the datatype \<open>node\<close>, one constructor per alternative; both integer
  alternatives hold a 64-bit word, read with its sign in \<open>Int64\<close>. A link inside a node is
  modelled by its identifier, which \<^verbatim>\<open>Link::getCID\<close> computes on demand; the class \<^verbatim>\<open>Link\<close>
  itself is part of \<^theory_text>\<open>Memo_Store\<close>.

  A call that the program answers with \<^verbatim>\<open>report_fatal_error\<close> or with an access to the wrong
  alternative returns a value of type \<open>fatal\<close>. \<open>utf8\<close> stands for \<^verbatim>\<open>llvm::isLegalUTF8String\<close>.

  The lemmas show the invariant \<open>wf_node\<close> of the values the program can build and how the
  accessors behave on every alternative, and that \<^verbatim>\<open>compare\<close> does not tell apart two
  integers of the same signedness.
\<close>

type_synonym int64 = "64 word"

datatype Kind = KNull | KBoolean | KInteger | KFloat | KString | KBytes | KList | KMap | KLink

datatype node =
    Null
  | Boolean bool
  | Int64 int64
  | UInt64 u64
  | Float double
  | Bytes bytes
  | String string
  | Link cid
  | List "node list"
  | Map "(string \<times> node) list"

datatype fatal =
    BadVariant
  | KeyNotFound string
  | OutOfRange
  | NotAnInteger
  | NotANumber
  | InvalidUTF8

type_synonym 'a res = "fatal + 'a"

subsection \<open>Construction\<close>

definition node_of_string :: "(string \<Rightarrow> bool) \<Rightarrow> string \<Rightarrow> node res" where
  "node_of_string utf8 s = (if utf8 s then Inr (String s) else Inl InvalidUTF8)"

definition node_of_map :: "(string \<Rightarrow> bool) \<Rightarrow> node node_map \<Rightarrow> node res" where
  "node_of_map utf8 ms = (if list_all (\<lambda>item. utf8 (fst item)) ms then Inr (Map ms) else Inl InvalidUTF8)"

subsection \<open>Kinds and sizes\<close>

fun kind :: "node \<Rightarrow> Kind" where
  "kind Null = KNull"
| "kind (Boolean _) = KBoolean"
| "kind (Int64 _) = KInteger"
| "kind (UInt64 _) = KInteger"
| "kind (Float _) = KFloat"
| "kind (String _) = KString"
| "kind (Bytes _) = KBytes"
| "kind (List _) = KList"
| "kind (Map _) = KMap"
| "kind (Link _) = KLink"

fun kind_index :: "Kind \<Rightarrow> nat" where
  "kind_index KNull = 0"
| "kind_index KBoolean = 1"
| "kind_index KInteger = 2"
| "kind_index KFloat = 3"
| "kind_index KString = 4"
| "kind_index KBytes = 5"
| "kind_index KList = 6"
| "kind_index KMap = 7"
| "kind_index KLink = 8"

definition node_size :: "node \<Rightarrow> nat" where
  "node_size n =
     (case n of
        String s \<Rightarrow> length s
      | Bytes bs \<Rightarrow> length bs
      | List xs \<Rightarrow> length xs
      | Map ms \<Rightarrow> length ms
      | _ \<Rightarrow> 0)"

text \<open>
  The case of \<^verbatim>\<open>Node::empty\<close> for byte strings is written for \<^verbatim>\<open>std::vector\<close>, but they are stored
  in a \<^verbatim>\<open>llvm::SmallVector\<close>, so the generic case is chosen: no byte string is empty.
\<close>

definition node_empty :: "node \<Rightarrow> bool" where
  "node_empty n =
     (case n of
        String s \<Rightarrow> s = []
      | List xs \<Rightarrow> xs = []
      | Map ms \<Rightarrow> ms = []
      | _ \<Rightarrow> False)"

lemma node_empty_size: "node_empty n \<longleftrightarrow> node_size n = 0 \<and> kind n \<in> {KString, KList, KMap}"
  by (cases n) (simp_all add: node_empty_def node_size_def)

definition node_clear :: "node \<Rightarrow> node" where
  "node_clear n = (case n of List xs \<Rightarrow> List [] | Map ms \<Rightarrow> Map [] | _ \<Rightarrow> n)"

subsection \<open>Lists\<close>

definition node_resize :: "node \<Rightarrow> nat \<Rightarrow> node \<Rightarrow> node" where
  "node_resize n len val =
     (case n of List xs \<Rightarrow> List (take len xs @ replicate (len - length xs) val) | _ \<Rightarrow> n)"

definition node_at_index :: "node \<Rightarrow> nat \<Rightarrow> node res" where
  "node_at_index n i =
     (case n of List xs \<Rightarrow> (if i < length xs then Inr (xs ! i) else Inl OutOfRange) | _ \<Rightarrow> Inl BadVariant)"

definition emplace_back :: "node \<Rightarrow> node \<Rightarrow> node res" where
  "emplace_back n v = (case n of List xs \<Rightarrow> Inr (List (xs @ [v])) | _ \<Rightarrow> Inl BadVariant)"

subsection \<open>Maps\<close>

definition node_at :: "node \<Rightarrow> string \<Rightarrow> node res" where
  "node_at n name =
     (case n of
        Map ms \<Rightarrow> (case nm_lookup ms name of None \<Rightarrow> Inl (KeyNotFound name) | Some v \<Rightarrow> Inr v)
      | _ \<Rightarrow> Inl BadVariant)"

definition at_or_null :: "node \<Rightarrow> string \<Rightarrow> node res" where
  "at_or_null n name =
     (case n of
        Map ms \<Rightarrow> (case nm_lookup ms name of None \<Rightarrow> Inr Null | Some v \<Rightarrow> Inr v)
      | _ \<Rightarrow> Inl BadVariant)"

definition node_count :: "node \<Rightarrow> string \<Rightarrow> nat" where
  "node_count n key =
     (case n of Map ms \<Rightarrow> (if nm_lookup ms key \<noteq> None then 1 else 0) | _ \<Rightarrow> 0)"

definition node_contains :: "node \<Rightarrow> string \<Rightarrow> bool" where
  "node_contains n key \<longleftrightarrow> node_count n key \<noteq> 0"

definition node_subscript :: "node \<Rightarrow> string \<Rightarrow> (node \<times> node) res" where
  "node_subscript n name =
     (case n of
        Map ms \<Rightarrow> (let (ms', it, _) = try_emplace ms name Null in Inr (Map ms', snd (ms' ! it)))
      | _ \<Rightarrow> Inl BadVariant)"

definition node_erase :: "node \<Rightarrow> string \<Rightarrow> node res" where
  "node_erase n name = (case n of Map ms \<Rightarrow> Inr (Map (nm_erase ms name)) | _ \<Rightarrow> Inl BadVariant)"

definition node_insert_or_assign :: "node \<Rightarrow> string \<Rightarrow> node \<Rightarrow> (node \<times> bool) res" where
  "node_insert_or_assign n name v =
     (case n of
        Map ms \<Rightarrow> (let (ms', _, inserted) = insert_or_assign ms name v in Inr (Map ms', inserted))
      | _ \<Rightarrow> Inl BadVariant)"

definition node_try_emplace :: "node \<Rightarrow> string \<Rightarrow> node \<Rightarrow> (node \<times> bool) res" where
  "node_try_emplace n name v =
     (case n of
        Map ms \<Rightarrow> (let (ms', _, inserted) = try_emplace ms name v in Inr (Map ms', inserted))
      | _ \<Rightarrow> Inl BadVariant)"

definition get_value_or :: "(node \<Rightarrow> 'a res) \<Rightarrow> node \<Rightarrow> string \<Rightarrow> 'a \<Rightarrow> 'a res" where
  "get_value_or as n name default_value =
     (case n of
        Null \<Rightarrow> Inr default_value
      | Map ms \<Rightarrow> (case nm_lookup ms name of None \<Rightarrow> Inr default_value | Some v \<Rightarrow> as v)
      | _ \<Rightarrow> Inl BadVariant)"

fun eachLink :: "node \<Rightarrow> cid list"
and eachLink_items :: "node list \<Rightarrow> cid list"
and eachLink_members :: "(string \<times> node) list \<Rightarrow> cid list" where
  "eachLink (Link c) = [c]"
| "eachLink (List xs) = eachLink_items xs"
| "eachLink (Map ms) = eachLink_members ms"
| "eachLink _ = []"
| "eachLink_items [] = []"
| "eachLink_items (x # xs) = eachLink x @ eachLink_items xs"
| "eachLink_members [] = []"
| "eachLink_members ((k, v) # ms) = eachLink v @ eachLink_members ms"

subsection \<open>Conversions\<close>

definition is_int64 :: "node \<Rightarrow> bool" where
  "is_int64 n = (case n of Int64 _ \<Rightarrow> True | UInt64 v \<Rightarrow> v \<le> of_int (2 ^ 63 - 1) | _ \<Rightarrow> False)"

definition as_int64 :: "node \<Rightarrow> int64 res" where
  "as_int64 n =
     (if \<not> is_int64 n then Inl NotAnInteger
      else case n of Int64 v \<Rightarrow> Inr v | UInt64 v \<Rightarrow> Inr v | _ \<Rightarrow> Inl NotAnInteger)"

definition is_uint64 :: "node \<Rightarrow> bool" where
  "is_uint64 n = (case n of Int64 v \<Rightarrow> 0 \<le> sint v | UInt64 _ \<Rightarrow> True | _ \<Rightarrow> False)"

definition as_uint64 :: "node \<Rightarrow> u64 res" where
  "as_uint64 n =
     (if \<not> is_uint64 n then Inl NotAnInteger
      else case n of Int64 v \<Rightarrow> Inr v | UInt64 v \<Rightarrow> Inr v | _ \<Rightarrow> Inl NotAnInteger)"

text \<open>The narrower types: \<open>w\<close> is the number of bits of the type.\<close>

definition is_unsigned :: "nat \<Rightarrow> node \<Rightarrow> bool" where
  "is_unsigned w n = (case as_uint64 n of Inl _ \<Rightarrow> False | Inr v \<Rightarrow> take_bit w v = v)"

definition as_unsigned :: "nat \<Rightarrow> node \<Rightarrow> u64 res" where
  "as_unsigned w n =
     (if \<not> is_unsigned w n then Inl NotAnInteger else map_sum id (take_bit w) (as_uint64 n))"

definition is_signed :: "nat \<Rightarrow> node \<Rightarrow> bool" where
  "is_signed w n =
     (case as_int64 n of Inl _ \<Rightarrow> False | Inr v \<Rightarrow> - (2 ^ (w - 1)) \<le> sint v \<and> sint v \<le> 2 ^ (w - 1) - 1)"

definition as_signed :: "nat \<Rightarrow> node \<Rightarrow> int res" where
  "as_signed w n = (if \<not> is_signed w n then Inl NotAnInteger else map_sum id sint (as_int64 n))"

definition is_double :: "node \<Rightarrow> bool" where
  "is_double n = (case n of Float _ \<Rightarrow> True | Int64 _ \<Rightarrow> True | UInt64 _ \<Rightarrow> True | _ \<Rightarrow> False)"

definition as_double :: "node \<Rightarrow> double res" where
  "as_double n =
     (case n of
        Float d \<Rightarrow> Inr d
      | Int64 v \<Rightarrow> Inr (fl_round (sint v < 0) (nat \<bar>sint v\<bar>) 0)
      | UInt64 v \<Rightarrow> Inr (fl_of_u64 v)
      | _ \<Rightarrow> Inl NotANumber)"

definition as_bool :: "node \<Rightarrow> bool res" where
  "as_bool n = (case n of Boolean b \<Rightarrow> Inr b | _ \<Rightarrow> Inl BadVariant)"

definition as_BytesRef :: "node \<Rightarrow> bytes res" where
  "as_BytesRef n = (case n of Bytes bs \<Rightarrow> Inr bs | _ \<Rightarrow> Inl BadVariant)"

definition as_string :: "node \<Rightarrow> string res" where
  "as_string n = (case n of String s \<Rightarrow> Inr s | _ \<Rightarrow> Inl BadVariant)"

definition as_byte_string :: "node \<Rightarrow> string res" where
  "as_byte_string n = (case n of Bytes bs \<Rightarrow> Inr (of_bytes bs) | _ \<Rightarrow> Inl BadVariant)"

definition as_CID :: "node \<Rightarrow> cid res" where
  "as_CID n = (case n of Link c \<Rightarrow> Inr c | _ \<Rightarrow> Inl BadVariant)"

subsection \<open>Comparison\<close>

text \<open>
  The standard library compares the storage of strings with \<^verbatim>\<open>operator<\<close> on \<^verbatim>\<open>char\<close>, which is
  signed, and the elements of vectors in lexicographic order. \<open>fl_less\<close> is \<^verbatim>\<open>operator<\<close> on
  doubles.
\<close>

definition schar :: "char \<Rightarrow> int" where
  "schar c = (let n = of_char c in if n < 128 then n else n - 256)"

definition storage_less :: "string \<Rightarrow> string \<Rightarrow> bool" where
  "storage_less s t \<longleftrightarrow> map schar s < map schar t"

fun fl_less :: "double \<Rightarrow> double \<Rightarrow> bool" where
  "fl_less NaN y = False"
| "fl_less x NaN = False"
| "fl_less (Infinity s) (Infinity t) = (s \<and> \<not> t)"
| "fl_less (Infinity s) (Finite _ _ _) = s"
| "fl_less (Finite _ _ _) (Infinity t) = (\<not> t)"
| "fl_less (Finite s m e) (Finite t n f) =
     (let c = min e f in fl_int s m * 2 ^ nat (e - c) < fl_int t n * 2 ^ nat (f - c))"

definition sign_of :: "bool \<Rightarrow> bool \<Rightarrow> int" where
  "sign_of lt eq = (if lt then -1 else if eq then 0 else 1)"

text \<open>
  The integer branch reads both operands from the left node, as lines 165 and 168 do.
\<close>

definition compare_integers :: "node \<Rightarrow> node \<Rightarrow> int" where
  "compare_integers a b =
     (let signed_left = is_int64 a; signed_right = is_int64 b
      in if signed_left \<and> signed_right then
           (case (as_int64 a, as_int64 a) of
              (Inr left, Inr right) \<Rightarrow> sign_of (sint left < sint right) (left = right)
            | _ \<Rightarrow> 0)
         else if \<not> signed_left \<and> \<not> signed_right then
           (case (as_uint64 a, as_uint64 a) of
              (Inr left, Inr right) \<Rightarrow> sign_of (left < right) (left = right)
            | _ \<Rightarrow> 0)
         else if signed_left then -1 else 1)"

function node_compare :: "node \<Rightarrow> node \<Rightarrow> int"
and items_less :: "node list \<Rightarrow> node list \<Rightarrow> bool"
and items_eq :: "node list \<Rightarrow> node list \<Rightarrow> bool"
and members_less :: "(string \<times> node) list \<Rightarrow> (string \<times> node) list \<Rightarrow> bool"
and members_eq :: "(string \<times> node) list \<Rightarrow> (string \<times> node) list \<Rightarrow> bool" where
  "node_compare a b =
     (if kind_index (kind a) < kind_index (kind b) then -1
      else if kind_index (kind a) > kind_index (kind b) then 1
      else if kind a = KInteger then compare_integers a b
      else case (a, b) of
        (Boolean x, Boolean y) \<Rightarrow> sign_of (x < y) (x = y)
      | (Float x, Float y) \<Rightarrow> sign_of (fl_less x y) (fl_eq x y)
      | (String x, String y) \<Rightarrow> sign_of (storage_less x y) (x = y)
      | (Bytes x, Bytes y) \<Rightarrow> sign_of (x < y) (x = y)
      | (Link x, Link y) \<Rightarrow> sign_of (cid_less x y) (cid_eq x y)
      | (List xs, List ys) \<Rightarrow> sign_of (items_less xs ys) (items_eq xs ys)
      | (Map ms, Map ns) \<Rightarrow> sign_of (members_less ms ns) (members_eq ms ns)
      | _ \<Rightarrow> 0)"
| "items_less xs [] = False"
| "items_less [] (y # ys) = True"
| "items_less (x # xs) (y # ys) =
     (if node_compare x y < 0 then True
      else if node_compare y x < 0 then False
      else items_less xs ys)"
| "items_eq [] [] = True"
| "items_eq (x # xs) (y # ys) = (node_compare x y = 0 \<and> items_eq xs ys)"
| "items_eq [] (y # ys) = False"
| "items_eq (x # xs) [] = False"
| "members_less ms [] = False"
| "members_less [] (n # ns) = True"
| "members_less ((k, v) # ms) ((l, w) # ns) =
     (if (if k \<noteq> l then storage_less k l else node_compare v w < 0) then True
      else if (if l \<noteq> k then storage_less l k else node_compare w v < 0) then False
      else members_less ms ns)"
| "members_eq [] [] = True"
| "members_eq ((k, v) # ms) ((l, w) # ns) = (k = l \<and> node_compare v w = 0 \<and> members_eq ms ns)"
| "members_eq [] (n # ns) = False"
| "members_eq (m # ms) [] = False"
  by pat_completeness auto
termination
  by (relation "measure (\<lambda>x. case x of
         Inl (Inl (a, b)) \<Rightarrow> size a + size b
       | Inl (Inr (xs, ys)) \<Rightarrow> size_list size xs + size_list size ys
       | Inr (Inl (xs, ys)) \<Rightarrow> size_list size xs + size_list size ys
       | Inr (Inr (Inl (ms, ns))) \<Rightarrow> size_list (size_prod (\<lambda>_. 0) size) ms + size_list (size_prod (\<lambda>_. 0) size) ns
       | Inr (Inr (Inr (ms, ns))) \<Rightarrow> size_list (size_prod (\<lambda>_. 0) size) ms + size_list (size_prod (\<lambda>_. 0) size) ns)")
     auto

declare node_compare.simps [simp del]

subsection \<open>Well-formed nodes\<close>

text \<open>
  What the constructors guarantee of a node: legal text, sorted maps, doubles and
  identifiers in their canonical form, and containers whose size fits \<^verbatim>\<open>std::size_t\<close>.
\<close>

fun wf_node :: "(string \<Rightarrow> bool) \<Rightarrow> node \<Rightarrow> bool"
and wf_items :: "(string \<Rightarrow> bool) \<Rightarrow> node list \<Rightarrow> bool"
and wf_members :: "(string \<Rightarrow> bool) \<Rightarrow> (string \<times> node) list \<Rightarrow> bool" where
  "wf_node utf8 (Float d) = wf_double d"
| "wf_node utf8 (Bytes bs) = (length bs < 2 ^ 64)"
| "wf_node utf8 (String s) = (utf8 s \<and> length s < 2 ^ 64)"
| "wf_node utf8 (Link c) = wf_cid c"
| "wf_node utf8 (List xs) = (length xs < 2 ^ 64 \<and> wf_items utf8 xs)"
| "wf_node utf8 (Map ms) = (length ms < 2 ^ 64 \<and> nm_sorted ms \<and> wf_members utf8 ms)"
| "wf_node utf8 _ = True"
| "wf_items utf8 [] = True"
| "wf_items utf8 (x # xs) = (wf_node utf8 x \<and> wf_items utf8 xs)"
| "wf_members utf8 [] = True"
| "wf_members utf8 ((k, v) # ms) = (utf8 k \<and> length k < 2 ^ 64 \<and> wf_node utf8 v \<and> wf_members utf8 ms)"

lemma wf_items_iff: "wf_items utf8 xs \<longleftrightarrow> (\<forall>x \<in> set xs. wf_node utf8 x)"
  by (induction xs) auto

lemma wf_members_iff:
  "wf_members utf8 ms \<longleftrightarrow> (\<forall>(k, v) \<in> set ms. utf8 k \<and> length k < 2 ^ 64 \<and> wf_node utf8 v)"
  by (induction ms) auto

lemma set_insert_or_assign: "set (fst (insert_or_assign ms k v)) \<subseteq> insert (k, v) (set ms)"
proof (induction ms)
  case (Cons kv ms)
  then show ?case by (cases kv) (auto simp: insert_or_assign_Cons)
qed (simp add: insert_or_assign_Nil)

lemma set_nm_erase: "set (nm_erase ms k) \<subseteq> set ms"
proof (induction ms)
  case (Cons kv ms)
  then show ?case by (cases kv) (auto simp: nm_erase_Cons)
qed (simp add: nm_erase_Nil)

lemma length_insert_or_assign: "length (fst (insert_or_assign ms k v)) \<le> Suc (length ms)"
proof (induction ms)
  case (Cons kv ms)
  then show ?case by (cases kv) (simp add: insert_or_assign_Cons)
qed (simp add: insert_or_assign_Nil)

lemma length_nm_erase: "length (nm_erase ms k) \<le> length ms"
proof (induction ms)
  case (Cons kv ms)
  then show ?case by (cases kv) (simp add: nm_erase_Cons)
qed (simp add: nm_erase_Nil)

lemma wf_insert_or_assign:
  assumes "wf_node utf8 (Map ms)" and "utf8 k" and "length k < 2 ^ 64" and "wf_node utf8 v"
    and "Suc (length ms) < 2 ^ 64"
  shows "wf_node utf8 (Map (fst (insert_or_assign ms k v)))"
proof -
  have "length (fst (insert_or_assign ms k v)) < 2 ^ 64"
    using length_insert_or_assign [of ms k v] assms(5) by linarith
  moreover have "wf_members utf8 (fst (insert_or_assign ms k v))"
    using set_insert_or_assign [of ms k v] assms(1-4) by (auto simp: wf_members_iff)
  ultimately show ?thesis
    using assms(1) by (simp add: nm_sorted_insert_or_assign)
qed

lemma wf_nm_erase: "wf_node utf8 (Map ms) \<Longrightarrow> wf_node utf8 (Map (nm_erase ms k))"
  using set_nm_erase [of ms k] length_nm_erase [of ms k]
  by (auto simp: wf_members_iff nm_sorted_erase)

subsection \<open>Properties\<close>

text \<open>The number an integer node stands for.\<close>

definition node_int :: "node \<Rightarrow> int option" where
  "node_int n = (case n of Int64 v \<Rightarrow> Some (sint v) | UInt64 v \<Rightarrow> Some (uint v) | _ \<Rightarrow> None)"

lemma sint_u64: "sint (v :: u64) = (if uint v < 2 ^ 63 then uint v else uint v - 2 ^ 64)"
proof -
  have "sint v = (uint v + 2 ^ 63) mod 2 ^ 64 - 2 ^ 63"
    by (simp add: sint_uint signed_take_bit_eq_take_bit_shift take_bit_eq_mod)
  moreover have "0 \<le> uint v" "uint v < 2 ^ 64" using uint_lt2p [of v] by simp_all
  moreover have "(uint v + 2 ^ 63) mod 2 ^ 64 = (uint v - 2 ^ 63) mod 2 ^ 64"
    using mod_add_self2 [of "uint v - 2 ^ 63" "2 ^ 64"] by (simp add: add.commute)
  ultimately show ?thesis
    by (cases "uint v < 2 ^ 63") simp_all
qed

lemma sint_nonneg_uint: "0 \<le> sint (v :: u64) \<Longrightarrow> uint v = sint v"
  using uint_lt2p [of v] by (auto simp: sint_u64 split: if_splits)

lemma uint_u64_bounds: "0 \<le> uint (v :: u64)" "uint v < 2 ^ 64"
  using uint_lt2p [of v] by simp_all

lemma sint_u64_bounds: "- (2 ^ 63) \<le> sint (v :: u64)" "sint v < 2 ^ 63"
  using sint_ge [of v] sint_lt [of v] by simp_all

lemma is_int64_iff: "is_int64 n \<longleftrightarrow> (\<exists>i. node_int n = Some i \<and> i < 2 ^ 63)"
  using sint_u64_bounds
  by (cases n) (auto simp: is_int64_def node_int_def word_le_def)

lemma sint_inject: "sint (v :: u64) = sint w \<longleftrightarrow> v = w"
  by (auto intro: signed_word_eqI)

lemma uint_inject: "uint (v :: u64) = uint w \<longleftrightarrow> v = w"
  by (auto intro: unsigned_word_eqI)

lemma as_int64_iff: "as_int64 n = Inr v \<longleftrightarrow> node_int n = Some (sint v)"
proof (cases n)
  case (UInt64 x)
  have "x = v \<and> uint x < 2 ^ 63 \<longleftrightarrow> uint x = sint v"
  proof
    assume "uint x = sint v"
    then have "0 \<le> sint v" using uint_u64_bounds(1) [of x] by simp
    with \<open>uint x = sint v\<close> show "x = v \<and> uint x < 2 ^ 63"
      using sint_nonneg_uint [of v] sint_u64_bounds(2) [of v] by (simp flip: uint_inject)
  qed (auto simp: sint_u64)
  with UInt64 show ?thesis
    by (auto simp: as_int64_def is_int64_iff node_int_def)
qed (use sint_u64_bounds in \<open>auto simp: as_int64_def is_int64_iff node_int_def sint_inject\<close>)

lemma as_uint64_iff: "as_uint64 n = Inr v \<longleftrightarrow> node_int n = Some (uint v)"
proof (cases n)
  case (Int64 x)
  have "x = v \<and> 0 \<le> sint x \<longleftrightarrow> sint x = uint v"
    using sint_nonneg_uint [of x] uint_u64_bounds(1) [of v] by (auto simp: uint_inject)
  with Int64 show ?thesis
    by (auto simp: as_uint64_def is_uint64_def node_int_def)
qed (auto simp: as_uint64_def is_uint64_def node_int_def uint_inject)

text \<open>
  C23: integer conversions never change the number. \<^verbatim>\<open>as<T>()\<close> for a signed or unsigned type
  of \<open>w\<close> bits returns exactly the integer the node stands for when it fits the type, and
  is refused otherwise.
\<close>

theorem node_integer_conversions:
  assumes "0 < w" and "w \<le> 64"
  shows "(as_signed w n = Inr i \<longleftrightarrow> node_int n = Some i \<and> - (2 ^ (w - 1)) \<le> i \<and> i < 2 ^ (w - 1))
       \<and> (as_unsigned w n = Inr v \<longleftrightarrow> node_int n = Some (uint v) \<and> uint v < 2 ^ w)"
proof
  have "2 ^ (w - 1) \<le> (2 :: int) ^ 63" using assms by (intro power_increasing) auto
  then have ex: "\<exists>v. sint (v :: u64) = i" if "- (2 ^ (w - 1)) \<le> i" "i < 2 ^ (w - 1)"
    using that by (intro exI [of _ "of_int i"]) (simp add: signed_of_int signed_take_bit_int_eq_self)
  show "as_signed w n = Inr i \<longleftrightarrow> node_int n = Some i \<and> - (2 ^ (w - 1)) \<le> i \<and> i < 2 ^ (w - 1)"
  proof (cases "as_int64 n")
    case (Inl e)
    then have "node_int n \<noteq> Some (sint v)" for v :: u64 by (simp flip: as_int64_iff)
    with ex Inl show ?thesis by (auto simp: as_signed_def is_signed_def)
  next
    case (Inr x)
    then have "node_int n = Some (sint x)" by (simp only: as_int64_iff)
    with Inr show ?thesis by (auto simp: as_signed_def is_signed_def)
  qed
  have bits: "take_bit w v = v \<longleftrightarrow> uint v < 2 ^ w" for v :: u64
    using uint_u64_bounds(1) [of v]
    by (simp only: uint_inject [symmetric] unsigned_take_bit_eq take_bit_int_eq_self_iff simp_thms)
  show "as_unsigned w n = Inr v \<longleftrightarrow> node_int n = Some (uint v) \<and> uint v < 2 ^ w"
  proof (cases "as_uint64 n")
    case (Inl e)
    then have "node_int n \<noteq> Some (uint v)" for v :: u64 by (simp flip: as_uint64_iff)
    with Inl show ?thesis by (auto simp: as_unsigned_def is_unsigned_def)
  next
    case (Inr x)
    then have "node_int n = Some (uint x)" by (simp only: as_uint64_iff)
    with Inr bits [of x] show ?thesis
      by (auto simp: as_unsigned_def is_unsigned_def uint_inject)
  qed
qed

theorem node_integer_conversions_witness:
  "as_unsigned 8 (Int64 255) = Inr 255 \<and> as_signed 8 (UInt64 128) \<noteq> Inr 128"
proof -
  have "node_int (Int64 255) = Some (uint (255 :: u64))" by (simp add: node_int_def)
  then show ?thesis
    using node_integer_conversions [of 8 "Int64 255" 0 255] node_integer_conversions [of 8 "UInt64 128" 128 0]
    by simp
qed

text \<open>
  C22: a map node behaves as a finite map: after \<^verbatim>\<open>insert_or_assign\<close> the key reads back the
  new value and every other key its old one, \<^verbatim>\<open>erase\<close> undoes it, and the node stays well
  formed.
\<close>

theorem node_map_laws:
  assumes "wf_node utf8 (Map ms)" and "utf8 k" and "length k < 2 ^ 64" and "wf_node utf8 v"
    and "Suc (length ms) < 2 ^ 64"
  shows "\<exists>n b. node_insert_or_assign (Map ms) k v = Inr (n, b) \<and> wf_node utf8 n
     \<and> node_at n k' = (if k' = k then Inr v else node_at (Map ms) k')
     \<and> (b \<longleftrightarrow> \<not> node_contains (Map ms) k)
     \<and> (b \<longrightarrow> node_erase n k = Inr (Map ms))"
proof -
  obtain ms' it b where i: "insert_or_assign ms k v = (ms', it, b)" by (cases "insert_or_assign ms k v") auto
  have s: "nm_sorted ms" using assms(1) by simp
  have ms': "ms' = fst (insert_or_assign ms k v)" and b: "b \<longleftrightarrow> nm_lookup ms k = None"
    using i insert_or_assign_inserted [of ms k v] by simp_all
  show ?thesis
    using i wf_insert_or_assign [OF assms] nmap.lookup_assign [OF s, of k v] nmap.erase_assign [OF s, of k v]
    by (auto simp: node_insert_or_assign_def node_at_def node_contains_def node_count_def node_erase_def
        ms' [symmetric] b)
qed

theorem node_map_laws_witness:
  "\<exists>n b. node_insert_or_assign (Map [(''a'', Null)]) ''b'' (Boolean True) = Inr (n, b)
     \<and> node_at n ''b'' = Inr (Boolean True) \<and> node_erase n ''b'' = Inr (Map [(''a'', Null)])"
proof -
  have "wf_node (\<lambda>_. True) (Map [(''a'', Null)])" by (simp add: nm_sorted_def)
  from node_map_laws [OF this, of "''b''" "Boolean True" "''b''"]
  obtain n b where nb: "node_insert_or_assign (Map [(''a'', Null)]) ''b'' (Boolean True) = Inr (n, b)"
      "node_at n ''b'' = Inr (Boolean True)" "b \<longleftrightarrow> \<not> node_contains (Map [(''a'', Null)]) ''b''"
      "b \<longrightarrow> node_erase n ''b'' = Inr (Map [(''a'', Null)])" by auto
  have "\<not> node_contains (Map [(''a'', Null)]) ''b''" by code_simp
  with nb show ?thesis by auto
qed

text \<open>
  C24: \<^verbatim>\<open>Node::compare\<close>, and with it \<^verbatim>\<open>operator==\<close>, considers any two integers equal that both
  fit \<^verbatim>\<open>std::int64_t\<close>, or that both exceed it: the right operand is read from the left node.
\<close>

theorem compare_integers_equal:
  assumes "kind a = KInteger" and "kind b = KInteger" and "is_int64 a \<longleftrightarrow> is_int64 b"
  shows "node_compare a b = 0"
proof -
  have "compare_integers a b = 0"
    using assms(3) by (auto simp: compare_integers_def Let_def sign_of_def split: sum.splits)
  with assms show ?thesis by (subst node_compare.simps) simp
qed

theorem compare_integers_equal_witness: "node_compare (Int64 1) (Int64 2) = 0"
  by (rule compare_integers_equal) (simp_all add: is_int64_def)

end
