(* ===== verification/CBOR.thy ===== *)
theory CBOR
  imports Node
begin

section \<open>CBOR: nodes as bytes\<close>

text \<open>
  \<^verbatim>\<open>NodeVisitor.cpp\<close>, \<^verbatim>\<open>CBOREncoder.cpp\<close> and the CBOR and IPLD functions of \<^verbatim>\<open>Node.cpp\<close>. A
  \<open>visitor\<close> record holds the virtual functions of \<^verbatim>\<open>NodeVisitor\<close> as functions on the state of
  the visitor; \<open>beforeNode\<close> is what an overriding \<^verbatim>\<open>visitNode\<close> does before it calls the base
  class. \<open>cbor_visitor\<close> is \<^verbatim>\<open>CBOREncoder\<close>.

  The decoder \<open>load_cbor\<close> is recursive in a fuel; \<open>load_cbor_enough\<close> shows that twice the
  length of the input suffices, which \<open>loadFromCBORSequence\<close> provides. The main lemmas are
  the round trips: what \<^verbatim>\<open>saveAsCBOR\<close> writes is read back, followed by any bytes, as the node
  with nonnegative integers in their unsigned form, and the same for \<^verbatim>\<open>saveAsIPLD\<close>.
\<close>

subsection \<open>Visitors\<close>

record 's visitor =
  beforeNode :: "'s \<Rightarrow> 's"
  visitNull :: "'s \<Rightarrow> 's"
  visitBoolean :: "bool \<Rightarrow> 's \<Rightarrow> 's"
  visitInt64 :: "int64 \<Rightarrow> 's \<Rightarrow> 's"
  visitUInt64 :: "u64 \<Rightarrow> 's \<Rightarrow> 's"
  visitFloat :: "double \<Rightarrow> 's \<Rightarrow> 's"
  visitString :: "string \<Rightarrow> 's \<Rightarrow> 's"
  visitBytes :: "bytes \<Rightarrow> 's \<Rightarrow> 's"
  visitLink :: "cid \<Rightarrow> 's \<Rightarrow> 's"
  startList :: "node list \<Rightarrow> 's \<Rightarrow> 's"
  endList :: "'s \<Rightarrow> 's"
  startMap :: "(string \<times> node) list \<Rightarrow> 's \<Rightarrow> 's"
  visitKey :: "string \<Rightarrow> 's \<Rightarrow> 's"
  endMap :: "'s \<Rightarrow> 's"

fun visitNode :: "'s visitor \<Rightarrow> node \<Rightarrow> 's \<Rightarrow> 's"
and visitItems :: "'s visitor \<Rightarrow> node list \<Rightarrow> 's \<Rightarrow> 's"
and visitMembers :: "'s visitor \<Rightarrow> (string \<times> node) list \<Rightarrow> 's \<Rightarrow> 's" where
  "visitNode V Null s = visitNull V (beforeNode V s)"
| "visitNode V (Boolean b) s = visitBoolean V b (beforeNode V s)"
| "visitNode V (Int64 v) s = visitInt64 V v (beforeNode V s)"
| "visitNode V (UInt64 v) s = visitUInt64 V v (beforeNode V s)"
| "visitNode V (Float d) s = visitFloat V d (beforeNode V s)"
| "visitNode V (String str) s = visitString V str (beforeNode V s)"
| "visitNode V (Bytes bs) s = visitBytes V bs (beforeNode V s)"
| "visitNode V (List xs) s = endList V (visitItems V xs (startList V xs (beforeNode V s)))"
| "visitNode V (Map ms) s = endMap V (visitMembers V ms (startMap V ms (beforeNode V s)))"
| "visitNode V (Link c) s = visitLink V c (beforeNode V s)"
| "visitItems V [] s = s"
| "visitItems V (x # xs) s = visitItems V xs (visitNode V x s)"
| "visitMembers V [] s = s"
| "visitMembers V ((k, v) # ms) s = visitMembers V ms (visitNode V v (visitKey V k s))"

subsection \<open>The encoder\<close>

record cbor_state =
  cb_out :: bytes
  has_links :: bool
  not_dag_cbor :: bool

definition push :: "bytes \<Rightarrow> cbor_state \<Rightarrow> cbor_state" where
  "push bs s = s\<lparr>cb_out := cb_out s @ bs\<rparr>"

definition head_bytes :: "nat \<Rightarrow> u64 \<Rightarrow> nat \<Rightarrow> bytes" where
  "head_bytes major_type argument force_additional =
     (let head = (\<lambda>low :: u8. push_bit 5 (of_nat major_type) OR low);
          tail = (\<lambda>num_bytes. map (\<lambda>i. ucast (drop_bit (8 * (num_bytes - i - 1)) argument AND 0xff))
                    [0..<num_bytes])
      in if force_additional = 0 \<and> argument < 24 then [head (ucast argument)]
         else if (if force_additional \<noteq> 0 then force_additional = 24 else argument < 0x100)
              then head 24 # tail 1
         else if (if force_additional \<noteq> 0 then force_additional = 25 else argument < 0x10000)
              then head 25 # tail 2
         else if (if force_additional \<noteq> 0 then force_additional = 26 else argument < 0x100000000)
              then head 26 # tail 4
         else head 27 # tail 8)"

definition encodeHead :: "nat \<Rightarrow> u64 \<Rightarrow> nat \<Rightarrow> cbor_state \<Rightarrow> cbor_state" where
  "encodeHead major_type argument force_additional s = push (head_bytes major_type argument force_additional) s"

definition cbor_visitUInt64 :: "u64 \<Rightarrow> cbor_state \<Rightarrow> cbor_state" where
  "cbor_visitUInt64 v s =
     (let s = encodeHead 0 v 0 s
      in if v > of_int (2 ^ 63 - 1) then s\<lparr>not_dag_cbor := True\<rparr> else s)"

definition cbor_visitInt64 :: "int64 \<Rightarrow> cbor_state \<Rightarrow> cbor_state" where
  "cbor_visitInt64 v s =
     (if sint v < 0 then encodeHead 1 (- (v + 1)) 0 s else encodeHead 0 v 0 s)"

definition cbor_visitFloat :: "double \<Rightarrow> cbor_state \<Rightarrow> cbor_state" where
  "cbor_visitFloat d s =
     (let s = (if \<not> isfinite d then s\<lparr>not_dag_cbor := True\<rparr> else s)
      in encodeHead 7 (fst (encodeFloat d 64 52 1023)) 27 s)"

definition cbor_visitString :: "string \<Rightarrow> cbor_state \<Rightarrow> cbor_state" where
  "cbor_visitString str s = push (to_bytes str) (encodeHead 3 (of_nat (length str)) 0 s)"

definition cbor_visitBytes :: "bytes \<Rightarrow> cbor_state \<Rightarrow> cbor_state" where
  "cbor_visitBytes bs s = push bs (encodeHead 2 (of_nat (length bs)) 0 s)"

definition cbor_visitLink :: "cid \<Rightarrow> cbor_state \<Rightarrow> cbor_state" where
  "cbor_visitLink c s =
     (let bs = cid_Bytes c;
          s = encodeHead 2 (of_nat (length bs) + 1) 0 (encodeHead 6 42 0 s);
          s = push bs (push [0x00] s)
      in s\<lparr>has_links := True\<rparr>)"

definition cbor_visitor :: "cbor_state visitor" where
  "cbor_visitor =
     \<lparr>beforeNode = id,
      visitNull = encodeHead 7 22 0,
      visitBoolean = (\<lambda>b. encodeHead 7 (if b then 21 else 20) 0),
      visitInt64 = cbor_visitInt64,
      visitUInt64 = cbor_visitUInt64,
      visitFloat = cbor_visitFloat,
      visitString = cbor_visitString,
      visitBytes = cbor_visitBytes,
      visitLink = cbor_visitLink,
      startList = (\<lambda>xs. encodeHead 4 (of_nat (length xs)) 0),
      endList = id,
      startMap = (\<lambda>ms. encodeHead 5 (of_nat (length ms)) 0),
      visitKey = cbor_visitString,
      endMap = id\<rparr>"

definition cbor_init :: cbor_state where
  "cbor_init = \<lparr>cb_out = [], has_links = False, not_dag_cbor = False\<rparr>"

definition isValidDAGCBOR :: "cbor_state \<Rightarrow> bool" where
  "isValidDAGCBOR s \<longleftrightarrow> \<not> not_dag_cbor s"

definition saveAsCBOR :: "node \<Rightarrow> bytes" where
  "saveAsCBOR n = cb_out (visitNode cbor_visitor n cbor_init)"

subsection \<open>The decoder\<close>

datatype cbor_error = InvalidCBOR string | UnsupportedCBOR string | ExtraBytes

text \<open>\<^verbatim>\<open>llvm::toString\<close> of such an error.\<close>

fun cbor_error_text :: "cbor_error \<Rightarrow> string" where
  "cbor_error_text (InvalidCBOR message) = ''Invalid CBOR: '' @ message"
| "cbor_error_text (UnsupportedCBOR message) = ''Unsupported CBOR: '' @ message"
| "cbor_error_text ExtraBytes = ''Extra bytes after CBOR node''"

definition cbor_start :: "bytes \<Rightarrow> cbor_error + nat \<times> nat \<times> u64 \<times> bool \<times> bytes" where
  "cbor_start bs =
     (case bs of
        [] \<Rightarrow> Inl (InvalidCBOR ''unexpected end of input'')
      | b # bs \<Rightarrow>
          (let major_type = unat (drop_bit 5 b); minor_type = unat (b AND 0x1f)
           in if minor_type < 24 then Inr (major_type, minor_type, of_nat minor_type, False, bs)
              else if minor_type < 28 then
                (let num_bytes = 2 ^ (minor_type - 24)
                 in if length bs < num_bytes then Inl (InvalidCBOR ''truncated head'')
                    else Inr (major_type, minor_type,
                           foldl (\<lambda>a b. push_bit 8 a OR ucast b) 0 (take num_bytes bs), False,
                           drop num_bytes bs))
              else if minor_type = 31 \<and> major_type \<ge> 2 \<and> major_type \<le> 5
                then Inr (major_type, minor_type, 0, True, bs)
              else Inl (InvalidCBOR ''invalid minor type'')))"

lemma cbor_start_rest:
  "cbor_start bs = Inr (mj, mn, a, i, rest) \<Longrightarrow> length rest < length bs"
  by (auto simp: cbor_start_def Let_def split: list.splits if_splits)

text \<open>The chunks of an indefinite-length string, up to the break byte.\<close>

function load_chunks :: "nat \<Rightarrow> bytes \<Rightarrow> bytes \<Rightarrow> cbor_error + bytes \<times> bytes" where
  "load_chunks major_type bs result =
     (if bs \<noteq> [] \<and> hd bs = 0xff then Inr (result, tl bs)
      else case cbor_start bs of
        Inl e \<Rightarrow> Inl e
      | Inr (inner_major_type, _, additional, inner_indefinite, bs) \<Rightarrow>
          if inner_major_type \<noteq> major_type \<or> inner_indefinite
          then Inl (InvalidCBOR ''invalid indefinite-length string'')
          else if length bs < unat additional then Inl (InvalidCBOR ''missing data from string'')
          else load_chunks major_type (drop (unat additional) bs) (result @ take (unat additional) bs))"
  by pat_completeness auto
termination
  by (relation "measure (\<lambda>(mj, bs, r). length bs)") (auto dest!: sym [of _ "cbor_start _"] cbor_start_rest)

declare load_chunks.simps [simp del]

definition load_string :: "nat \<Rightarrow> u64 \<Rightarrow> bool \<Rightarrow> bytes \<Rightarrow> cbor_error + bytes \<times> bytes" where
  "load_string major_type additional indefinite bs =
     (if indefinite then load_chunks major_type bs []
      else if length bs < unat additional then Inl (InvalidCBOR ''missing data from string'')
      else Inr (take (unat additional) bs, drop (unat additional) bs))"

definition load_link :: "bytes \<Rightarrow> cbor_error + node" where
  "load_link result =
     (if result = [] \<or> hd result \<noteq> 0x00 then Inl (InvalidCBOR ''missing CID prefix'')
      else case cid_fromBytes (drop 1 result) of
        None \<Rightarrow> Inl (UnsupportedCBOR ''unsupported or invalid CID'')
      | Some c \<Rightarrow> Inr (Link c))"

definition next_item :: "bool \<Rightarrow> u64 \<Rightarrow> bytes \<Rightarrow> bool \<times> u64 \<times> bytes" where
  "next_item indefinite additional bs =
     (if indefinite then
        (if bs \<noteq> [] \<and> hd bs = 0xff then (False, additional, tl bs) else (True, additional, bs))
      else (additional > 0, additional - 1, bs))"

definition load_simple :: "nat \<Rightarrow> u64 \<Rightarrow> cbor_error + node" where
  "load_simple minor_type additional =
     (if minor_type = 20 then Inr (Boolean False)
      else if minor_type = 21 then Inr (Boolean True)
      else if minor_type = 22 then Inr Null
      else if minor_type = 23 then Inr Null
      else if minor_type = 25 then Inr (Float (decode_float additional 16 10 15))
      else if minor_type = 26 then Inr (Float (decode_float additional 32 23 127))
      else if minor_type = 27 then Inr (Float (decode_float additional 64 52 1023))
      else Inl (UnsupportedCBOR ''unsupported simple value''))"

text \<open>The head of an item, after the tag of a link if there is one.\<close>

definition load_head :: "bytes \<Rightarrow> cbor_error + bool \<times> nat \<times> nat \<times> u64 \<times> bool \<times> bytes" where
  "load_head bs =
     (case cbor_start bs of
        Inl e \<Rightarrow> Inl e
      | Inr (major_type, minor_type, additional, indefinite, bs) \<Rightarrow>
          if major_type = 6 \<and> additional = 42 then
            (case cbor_start bs of
               Inl e \<Rightarrow> Inl e
             | Inr (major_type, minor_type, additional, indefinite, bs) \<Rightarrow>
                 if major_type \<noteq> 2 then Inl (InvalidCBOR ''invalid kind in CID tag'')
                 else Inr (True, major_type, minor_type, additional, indefinite, bs))
          else if major_type = 6 then Inl (UnsupportedCBOR ''unsupported tag'')
          else Inr (False, major_type, minor_type, additional, indefinite, bs))"

definition and_then :: "('e + 'a) option \<Rightarrow> ('a \<Rightarrow> ('e + 'b) option) \<Rightarrow> ('e + 'b) option" where
  "and_then r k = (case r of None \<Rightarrow> None | Some (Inl e) \<Rightarrow> Some (Inl e) | Some (Inr x) \<Rightarrow> k x)"

text \<open>
  The switch over the major type. The loops over the items of a list and the members of a
  map call the whole function again; they are passed in as \<open>items\<close> and \<open>members\<close>.
\<close>

definition load_switch ::
    "(string \<Rightarrow> bool) \<Rightarrow> (bool \<Rightarrow> u64 \<Rightarrow> bytes \<Rightarrow> (cbor_error + node list \<times> bytes) option)
      \<Rightarrow> (bool \<Rightarrow> u64 \<Rightarrow> bytes \<Rightarrow> (cbor_error + node node_map \<times> bytes) option)
      \<Rightarrow> bytes \<Rightarrow> (cbor_error + node \<times> bytes) option" where
  "load_switch utf8 items members bs =
     (case load_head bs of
        Inl e \<Rightarrow> Some (Inl e)
      | Inr (is_cid, major_type, minor_type, additional, indefinite, bs) \<Rightarrow>
          if major_type = 0 then Some (Inr (UInt64 additional, bs))
          else if major_type = 1 then
            Some (if additional > of_int (2 ^ 63 - 1) then Inl (UnsupportedCBOR ''integer too large'')
                  else Inr (Int64 (- additional - 1), bs))
          else if major_type = 2 then
            Some (case load_string 2 additional indefinite bs of
                    Inl e \<Rightarrow> Inl e
                  | Inr (result, bs) \<Rightarrow>
                      if is_cid then map_sum id (\<lambda>n. (n, bs)) (load_link result)
                      else Inr (Bytes result, bs))
          else if major_type = 3 then
            Some (case load_string 3 additional indefinite bs of
                    Inl e \<Rightarrow> Inl e
                  | Inr (result, bs) \<Rightarrow>
                      if \<not> utf8 (of_bytes result) then Inl (InvalidCBOR ''invalid UTF-8 in string value'')
                      else Inr (String (of_bytes result), bs))
          else if major_type = 4 then
            and_then (items indefinite additional bs) (\<lambda>(xs, bs). Some (Inr (List xs, bs)))
          else if major_type = 5 then
            and_then (members indefinite additional bs) (\<lambda>(ms, bs). Some (Inr (Map ms, bs)))
          else Some (map_sum id (\<lambda>n. (n, bs)) (load_simple minor_type additional)))"

definition as_key :: "node \<Rightarrow> cbor_error + string" where
  "as_key n = (case n of String k \<Rightarrow> Inr k | _ \<Rightarrow> Inl (UnsupportedCBOR ''map keys must be strings''))"

fun load_cbor :: "(string \<Rightarrow> bool) \<Rightarrow> nat \<Rightarrow> bytes \<Rightarrow> (cbor_error + node \<times> bytes) option"
and load_items :: "(string \<Rightarrow> bool) \<Rightarrow> nat \<Rightarrow> node list \<Rightarrow> bool \<Rightarrow> u64 \<Rightarrow> bytes
      \<Rightarrow> (cbor_error + node list \<times> bytes) option"
and load_members :: "(string \<Rightarrow> bool) \<Rightarrow> nat \<Rightarrow> node node_map \<Rightarrow> bool \<Rightarrow> u64 \<Rightarrow> bytes
      \<Rightarrow> (cbor_error + node node_map \<times> bytes) option" where
  "load_cbor utf8 0 bs = None"
| "load_cbor utf8 (Suc fuel) bs = load_switch utf8 (load_items utf8 fuel []) (load_members utf8 fuel []) bs"
| "load_items utf8 0 result indefinite additional bs = None"
| "load_items utf8 (Suc fuel) result indefinite additional bs =
     (case next_item indefinite additional bs of
        (again, additional, bs) \<Rightarrow>
          if \<not> again then Some (Inr (result, bs))
          else and_then (load_cbor utf8 fuel bs) (\<lambda>(item, bs).
                 load_items utf8 fuel (result @ [item]) indefinite additional bs))"
| "load_members utf8 0 result indefinite additional bs = None"
| "load_members utf8 (Suc fuel) result indefinite additional bs =
     (case next_item indefinite additional bs of
        (again, additional, bs) \<Rightarrow>
          if \<not> again then Some (Inr (result, bs))
          else and_then (load_cbor utf8 fuel bs) (\<lambda>(key, bs).
               and_then (Some (as_key key)) (\<lambda>k.
               and_then (load_cbor utf8 fuel bs) (\<lambda>(v, bs).
                 load_members utf8 fuel (fst (insert_or_assign result k v)) indefinite additional bs))))"

definition loadFromCBORSequence :: "(string \<Rightarrow> bool) \<Rightarrow> bytes \<Rightarrow> cbor_error + node \<times> bytes" where
  "loadFromCBORSequence utf8 bs = the (load_cbor utf8 (Suc (2 * length bs)) bs)"

definition loadFromCBOR :: "(string \<Rightarrow> bool) \<Rightarrow> bytes \<Rightarrow> cbor_error + node" where
  "loadFromCBOR utf8 bs =
     (case loadFromCBORSequence utf8 bs of
        Inl e \<Rightarrow> Inl e
      | Inr (n, rest) \<Rightarrow> if rest \<noteq> [] then Inl ExtraBytes else Inr n)"

subsection \<open>IPLD blocks\<close>

datatype ipld_error = InvalidIPLD string | UnsupportedIPLD string | CBORError cbor_error

definition loadFromIPLD :: "(string \<Rightarrow> bool) \<Rightarrow> cid \<Rightarrow> bytes \<Rightarrow> ipld_error + node" where
  "loadFromIPLD utf8 c Content =
     (if isIdentity c \<and> Content \<noteq> []
      then Inl (InvalidIPLD ''identity CID should have empty payload'')
      else let Content = (if isIdentity c then getHashBytes c else Content)
           in if ContentType c = Raw then Inr (Bytes Content)
              else if ContentType c = DAG_CBOR \<or> ContentType c = DAG_CBOR_Unrestricted
                then map_sum CBORError id (loadFromCBOR utf8 Content)
              else Inl (UnsupportedIPLD ''unsupported CID content type''))"

definition saveAsIPLD :: "(bytes \<Rightarrow> bytes) \<Rightarrow> bool \<Rightarrow> node \<Rightarrow> cid \<times> bytes" where
  "saveAsIPLD blake2b noIdentity n =
     (let (bs, codec) =
        (case n of
           Bytes bs \<Rightarrow> (bs, Raw)
         | _ \<Rightarrow> (let encoder = visitNode cbor_visitor n cbor_init
                in (cb_out encoder, if isValidDAGCBOR encoder then DAG_CBOR else DAG_CBOR_Unrestricted)));
          Ref = calculate blake2b codec bs (if noIdentity then Some Blake2b_256 else None)
      in if isIdentity Ref then (Ref, []) else (Ref, bs))"

subsection \<open>What the encoder writes\<close>

text \<open>The encoding as a function of the node, and the two flags.\<close>

fun cbor :: "node \<Rightarrow> bytes"
and cbor_items :: "node list \<Rightarrow> bytes"
and cbor_members :: "(string \<times> node) list \<Rightarrow> bytes" where
  "cbor Null = head_bytes 7 22 0"
| "cbor (Boolean b) = head_bytes 7 (if b then 21 else 20) 0"
| "cbor (Int64 v) = (if sint v < 0 then head_bytes 1 (- (v + 1)) 0 else head_bytes 0 v 0)"
| "cbor (UInt64 v) = head_bytes 0 v 0"
| "cbor (Float d) = head_bytes 7 (fst (encodeFloat d 64 52 1023)) 27"
| "cbor (Bytes bs) = head_bytes 2 (of_nat (length bs)) 0 @ bs"
| "cbor (String s) = head_bytes 3 (of_nat (length s)) 0 @ to_bytes s"
| "cbor (Link c) = head_bytes 6 42 0 @ head_bytes 2 (of_nat (length (cid_Bytes c)) + 1) 0 @ 0 # cid_Bytes c"
| "cbor (List xs) = head_bytes 4 (of_nat (length xs)) 0 @ cbor_items xs"
| "cbor (Map ms) = head_bytes 5 (of_nat (length ms)) 0 @ cbor_members ms"
| "cbor_items [] = []"
| "cbor_items (x # xs) = cbor x @ cbor_items xs"
| "cbor_members [] = []"
| "cbor_members ((k, v) # ms) = head_bytes 3 (of_nat (length k)) 0 @ to_bytes k @ cbor v @ cbor_members ms"

text \<open>
  DAG-CBOR has no integers beyond the signed 64-bit range and no infinities or NaNs.
\<close>

fun dag_ok :: "node \<Rightarrow> bool"
and dag_ok_items :: "node list \<Rightarrow> bool"
and dag_ok_members :: "(string \<times> node) list \<Rightarrow> bool" where
  "dag_ok (UInt64 v) = (uint v < 2 ^ 63)"
| "dag_ok (Float d) = isfinite d"
| "dag_ok (List xs) = dag_ok_items xs"
| "dag_ok (Map ms) = dag_ok_members ms"
| "dag_ok _ = True"
| "dag_ok_items [] = True"
| "dag_ok_items (x # xs) = (dag_ok x \<and> dag_ok_items xs)"
| "dag_ok_members [] = True"
| "dag_ok_members ((k, v) # ms) = (dag_ok v \<and> dag_ok_members ms)"

definition after :: "bytes \<Rightarrow> bool \<Rightarrow> bool \<Rightarrow> cbor_state \<Rightarrow> cbor_state" where
  "after bs links dag s =
     s\<lparr>cb_out := cb_out s @ bs, has_links := has_links s \<or> links, not_dag_cbor := not_dag_cbor s \<or> \<not> dag\<rparr>"

lemma after_after: "after bs l d (after bs' l' d' s) = after (bs' @ bs) (l' \<or> l) (d' \<and> d) s"
  by (auto simp: after_def)

lemma after_simps:
  "encodeHead mj a f s = after (head_bytes mj a f) False True s"
  "push bs s = after bs False True s"
  "after [] False True s = s"
  by (simp_all add: encodeHead_def push_def after_def)

lemma cbor_visitor_simps:
  "beforeNode cbor_visitor s = s" "endList cbor_visitor s = s" "endMap cbor_visitor s = s"
  "visitNull cbor_visitor s = after (head_bytes 7 22 0) False True s"
  "visitBoolean cbor_visitor b s = after (head_bytes 7 (if b then 21 else 20) 0) False True s"
  "visitInt64 cbor_visitor v s = after (cbor (Int64 v)) False True s"
  "visitUInt64 cbor_visitor v s = after (cbor (UInt64 v)) False (uint v < 2 ^ 63) s"
  "visitFloat cbor_visitor d s = after (cbor (Float d)) False (isfinite d) s"
  "visitString cbor_visitor str s = after (cbor (String str)) False True s"
  "visitKey cbor_visitor str s = after (cbor (String str)) False True s"
  "visitBytes cbor_visitor bs s = after (cbor (Bytes bs)) False True s"
  "visitLink cbor_visitor c s = after (cbor (Link c)) True True s"
  "startList cbor_visitor xs s = after (head_bytes 4 (of_nat (length xs)) 0) False True s"
  "startMap cbor_visitor ms s = after (head_bytes 5 (of_nat (length ms)) 0) False True s"
  by (simp_all add: cbor_visitor_def cbor_visitInt64_def cbor_visitUInt64_def cbor_visitFloat_def
      cbor_visitString_def cbor_visitBytes_def cbor_visitLink_def after_simps(1,2) after_after Let_def)
     (auto simp: after_def word_less_def)

lemma visitNode_cbor:
  "visitNode cbor_visitor n s = after (cbor n) (eachLink n \<noteq> []) (dag_ok n) s"
  "visitItems cbor_visitor xs s = after (cbor_items xs) (eachLink_items xs \<noteq> []) (dag_ok_items xs) s"
  "visitMembers cbor_visitor ms s = after (cbor_members ms) (eachLink_members ms \<noteq> []) (dag_ok_members ms) s"
proof (induction n and xs and ms arbitrary: s and s and s rule: cbor_cbor_items_cbor_members.induct)
qed (simp_all add: cbor_visitor_simps after_after after_simps(3))

lemma saveAsCBOR_cbor: "saveAsCBOR n = cbor n"
  by (simp add: saveAsCBOR_def visitNode_cbor after_def cbor_init_def)

lemma isValidDAGCBOR_iff: "isValidDAGCBOR (visitNode cbor_visitor n cbor_init) \<longleftrightarrow> dag_ok n"
  by (simp add: isValidDAGCBOR_def visitNode_cbor after_def cbor_init_def)

subsection \<open>Heads\<close>

lemma head_tail_be_bytes:
  "map (\<lambda>i. ucast (drop_bit (8 * (n - i - 1)) (v :: u64) AND 0xff)) [0..<n] = be_bytes n (unat v)"
proof (rule nth_equalityI)
  fix i
  assume "i < length (map (\<lambda>i. ucast (drop_bit (8 * (n - i - 1)) v AND 0xff) :: u8) [0..<n])"
  then have i: "i < n" by simp
  have ff: "(0xff :: u64) = mask 8" by (simp add: mask_eq_exp_minus_1)
  have "unat (drop_bit (8 * (n - Suc i)) v AND mask 8) = unat v div 256 ^ (n - Suc i) mod 256"
    by (simp add: unat_shift_mask power_mult)
  then have "ucast (drop_bit (8 * (n - Suc i)) v AND mask 8) = (of_nat (unat v div 256 ^ (n - Suc i) mod 256) :: u8)"
    by (metis of_nat_unat)
  then show "map (\<lambda>i. ucast (drop_bit (8 * (n - i - 1)) v AND 0xff)) [0..<n] ! i = be_bytes n (unat v) ! i"
    using i by (simp add: be_bytes_def nth_digits ff)
qed simp

lemma foldl_be_val:
  "length bs \<le> 8 \<Longrightarrow> unat (foldl (\<lambda>a b. push_bit 8 a OR ucast b) (0 :: u64) bs) = be_val bs"
proof (induction bs rule: rev_induct)
  case (snoc b bs)
  have "be_val bs < 256 ^ 7"
    using be_val_bound [of bs] power_increasing [of "length bs" 7 "256 :: nat"] snoc.prems by simp
  with snoc show ?case
    using unat_push_bit_or [of "foldl (\<lambda>a b. push_bit 8 a OR ucast b) 0 bs" 8 "ucast b"] unat_u8_less [of b]
    by (simp add: unat_ucast_u8)
qed simp

lemma foldl_be_bytes:
  assumes "n \<le> 8" and "unat v < 256 ^ n"
  shows "foldl (\<lambda>a b. push_bit 8 a OR ucast b) (0 :: u64) (be_bytes n (unat v)) = v"
  using foldl_be_val [of "be_bytes n (unat v)"] assms
  by (simp add: word_unat_eq_iff be_val_be_bytes)

lemma head_byte_fields:
  fixes low :: u8
  assumes "major_type < 8" and "unat low < 32"
  shows "unat (drop_bit 5 (push_bit 5 (of_nat major_type) OR low)) = major_type"
    and "unat ((push_bit 5 (of_nat major_type) OR low) AND 0x1f) = unat low"
proof -
  have bits: "bit low i \<Longrightarrow> i < 5" for i
  proof -
    have "take_bit 5 low = low"
      using assms(2) by (simp add: word_unat_eq_iff unsigned_take_bit_eq take_bit_nat_eq_self)
    then show "bit low i \<Longrightarrow> i < 5" by (metis bit_take_bit_iff)
  qed
  have mj: "unat (of_nat major_type :: u8) = major_type" using assms(1) by (simp add: unat_of_nat)
  have "take_bit 3 major_type = major_type"
    using assms(1) by (simp add: take_bit_nat_eq_self)
  then have mbits: "bit major_type i \<Longrightarrow> i < 3" for i
    by (metis bit_take_bit_iff)
  have "drop_bit 5 (push_bit 5 (of_nat major_type) OR low) = of_nat major_type"
    by (rule bit_eqI) (auto simp: bit_simps dest: bits mbits)
  then show "unat (drop_bit 5 (push_bit 5 (of_nat major_type) OR low)) = major_type"
    using mj by simp
  have m: "(0x1f :: u8) = mask 5" by (simp add: mask_eq_exp_minus_1)
  have "(push_bit 5 (of_nat major_type) OR low) AND 0x1f = low"
    unfolding m by (rule bit_eqI) (auto simp: bit_simps dest: bits)
  then show "unat ((push_bit 5 (of_nat major_type) OR low) AND 0x1f) = unat low" by simp
qed

lemma cbor_start_short:
  assumes "major_type < 8" and "argument < 24"
  shows "cbor_start ((push_bit 5 (of_nat major_type) OR ucast argument) # rest)
       = Inr (major_type, unat argument, argument, False, rest)"
proof -
  have a: "unat argument < 24" using assms(2) by (simp add: word_less_nat_alt)
  then have low: "unat (ucast argument :: u8) = unat argument"
    by (simp add: unsigned_ucast_eq take_bit_nat_eq_self)
  then show ?thesis
    using head_byte_fields [OF assms(1), of "ucast argument"] a
    by (simp add: cbor_start_def Let_def)
qed

lemma cbor_start_long:
  assumes "major_type < 8" and "k < 4" and "low = of_nat (24 + k)" and "unat argument < 256 ^ (2 ^ k)"
  shows "cbor_start ((push_bit 5 (of_nat major_type) OR low) # be_bytes (2 ^ k) (unat argument) @ rest)
       = Inr (major_type, 24 + k, argument, False, rest)"
proof -
  have low: "unat low = 24 + k" unfolding assms(3) using assms(2)
    by (simp add: unsigned_of_nat take_bit_nat_eq_self del: of_nat_add)
  have "(2 :: nat) ^ k \<le> 2 ^ 3" using assms(2) by (intro power_increasing) auto
  then have le: "(2 :: nat) ^ k \<le> 8" by simp
  show ?thesis
    using head_byte_fields [OF assms(1), of low] low assms(2) foldl_be_bytes [OF le assms(4)]
    by (simp add: cbor_start_def Let_def)
qed

text \<open>The head that is written is read back, and a forced size is kept.\<close>

lemma cbor_start_head:
  assumes "major_type < 8"
  obtains minor_type where
    "cbor_start (head_bytes major_type argument 0 @ rest) = Inr (major_type, minor_type, argument, False, rest)"
    "unat argument < 24 \<Longrightarrow> minor_type = unat argument"
proof -
  have bound: "unat argument < 256 ^ 8" using unat_u64_less [of argument] by simp
  note long = cbor_start_long [OF assms, where argument = argument and rest = rest]
  note tail = head_tail_be_bytes [of _ argument]
  consider "argument < 24" | "\<not> argument < 24" "argument < 0x100"
    | "\<not> argument < 24" "\<not> argument < 0x100" "argument < 0x10000"
    | "\<not> argument < 24" "\<not> argument < 0x100" "\<not> argument < 0x10000" "argument < 0x100000000"
    | "\<not> argument < 24" "\<not> argument < 0x100" "\<not> argument < 0x10000" "\<not> argument < 0x100000000"
    by blast
  then show thesis
  proof cases
    case 1
    with cbor_start_short [OF assms 1, of rest] show thesis
      by (intro that [of "unat argument"]) (simp_all add: head_bytes_def)
  next
    case 2
    then have "unat argument < 256 ^ 2 ^ 0" by (simp add: word_less_nat_alt)
    with long [of 0 24] 2 tail [of 1] show thesis
      by (intro that [of 24]) (simp_all add: head_bytes_def word_less_nat_alt)
  next
    case 3
    then have "unat argument < 256 ^ 2 ^ 1" by (simp add: word_less_nat_alt)
    with long [of 1 25] 3 tail [of 2] show thesis
      by (intro that [of 25]) (simp_all add: head_bytes_def word_less_nat_alt)
  next
    case 4
    then have "unat argument < 256 ^ 2 ^ 2" by (simp add: word_less_nat_alt)
    with long [of 2 26] 4 tail [of 4] show thesis
      by (intro that [of 26]) (simp_all add: head_bytes_def word_less_nat_alt)
  next
    case 5
    with long [of 3 27] bound tail [of 8] show thesis
      by (intro that [of 27]) (simp_all add: head_bytes_def word_less_nat_alt)
  qed
qed

lemma cbor_start_head_27:
  "major_type < 8 \<Longrightarrow>
   cbor_start (head_bytes major_type argument 27 @ rest) = Inr (major_type, 27, argument, False, rest)"
  using cbor_start_long [of major_type 3 27 argument rest] unat_u64_less [of argument]
    head_tail_be_bytes [of 8 argument]
  by (simp add: head_bytes_def)

lemma head_bytes_nonempty: "length (head_bytes mj a f) \<ge> 1"
  by (simp add: head_bytes_def Let_def)

subsection \<open>Enough fuel\<close>

lemma and_then_simps [simp]:
  "and_then None k = None" "and_then (Some (Inl e)) k = Some (Inl e)" "and_then (Some (Inr x)) k = k x"
  by (simp_all add: and_then_def)

lemma and_then_None_iff:
  "and_then r k = None \<longleftrightarrow> r = None \<or> (\<exists>x. r = Some (Inr x) \<and> k x = None)"
  by (auto simp: and_then_def split: option.splits sum.splits)

lemma and_then_Inr_iff:
  "and_then r k = Some (Inr y) \<longleftrightarrow> (\<exists>x. r = Some (Inr x) \<and> k x = Some (Inr y))"
  by (auto simp: and_then_def split: option.splits sum.splits)

lemma load_head_rest:
  "load_head bs = Inr (c, mj, mn, a, i, rest) \<Longrightarrow> length rest < length bs"
  by (auto simp: load_head_def split: sum.splits if_splits dest!: cbor_start_rest)

lemma load_chunks_rest: "load_chunks mj bs r = Inr (r', rest) \<Longrightarrow> length rest \<le> length bs"
proof (induction mj bs r rule: load_chunks.induct)
  case (1 mj bs r)
  show ?case
  proof (cases "bs \<noteq> [] \<and> hd bs = 0xff")
    case True
    with "1.prems" show ?thesis by (subst (asm) load_chunks.simps) auto
  next
    case False
    with "1.prems" obtain mn a bs' where st: "cbor_start bs = Inr (mj, mn, a, False, bs')"
      and a: "\<not> length bs' < unat a"
      and rec: "load_chunks mj (drop (unat a) bs') (r @ take (unat a) bs') = Inr (r', rest)"
      by (subst (asm) load_chunks.simps) (auto split: sum.splits if_splits)
    have "length rest \<le> length (drop (unat a) bs')"
      using False st a rec by (intro "1.IH" [OF False st refl refl refl refl]) auto
    with cbor_start_rest [OF st] show ?thesis by simp
  qed
qed

lemma load_string_rest: "load_string mj a i bs = Inr (r, rest) \<Longrightarrow> length rest \<le> length bs"
  by (auto simp: load_string_def split: if_splits dest: load_chunks_rest)

lemma next_item_rest: "next_item i a bs = (b, a', bs') \<Longrightarrow> length bs' \<le> length bs"
  by (auto simp: next_item_def split: if_splits)

lemma map_sum_Inr_iff: "map_sum f g x = Inr y \<longleftrightarrow> (\<exists>z. x = Inr z \<and> y = g z)"
  by (cases x) auto

text \<open>The ways in which the switch succeeds.\<close>

lemma load_switch_cases:
  assumes "load_switch utf8 items members bs = Some (Inr (n, rest))"
  obtains mj mn a i b c where "load_head bs = Inr (c, mj, mn, a, i, b)" "n = UInt64 a" "rest = b"
  | mj mn a i b c where "load_head bs = Inr (c, mj, mn, a, i, b)" "n = Int64 (- a - 1)" "rest = b"
  | mj mn a i b r where "load_head bs = Inr (True, mj, mn, a, i, b)"
      "load_string 2 a i b = Inr (r, rest)" "load_link r = Inr n"
  | mj mn a i b r where "load_head bs = Inr (False, mj, mn, a, i, b)"
      "load_string 2 a i b = Inr (r, rest)" "n = Bytes r"
  | mj mn a i b c r where "load_head bs = Inr (c, mj, mn, a, i, b)"
      "load_string 3 a i b = Inr (r, rest)" "utf8 (of_bytes r)" "n = String (of_bytes r)"
  | mj mn a i b c xs where "load_head bs = Inr (c, mj, mn, a, i, b)"
      "items i a b = Some (Inr (xs, rest))" "n = List xs"
  | mj mn a i b c ms where "load_head bs = Inr (c, mj, mn, a, i, b)"
      "members i a b = Some (Inr (ms, rest))" "n = Map ms"
  | mj mn a i b c where "load_head bs = Inr (c, mj, mn, a, i, b)" "load_simple mn a = Inr n" "rest = b"
proof -
  from assms obtain c mj mn a i b where h: "load_head bs = Inr (c, mj, mn, a, i, b)"
    by (auto simp: load_switch_def split: sum.splits)
  note sw = assms [unfolded load_switch_def h sum.case prod.case]
  consider "mj = 0" | "mj = 1" | "mj = 2" | "mj = 3" | "mj = 4" | "mj = 5" | "mj \<notin> {0, 1, 2, 3, 4, 5}"
    by blast
  then show thesis
  proof cases
    case 1 with sw h show thesis by (intro that(1)) auto
  next
    case 2 with sw h show thesis by (intro that(2)) (auto split: if_splits)
  next
    case 3
    with sw obtain r where r: "load_string 2 a i b = Inr (r, rest)"
        "if c then load_link r = Inr n else n = Bytes r"
      by (auto simp: map_sum_Inr_iff split: sum.splits if_splits)
    with h show thesis by (cases c) (auto intro: that(3,4))
  next
    case 4
    with sw h show thesis
      by (auto intro: that(5) split: sum.splits if_splits)
  next
    case 5 with sw h show thesis by (auto simp: and_then_Inr_iff intro: that(6))
  next
    case 6 with sw h show thesis by (auto simp: and_then_Inr_iff intro: that(7))
  next
    case 7 with sw h show thesis by (auto simp: map_sum_Inr_iff intro: that(8))
  qed
qed

text \<open>A successful call has consumed something.\<close>

lemma load_switch_rest:
  assumes "load_switch utf8 items members bs = Some (Inr (n, rest))"
    and "\<And>i a b xs r. items i a b = Some (Inr (xs, r)) \<Longrightarrow> length r \<le> length b"
    and "\<And>i a b ms r. members i a b = Some (Inr (ms, r)) \<Longrightarrow> length r \<le> length b"
  shows "length rest < length bs"
  using assms(1)
  by (rule load_switch_cases)
     (auto dest!: load_head_rest load_string_rest assms(2,3))

lemma load_rest:
  "load_cbor utf8 fuel bs = Some (Inr (n, rest)) \<Longrightarrow> length rest < length bs"
  "load_items utf8 fuel xs i a bs = Some (Inr (xs', rest)) \<Longrightarrow> length rest \<le> length bs"
  "load_members utf8 fuel ms i a bs = Some (Inr (ms', rest)) \<Longrightarrow> length rest \<le> length bs"
proof (induction fuel arbitrary: bs n rest xs i a xs' ms ms')
  case (Suc fuel)
  { case 1
    then show ?case using Suc.IH(2,3) by (auto elim!: load_switch_rest)
  next
    case 2
    obtain b a' bs' where nx: "next_item i a bs = (b, a', bs')" by (cases "next_item i a bs") auto
    from 2 next_item_rest [OF nx] show ?case
      by (auto simp: nx and_then_Inr_iff split: if_splits dest!: Suc.IH(1,2))
  next
    case 3
    obtain b a' bs' where nx: "next_item i a bs = (b, a', bs')" by (cases "next_item i a bs") auto
    from 3 next_item_rest [OF nx] show ?case
      by (auto simp: nx and_then_Inr_iff split: if_splits dest!: Suc.IH(1,3)) }
qed simp_all

lemma load_switch_None:
  assumes "load_switch utf8 items members bs = None"
  obtains b i a where "length b < length bs" "items i a b = None"
  | b i a where "length b < length bs" "members i a b = None"
proof -
  from assms obtain c mj mn a i b where h: "load_head bs = Inr (c, mj, mn, a, i, b)"
    by (auto simp: load_switch_def split: sum.splits)
  note sw = assms [unfolded load_switch_def h sum.case prod.case]
  from sw have "items i a b = None \<or> members i a b = None"
    by (auto simp: and_then_None_iff split: if_splits)
  with load_head_rest [OF h] that show thesis by blast
qed

text \<open>Twice the length of the input is enough fuel.\<close>

lemma load_enough:
  "2 * length bs < fuel \<Longrightarrow> load_cbor utf8 fuel bs \<noteq> None"
  "2 * length bs + 1 < fuel \<Longrightarrow> load_items utf8 fuel xs i a bs \<noteq> None"
  "2 * length bs + 1 < fuel \<Longrightarrow> load_members utf8 fuel ms i a bs \<noteq> None"
proof (induction fuel arbitrary: bs xs i a ms)
  case (Suc fuel)
  { case 1
    show ?case
    proof
      assume "load_cbor utf8 (Suc fuel) bs = None"
      then have "load_switch utf8 (load_items utf8 fuel []) (load_members utf8 fuel []) bs = None" by simp
      then show False
        by (rule load_switch_None) (use 1 Suc.IH(2,3) in \<open>auto simp del: not_None_eq\<close>)
    qed
  next
    case 2
    obtain b a' bs' where nx: "next_item i a bs = (b, a', bs')" by (cases "next_item i a bs") auto
    with next_item_rest [OF nx] 2 have len: "2 * length bs' < fuel" by simp
    have "load_items utf8 fuel (xs @ [n]) i a' r \<noteq> None" if "load_cbor utf8 fuel bs' = Some (Inr (n, r))" for n r
      using load_rest(1) [OF that] len by (intro Suc.IH(2)) simp
    with Suc.IH(1) [OF len] show ?case
      by (auto simp: nx and_then_None_iff simp del: not_None_eq)
  next
    case 3
    obtain b a' bs' where nx: "next_item i a bs = (b, a', bs')" by (cases "next_item i a bs") auto
    with next_item_rest [OF nx] 3 have len: "2 * length bs' < fuel" by simp
    have "load_cbor utf8 fuel r \<noteq> None \<and> (\<forall>v r'. load_cbor utf8 fuel r = Some (Inr (v, r')) \<longrightarrow>
            load_members utf8 fuel (fst (insert_or_assign ms k v)) i a' r' \<noteq> None)"
      if "load_cbor utf8 fuel bs' = Some (Inr (n, r))" for n r k
    proof (intro conjI allI impI)
      from load_rest(1) [OF that] len have r: "2 * length r + 1 < fuel" by simp
      then show "load_cbor utf8 fuel r \<noteq> None" by (intro Suc.IH(1)) simp
      fix v r'
      assume "load_cbor utf8 fuel r = Some (Inr (v, r'))"
      from load_rest(1) [OF this] r
      show "load_members utf8 fuel (fst (insert_or_assign ms k v)) i a' r' \<noteq> None"
        by (intro Suc.IH(3)) simp
    qed
    with Suc.IH(1) [OF len] show ?case
      by (auto simp: nx and_then_None_iff simp del: not_None_eq) }
qed simp_all

subsection \<open>Round trip\<close>

text \<open>What comes back: the same node, with nonnegative integers in their unsigned form.\<close>

fun cbor_norm :: "node \<Rightarrow> node"
and cbor_norm_items :: "node list \<Rightarrow> node list"
and cbor_norm_members :: "(string \<times> node) list \<Rightarrow> (string \<times> node) list" where
  "cbor_norm (Int64 v) = (if sint v < 0 then Int64 v else UInt64 v)"
| "cbor_norm (List xs) = List (cbor_norm_items xs)"
| "cbor_norm (Map ms) = Map (cbor_norm_members ms)"
| "cbor_norm n = n"
| "cbor_norm_items [] = []"
| "cbor_norm_items (x # xs) = cbor_norm x # cbor_norm_items xs"
| "cbor_norm_members [] = []"
| "cbor_norm_members ((k, v) # ms) = (k, cbor_norm v) # cbor_norm_members ms"

lemma load_head_bytes:
  assumes "major_type < 8" and "major_type \<noteq> 6"
  obtains minor_type where
    "load_head (head_bytes major_type argument 0 @ rest) = Inr (False, major_type, minor_type, argument, False, rest)"
    "unat argument < 24 \<Longrightarrow> minor_type = unat argument"
proof (rule cbor_start_head [OF assms(1), of argument rest])
  fix minor_type
  assume "cbor_start (head_bytes major_type argument 0 @ rest) = Inr (major_type, minor_type, argument, False, rest)"
    and "unat argument < 24 \<Longrightarrow> minor_type = unat argument"
  with assms(2) show thesis by (intro that [of minor_type]) (simp_all add: load_head_def)
qed

lemma load_head_27:
  "load_head (head_bytes 7 argument 27 @ rest) = Inr (False, 7, 27, argument, False, rest)"
  by (simp add: load_head_def cbor_start_head_27)

lemma load_head_link:
  obtains minor_type where
    "load_head (head_bytes 6 42 0 @ head_bytes 2 argument 0 @ rest) = Inr (True, 2, minor_type, argument, False, rest)"
proof -
  obtain mn where "cbor_start (head_bytes 6 42 0 @ head_bytes 2 argument 0 @ rest)
      = Inr (6, mn, 42, False, head_bytes 2 argument 0 @ rest)"
    using cbor_start_head [of 6 42 "head_bytes 2 argument 0 @ rest"] by auto
  moreover obtain mn' where "cbor_start (head_bytes 2 argument 0 @ rest) = Inr (2, mn', argument, False, rest)"
    using cbor_start_head [of 2 argument rest] by auto
  ultimately show thesis
    using that by (simp add: load_head_def)
qed

lemma unat_of_nat_u64: "n < 2 ^ 64 \<Longrightarrow> unat (of_nat n :: u64) = n"
  by (simp add: unat_of_nat)

lemma load_string_definite:
  "length bs < 2 ^ 64 \<Longrightarrow> load_string mj (of_nat (length bs)) False (bs @ rest) = Inr (bs, rest)"
  by (simp add: load_string_def unat_of_nat_u64)

lemma load_Suc_string:
  assumes "length s < 2 ^ 64" and "utf8 s"
  shows "load_cbor utf8 (Suc fuel) (head_bytes 3 (of_nat (length s)) 0 @ to_bytes s @ rest)
       = Some (Inr (String s, rest))"
proof -
  obtain mn where "load_head (head_bytes 3 (of_nat (length s)) 0 @ to_bytes s @ rest)
      = Inr (False, 3, mn, of_nat (length s), False, to_bytes s @ rest)"
    using load_head_bytes [of 3 "of_nat (length s)" "to_bytes s @ rest"] by auto
  then show ?thesis
    using load_string_definite [of "to_bytes s" 3 rest] assms
    by (simp add: load_switch_def)
qed

lemma load_Suc_bytes:
  assumes "length bs < 2 ^ 64"
  shows "load_cbor utf8 (Suc fuel) (head_bytes 2 (of_nat (length bs)) 0 @ bs @ rest)
       = Some (Inr (Bytes bs, rest))"
proof -
  obtain mn where "load_head (head_bytes 2 (of_nat (length bs)) 0 @ bs @ rest)
      = Inr (False, 2, mn, of_nat (length bs), False, bs @ rest)"
    using load_head_bytes [of 2 "of_nat (length bs)" "bs @ rest"] by auto
  then show ?thesis
    using load_string_definite [OF assms, of 2 rest] by (simp add: load_switch_def)
qed

lemma load_Suc_link:
  assumes "wf_cid c"
  shows "load_cbor utf8 (Suc fuel) (cbor (Link c) @ rest) = Some (Inr (Link c, rest))"
proof -
  let ?bs = "0 # cid_Bytes c"
  have len: "length ?bs < 2 ^ 64" using wf_cid_length [OF assms] by simp
  have arg: "of_nat (length (cid_Bytes c)) + 1 = (of_nat (length ?bs) :: u64)" by simp
  obtain mn where "load_head (cbor (Link c) @ rest) = Inr (True, 2, mn, of_nat (length ?bs), False, ?bs @ rest)"
    using load_head_link [of "of_nat (length ?bs)" "?bs @ rest"] unfolding cbor.simps arg by auto
  then show ?thesis
    using load_string_definite [OF len, of 2 rest] cid_fromBytes_wf [OF assms]
    by (simp add: load_switch_def load_link_def)
qed

lemma load_Suc_scalar:
  "load_cbor utf8 (Suc fuel) (cbor Null @ rest) = Some (Inr (Null, rest))"
  "load_cbor utf8 (Suc fuel) (cbor (Boolean b) @ rest) = Some (Inr (Boolean b, rest))"
  "load_cbor utf8 (Suc fuel) (cbor (UInt64 v) @ rest) = Some (Inr (UInt64 v, rest))"
proof -
  show "load_cbor utf8 (Suc fuel) (cbor Null @ rest) = Some (Inr (Null, rest))"
    by (rule load_head_bytes [of 7 22 rest]) (auto simp: load_switch_def load_simple_def)
  show "load_cbor utf8 (Suc fuel) (cbor (Boolean b) @ rest) = Some (Inr (Boolean b, rest))"
    by (rule load_head_bytes [of 7 "if b then 21 else 20" rest]) (auto simp: load_switch_def load_simple_def)
  show "load_cbor utf8 (Suc fuel) (cbor (UInt64 v) @ rest) = Some (Inr (UInt64 v, rest))"
    by (rule load_head_bytes [of 0 v rest]) (auto simp: load_switch_def)
qed

lemma load_Suc_Int64:
  "load_cbor utf8 (Suc fuel) (cbor (Int64 v) @ rest) = Some (Inr (cbor_norm (Int64 v), rest))"
proof (cases "sint v < 0")
  case True
  define k where "k = - (sint v + 1)"
  have k: "0 \<le> k" "k < 2 ^ 63" using True sint_u64_bounds [of v] by (simp_all add: k_def)
  have arg: "- (v + 1) = of_int k" by (simp add: k_def)
  have "uint (of_int k :: u64) = k" using k by (simp add: uint_word_of_int)
  with k have "\<not> of_int (2 ^ 63 - 1) < (of_int k :: u64)" by (simp add: word_less_def)
  moreover have "- of_int k - 1 = v" by (simp add: k_def)
  ultimately have "load_switch utf8 items members (head_bytes 1 (of_int k) 0 @ rest) = Some (Inr (Int64 v, rest))"
    for items members
    by (rule_tac load_head_bytes [of 1 "of_int k" rest]) (simp_all add: load_switch_def del: of_int_diff)
  with True show ?thesis by (simp only: cbor.simps cbor_norm.simps if_True arg load_cbor.simps)
next
  case False
  then show ?thesis
    using load_Suc_scalar(3) [of utf8 fuel v rest] by simp
qed

lemma load_Suc_Float:
  "wf_double d \<Longrightarrow> load_cbor utf8 (Suc fuel) (cbor (Float d) @ rest) = Some (Inr (Float d, rest))"
  using decode_encode_float [of d] by (simp add: load_switch_def load_head_27 load_simple_def)

lemma cbor_norm_keys: "map fst (cbor_norm_members ms) = map fst ms"
proof (induction ms)
  case (Cons kv ms)
  then show ?case by (cases kv) simp
qed simp

lemma length_cbor_pos: "length (cbor n) \<ge> 1"
  using head_bytes_nonempty by (cases n) (auto simp: Suc_le_eq intro: trans_less_add1)

lemma next_item_Suc: "Suc n < 2 ^ 64 \<Longrightarrow> next_item False (of_nat (Suc n)) bs = (True, of_nat n, bs)"
  using unat_of_nat_u64 [of "Suc n"]
  by (simp add: next_item_def word_less_nat_alt del: of_nat_Suc) simp

lemma load_scalar:
  assumes "wf_node utf8 n" and "0 < fuel" and "kind n \<noteq> KList" and "kind n \<noteq> KMap"
  shows "load_cbor utf8 fuel (cbor n @ rest) = Some (Inr (cbor_norm n, rest))"
proof -
  from assms(2) obtain f where "fuel = Suc f" by (cases fuel) auto
  with assms show ?thesis
    using load_Suc_scalar [of utf8 f] load_Suc_Int64 [of utf8 f] load_Suc_Float [of _ utf8 f]
      load_Suc_link [of _ utf8 f] load_Suc_bytes [of _ utf8 f] load_Suc_string [of _ utf8 f]
    by (cases n) (simp_all only: kind.simps wf_node.simps cbor_norm.simps simp_thms
        cbor.simps(6,7) append_assoc)
qed

lemma load_cbor_roundtrip:
  "wf_node utf8 n \<Longrightarrow> 2 * length (cbor n) < fuel \<Longrightarrow>
   load_cbor utf8 fuel (cbor n @ rest) = Some (Inr (cbor_norm n, rest))"
  "wf_items utf8 xs \<Longrightarrow> length xs < 2 ^ 64 \<Longrightarrow> 2 * length (cbor_items xs) + 1 < fuel \<Longrightarrow>
   load_items utf8 fuel acc False (of_nat (length xs)) (cbor_items xs @ rest)
     = Some (Inr (acc @ cbor_norm_items xs, rest))"
  "wf_members utf8 ms \<Longrightarrow> length ms < 2 ^ 64 \<Longrightarrow> nm_sorted (macc @ cbor_norm_members ms) \<Longrightarrow>
   2 * length (cbor_members ms) + 1 < fuel \<Longrightarrow>
   load_members utf8 fuel macc False (of_nat (length ms)) (cbor_members ms @ rest)
     = Some (Inr (macc @ cbor_norm_members ms, rest))"
proof (induction n and xs and ms arbitrary: fuel rest and acc fuel rest and macc fuel rest
    rule: cbor_norm_cbor_norm_items_cbor_norm_members.induct)
  case (2 xs)
  from 2 obtain f where f: "fuel = Suc f" by (cases fuel) auto
  have len: "2 * length (cbor_items xs) + 1 < f"
    using 2 f head_bytes_nonempty [of 4 "of_nat (length xs)" 0] by simp
  obtain mn where "load_head (cbor (List xs) @ rest) = Inr (False, 4, mn, of_nat (length xs), False, cbor_items xs @ rest)"
    using load_head_bytes [of 4 "of_nat (length xs)" "cbor_items xs @ rest"] by auto
  with 2 len show ?case
    by (simp add: f load_switch_def)
next
  case (3 ms)
  from 3 obtain f where f: "fuel = Suc f" by (cases fuel) auto
  have len: "2 * length (cbor_members ms) + 1 < f"
    using 3 f head_bytes_nonempty [of 5 "of_nat (length ms)" 0] by simp
  have "nm_sorted (cbor_norm_members ms)"
    using 3 by (simp add: nm_sorted_def cbor_norm_keys)
  moreover obtain mn where "load_head (cbor (Map ms) @ rest) = Inr (False, 5, mn, of_nat (length ms), False, cbor_members ms @ rest)"
    using load_head_bytes [of 5 "of_nat (length ms)" "cbor_members ms @ rest"] by auto
  ultimately show ?case
    using 3 len by (simp add: f load_switch_def)
next
  case 5
  then show ?case by (cases fuel) (simp_all add: next_item_def)
next
  case (6 x xs)
  then obtain f where f: "fuel = Suc f" by (cases fuel) auto
  have n: "next_item False (of_nat (Suc (length xs))) bs = (True, of_nat (length xs), bs)" for bs
    using 6 by (intro next_item_Suc) simp
  have "2 * length (cbor x) < f" "2 * length (cbor_items xs) + 1 < f"
    using 6 f length_cbor_pos [of x] by simp_all
  with 6 show ?case by (simp add: f n del: of_nat_Suc)
next
  case 7
  then show ?case by (cases fuel) (simp_all add: next_item_def)
next
  case (8 k v ms)
  then obtain f where f: "fuel = Suc f" by (cases fuel) auto
  have n: "next_item False (of_nat (Suc (length ms))) bs = (True, of_nat (length ms), bs)" for bs
    using 8 by (intro next_item_Suc) simp
  have lens: "2 * length (cbor v) < f" "2 * length (cbor_members ms) + 1 < f"
    using 8 f length_cbor_pos [of v] by simp_all
  then obtain f' where f': "f = Suc f'" by (cases f) auto
  have key: "load_cbor utf8 f (head_bytes 3 (of_nat (length k)) 0 @ to_bytes k @ r) = Some (Inr (String k, r))" for r
    unfolding f' using 8 by (intro load_Suc_string) simp_all
  have ins: "fst (insert_or_assign macc k (cbor_norm v)) = macc @ [(k, cbor_norm v)]"
    using 8 by (intro insert_or_assign_last) (auto simp: nm_sorted_append)
  from 8 lens key ins n show ?case
    by (simp add: f as_key_def del: of_nat_Suc)
qed (rule load_scalar; simp)+

lemma loadFromCBORSequence_saved:
  "wf_node utf8 n \<Longrightarrow> loadFromCBORSequence utf8 (cbor n @ rest) = Inr (cbor_norm n, rest)"
  using load_cbor_roundtrip(1) [of utf8 n "Suc (2 * length (cbor n @ rest))" rest]
  by (simp add: loadFromCBORSequence_def del: load_cbor.simps)

lemma loadFromCBOR_saved: "wf_node utf8 n \<Longrightarrow> loadFromCBOR utf8 (cbor n) = Inr (cbor_norm n)"
  using loadFromCBORSequence_saved [of utf8 n "[]"] by (simp add: loadFromCBOR_def)

lemma cbor_norm_idem:
  "cbor (cbor_norm n) = cbor n" "cbor_items (cbor_norm_items xs) = cbor_items xs"
  "cbor_members (cbor_norm_members ms) = cbor_members ms"
proof (induction n and xs and ms rule: cbor_norm_cbor_norm_items_cbor_norm_members.induct)
  case (2 xs)
  moreover have "length (cbor_norm_items xs) = length xs" by (induction xs) simp_all
  ultimately show ?case by simp
next
  case (3 ms)
  moreover have "length (cbor_norm_members ms) = length ms"
    using arg_cong [OF cbor_norm_keys, of length ms] by simp
  ultimately show ?case by simp
qed simp_all

text \<open>The nodes that are their own normal form, on which the decoder inverts the encoder.\<close>

definition wf_normal :: "(string \<Rightarrow> bool) \<Rightarrow> node \<Rightarrow> bool" where
  "wf_normal utf8 n \<longleftrightarrow> wf_node utf8 n \<and> cbor_norm n = n"

interpretation cbor_codec: seq_codec saveAsCBOR
  "\<lambda>bs. case loadFromCBORSequence utf8 bs of Inl _ \<Rightarrow> None | Inr r \<Rightarrow> Some r" "wf_normal utf8" for utf8
proof unfold_locales
  fix n and rest :: bytes
  assume n: "wf_normal utf8 n"
  then show "(case loadFromCBORSequence utf8 (saveAsCBOR n @ rest) of Inl _ \<Rightarrow> None | Inr r \<Rightarrow> Some r) = Some (n, rest)"
    using loadFromCBORSequence_saved [of utf8 n rest] by (simp add: saveAsCBOR_cbor wf_normal_def)
  show "saveAsCBOR n \<noteq> []"
    using length_cbor_pos [of n] by (auto simp: saveAsCBOR_cbor)
qed

text \<open>
  C4: loading what \<^verbatim>\<open>saveAsCBOR\<close> wrote, followed by any other bytes, gives the node back
  and leaves these bytes. Only the representation of nonnegative integers changes, to the
  unsigned one, and saving the loaded node writes the same bytes again.
\<close>

theorem cbor_roundtrip:
  assumes "wf_node utf8 n"
  shows "loadFromCBORSequence utf8 (saveAsCBOR n @ rest) = Inr (cbor_norm n, rest)
    \<and> saveAsCBOR (cbor_norm n) = saveAsCBOR n"
  using loadFromCBORSequence_saved [OF assms] by (simp add: saveAsCBOR_cbor cbor_norm_idem)

theorem cbor_roundtrip_witness:
  "loadFromCBORSequence (\<lambda>_. True) (saveAsCBOR (List [Int64 7, String ''a'']) @ [0])
     = Inr (List [UInt64 7, String ''a''], [0])"
proof -
  have "wf_node (\<lambda>_. True) (List [Int64 7, String ''a''])" by simp
  from cbor_roundtrip [OF this, of "[0]"] show ?thesis by simp
qed

text \<open>
  C7: the decoder terminates on every input: the nesting and the loops, also those of
  indefinite length, never need more steps than twice the number of input bytes.
\<close>

theorem load_cbor_terminates: "\<exists>r. load_cbor utf8 (Suc (2 * length bs)) bs = Some r"
  using load_enough(1) [of bs "Suc (2 * length bs)" utf8] by blast

text \<open>
  C17: the flags of the encoder are right: the output is announced as DAG-CBOR if and only
  if no integer exceeds the signed range and no number is infinite or NaN, and links are
  announced if and only if the node has one.
\<close>

theorem cbor_flags:
  "(isValidDAGCBOR (visitNode cbor_visitor n cbor_init) \<longleftrightarrow> dag_ok n)
   \<and> (has_links (visitNode cbor_visitor n cbor_init) \<longleftrightarrow> eachLink n \<noteq> [])"
  by (simp add: isValidDAGCBOR_def visitNode_cbor after_def cbor_init_def)

subsection \<open>Shortest heads\<close>

lemma cbor_start_argument:
  assumes "cbor_start bs = Inr (mj, mn, a, False, rest)"
  shows "mn < 24 \<and> length bs = Suc (length rest) \<and> unat a < 24
       \<or> (\<exists>k < 4. mn = 24 + k \<and> length bs = Suc (2 ^ k + length rest) \<and> unat a < 256 ^ (2 ^ k))"
proof -
  from assms obtain b bs' where bs: "bs = b # bs'" by (cases bs) (auto simp: cbor_start_def)
  let ?m = "unat (b AND 0x1f)"
  show ?thesis
  proof (cases "?m < 24")
    case True
    with assms show ?thesis by (auto simp: bs cbor_start_def Let_def unat_ucast_u8)
  next
    case False
    let ?n = "2 ^ (?m - 24) :: nat"
    from False assms have m: "?m < 28" and mn: "mn = ?m" and len: "?n \<le> length bs'"
      and a: "a = foldl (\<lambda>a b. push_bit 8 a OR ucast b) 0 (take ?n bs')" and rest: "rest = drop ?n bs'"
      by (auto simp: bs cbor_start_def Let_def split: if_splits)
    define k where "k = ?m - 24"
    have k: "k < 4" "?m = 24 + k" using m False by (simp_all add: k_def)
    have "(2 :: nat) ^ k \<le> 2 ^ 3" using k(1) by (intro power_increasing) auto
    then have "length (take ?n bs') \<le> 8" by (simp add: k_def)
    then have "unat a = be_val (take ?n bs')" unfolding a by (rule foldl_be_val)
    then have "unat a < 256 ^ (2 ^ k)"
      using be_val_bound [of "take ?n bs'"] len by (simp add: k_def)
    moreover have "length bs = Suc (2 ^ k + length rest)"
      using len rest by (simp add: bs k_def)
    moreover have "mn = 24 + k" using mn k(2) by simp
    ultimately show ?thesis using k(1) by blast
  qed
qed

text \<open>
  C18: without a forced size, \<^verbatim>\<open>encodeHead\<close> writes a head that is read back as its major type
  and argument, whatever follows it, and it is the shortest one: any bytes that are read as
  the same major type and argument are at least as long.
\<close>

theorem head_bytes_shortest:
  assumes "major_type < 8"
  shows "(\<exists>minor_type. cbor_start (head_bytes major_type argument 0 @ rest) = Inr (major_type, minor_type, argument, False, rest))
    \<and> (\<forall>bs minor_type. cbor_start (bs @ rest) = Inr (major_type, minor_type, argument, False, rest)
         \<longrightarrow> length (head_bytes major_type argument 0) \<le> length bs)"
proof (intro conjI allI impI)
  show "\<exists>minor_type. cbor_start (head_bytes major_type argument 0 @ rest) = Inr (major_type, minor_type, argument, False, rest)"
    using cbor_start_head [OF assms] by metis
  fix bs minor_type
  assume st: "cbor_start (bs @ rest) = Inr (major_type, minor_type, argument, False, rest)"
  have len: "length (head_bytes major_type argument 0) =
      (if unat argument < 24 then 1 else if unat argument < 256 then 2
       else if unat argument < 65536 then 3 else if unat argument < 4294967296 then 5 else 9)"
    by (simp add: head_bytes_def Let_def word_less_nat_alt)
  from cbor_start_argument [OF st]
  show "length (head_bytes major_type argument 0) \<le> length bs"
  proof
    assume "\<exists>k < 4. minor_type = 24 + k \<and> length (bs @ rest) = Suc (2 ^ k + length rest) \<and> unat argument < 256 ^ (2 ^ k)"
    then obtain k where k: "k < 4" "length bs = Suc (2 ^ k)" "unat argument < 256 ^ (2 ^ k)" by auto
    then have "k = 0 \<or> k = 1 \<or> k = 2 \<or> k = 3" by linarith
    with k show ?thesis unfolding len by (elim disjE) simp_all
  qed (simp add: len)
qed

theorem head_bytes_shortest_witness:
  "cbor_start ([0x19, 0, 5] @ [7]) = Inr (0, 25, 5, False, [7])
   \<and> (\<exists>minor_type. cbor_start (head_bytes 0 5 0 @ [7]) = Inr (0, minor_type, 5, False, [7]))
   \<and> length (head_bytes 0 5 0) \<le> length [0x19 :: u8, 0, 5]"
proof -
  have st: "cbor_start ([0x19, 0, 5] @ [7]) = Inr (0, 25, 5, False, [7])" by code_simp
  have h: "(0 :: nat) < 8" by simp
  show ?thesis using head_bytes_shortest [OF h, of 5 "[7]"] st by blast
qed

subsection \<open>Loaded nodes are well formed\<close>

lemma load_chunks_length:
  "load_chunks mj bs r = Inr (r', rest) \<Longrightarrow> length r' + length rest \<le> length r + length bs"
proof (induction mj bs r rule: load_chunks.induct)
  case (1 mj bs r)
  show ?case
  proof (cases "bs \<noteq> [] \<and> hd bs = 0xff")
    case True
    with "1.prems" show ?thesis by (subst (asm) load_chunks.simps) auto
  next
    case False
    with "1.prems" obtain mn a bs' where st: "cbor_start bs = Inr (mj, mn, a, False, bs')"
      and a: "\<not> length bs' < unat a"
      and rec: "load_chunks mj (drop (unat a) bs') (r @ take (unat a) bs') = Inr (r', rest)"
      by (subst (asm) load_chunks.simps) (auto split: sum.splits if_splits)
    have "length r' + length rest \<le> length (r @ take (unat a) bs') + length (drop (unat a) bs')"
      using False st a rec by (intro "1.IH" [OF False st refl refl refl refl]) auto
    with cbor_start_rest [OF st] a show ?thesis by simp
  qed
qed

lemma load_string_length: "load_string mj a i bs = Inr (r, rest) \<Longrightarrow> length r + length rest \<le> length bs"
  by (auto simp: load_string_def split: if_splits dest: load_chunks_length)

lemma load_link_wf: "load_link r = Inr n \<Longrightarrow> wf_node utf8 n"
  by (auto simp: load_link_def split: if_splits option.splits dest: cid_fromBytes_cases)

lemma load_simple_wf: "load_simple mn a = Inr n \<Longrightarrow> wf_node utf8 n"
  by (auto simp: load_simple_def wf_decode_float split: if_splits)

lemma load_wf:
  "load_cbor utf8 fuel bs = Some (Inr (n, rest)) \<Longrightarrow> length bs < 2 ^ 64 \<Longrightarrow> wf_node utf8 n"
  "load_items utf8 fuel xs i a bs = Some (Inr (xs', rest)) \<Longrightarrow> wf_items utf8 xs \<Longrightarrow>
     length xs + length bs < 2 ^ 64 \<Longrightarrow> wf_node utf8 (List xs')"
  "load_members utf8 fuel ms i a bs = Some (Inr (ms', rest)) \<Longrightarrow> wf_node utf8 (Map ms) \<Longrightarrow>
     length ms + length bs < 2 ^ 64 \<Longrightarrow> wf_node utf8 (Map ms')"
proof (induction fuel arbitrary: bs n rest xs i a xs' ms ms')
  case (Suc fuel)
  { case 1
    then have "load_switch utf8 (load_items utf8 fuel []) (load_members utf8 fuel []) bs = Some (Inr (n, rest))"
      by simp
    then show ?case
    proof (cases rule: load_switch_cases)
      case (6 mj mn a i b c xs)
      with load_head_rest [OF 6(1)] Suc.IH(2) [OF 6(2)] 1 show ?thesis by simp
    next
      case (7 mj mn a i b c ms)
      with load_head_rest [OF 7(1)] Suc.IH(3) [OF 7(2)] 1 show ?thesis by simp
    qed (use 1 in \<open>auto simp: load_link_wf load_simple_wf dest!: load_head_rest load_string_length\<close>)
  next
    case 2
    obtain b a' bs' where nx: "next_item i a bs = (b, a', bs')" by (cases "next_item i a bs") auto
    note len = next_item_rest [OF nx]
    show ?case
    proof (cases b)
      case True
      with 2 nx obtain x r where x: "load_cbor utf8 fuel bs' = Some (Inr (x, r))"
        and rec: "load_items utf8 fuel (xs @ [x]) i a' r = Some (Inr (xs', rest))"
        by (auto simp: and_then_Inr_iff)
      have "wf_node utf8 x" using 2 len by (intro Suc.IH(1) [OF x]) simp
      then show ?thesis
        using 2 len load_rest(1) [OF x] by (intro Suc.IH(2) [OF rec]) (auto simp: wf_items_iff)
    qed (use 2 nx in simp)
  next
    case 3
    obtain b a' bs' where nx: "next_item i a bs = (b, a', bs')" by (cases "next_item i a bs") auto
    note len = next_item_rest [OF nx]
    show ?case
    proof (cases b)
      case True
      with 3 nx obtain kn r k v r' where kn: "load_cbor utf8 fuel bs' = Some (Inr (kn, r))" "as_key kn = Inr k"
        and v: "load_cbor utf8 fuel r = Some (Inr (v, r'))"
        and rec: "load_members utf8 fuel (fst (insert_or_assign ms k v)) i a' r' = Some (Inr (ms', rest))"
        by (auto simp: and_then_Inr_iff)
      have k: "kn = String k" using kn(2) by (auto simp: as_key_def split: node.splits)
      have "wf_node utf8 kn" "wf_node utf8 v"
        using 3 len load_rest(1) [OF kn(1)] Suc.IH(1) [OF kn(1)] Suc.IH(1) [OF v] by auto
      then have "wf_node utf8 (Map (fst (insert_or_assign ms k v)))"
        using 3 len k load_rest(1) [OF kn(1)] by (intro wf_insert_or_assign) auto
      then show ?thesis
        using 3 len load_rest(1) [OF kn(1)] load_rest(1) [OF v] length_insert_or_assign [of ms k v]
        by (intro Suc.IH(3) [OF rec]) auto
    qed (use 3 nx in simp) }
qed simp_all

lemma loadFromCBORSequence_wf:
  assumes "loadFromCBORSequence utf8 bs = Inr (n, rest)" and "length bs < 2 ^ 64"
  shows "wf_node utf8 n"
proof -
  obtain r where "load_cbor utf8 (Suc (2 * length bs)) bs = Some r"
    using load_enough(1) [of bs "Suc (2 * length bs)" utf8] by auto
  with assms(1) have "load_cbor utf8 (Suc (2 * length bs)) bs = Some (Inr (n, rest))"
    by (simp add: loadFromCBORSequence_def del: load_cbor.simps)
  from load_wf(1) [OF this assms(2)] show ?thesis .
qed

text \<open>
  C8: whatever the CBOR decoder accepts is a well-formed node (legal UTF-8, sorted maps
  without duplicate keys, canonical identifiers and doubles), even when the input has
  unsorted or repeated keys, long heads or indefinite lengths; loading the re-encoded
  node gives its normal form, so a second round changes nothing.
\<close>

theorem load_cbor_wf:
  assumes "loadFromCBORSequence utf8 bs = Inr (n, rest)" and "length bs < 2 ^ 64"
  shows "wf_node utf8 n \<and> loadFromCBOR utf8 (saveAsCBOR n) = Inr (cbor_norm n)"
  using loadFromCBORSequence_wf [OF assms] loadFromCBOR_saved [of utf8 n]
  by (simp add: saveAsCBOR_cbor)

theorem load_cbor_wf_witness:
  "wf_node (\<lambda>_. True) (Map [(''a'', UInt64 2), (''b'', UInt64 1)])"
proof -
  have "loadFromCBORSequence (\<lambda>_. True) [0xbf, 0x61, 0x62, 0x01, 0x61, 0x61, 0x02, 0xff]
      = Inr (Map [(''a'', UInt64 2), (''b'', UInt64 1)], [])"
    by code_simp
  from load_cbor_wf [OF this] show ?thesis by simp
qed

subsection \<open>IPLD blocks\<close>

lemma saveAsIPLD_cases:
  "saveAsIPLD blake2b noIdentity n =
     (let content = (case n of Bytes bs \<Rightarrow> bs | _ \<Rightarrow> cbor n);
          codec = (case n of Bytes bs \<Rightarrow> Raw | _ \<Rightarrow> if dag_ok n then DAG_CBOR else DAG_CBOR_Unrestricted);
          Ref = calculate blake2b codec content (if noIdentity then Some Blake2b_256 else None)
      in (Ref, if isIdentity Ref then [] else content))"
  unfolding saveAsIPLD_def Let_def isValidDAGCBOR_iff saveAsCBOR_def [symmetric] saveAsCBOR_cbor
  by (cases n) (simp_all del: cbor.simps dag_ok.simps)

lemma calculate_fields:
  "ContentType (calculate blake2b ct Content ht) = ct"
  "isIdentity (calculate blake2b ct Content ht) \<Longrightarrow> getHashBytes (calculate blake2b ct Content ht) = Content"
  by (auto simp: calculate_def Let_def isIdentity_def split: if_splits)

lemma codec_supported:
  "content_supported (case n of Bytes bs \<Rightarrow> Raw | _ \<Rightarrow> if dag_ok n then DAG_CBOR else DAG_CBOR_Unrestricted)"
  by (auto simp: content_supported_def split: node.splits)

text \<open>The size of the content that is hashed.\<close>

definition content_size :: "node \<Rightarrow> nat" where
  "content_size n = (case n of Bytes bs \<Rightarrow> length bs | _ \<Rightarrow> length (saveAsCBOR n))"

lemma saveAsIPLD_roundtrip:
  assumes "wf_node utf8 n" and "saveAsIPLD blake2b noIdentity n = (c, content)"
  shows "loadFromIPLD utf8 c content = Inr (cbor_norm n)"
proof (cases "\<exists>bs. n = Bytes bs")
  case True
  then show ?thesis
    using assms by (auto simp: saveAsIPLD_cases loadFromIPLD_def Let_def calculate_fields split: if_splits)
next
  case False
  then have "(case n of Bytes bs \<Rightarrow> bs | _ \<Rightarrow> cbor n) = cbor n" and
    "(case n of Bytes bs \<Rightarrow> Raw | _ \<Rightarrow> if dag_ok n then DAG_CBOR else DAG_CBOR_Unrestricted) \<in> {DAG_CBOR, DAG_CBOR_Unrestricted}"
    by (auto split: node.splits)
  then show ?thesis
    using assms loadFromCBOR_saved [OF assms(1)]
    by (auto simp: saveAsIPLD_cases loadFromIPLD_def Let_def calculate_fields split: if_splits)
qed

lemma saveAsIPLD_cid:
  assumes "\<forall>bs. length (blake2b bs) = 32" and "content_size n < 2 ^ 63"
    and "saveAsIPLD blake2b noIdentity n = (c, content)"
  shows "wf_cid c" and "isIdentity c \<longleftrightarrow> \<not> noIdentity \<and> content_size n \<le> 34"
proof -
  have size: "length (case n of Bytes bs \<Rightarrow> bs | _ \<Rightarrow> cbor n) = content_size n"
    by (cases n) (simp_all add: content_size_def saveAsCBOR_cbor)
  have c: "c = calculate blake2b
      (case n of Bytes bs \<Rightarrow> Raw | _ \<Rightarrow> if dag_ok n then DAG_CBOR else DAG_CBOR_Unrestricted)
      (case n of Bytes bs \<Rightarrow> bs | _ \<Rightarrow> cbor n) (if noIdentity then Some Blake2b_256 else None)"
    using assms(3) by (simp add: saveAsIPLD_cases Let_def)
  show "wf_cid c"
    unfolding c by (rule wf_calculate [OF codec_supported]) (use assms(1,2) size in simp_all)
  show "isIdentity c \<longleftrightarrow> \<not> noIdentity \<and> content_size n \<le> 34"
    unfolding c by (simp add: calculate_def Let_def isIdentity_def default_hash_def size)
qed

text \<open>
  C5: saving a node as an IPLD block and loading the block gives the (normalised) node
  back, through an identity identifier or through the content; the identifier is well
  formed; and with \<^verbatim>\<open>noIdentity\<close>, or for content of more than 34 bytes, it is never an
  identity identifier. \<open>blake2b\<close> is only assumed to give 32 bytes.
\<close>

theorem ipld_roundtrip:
  assumes "\<forall>bs. length (blake2b bs) = 32" and "wf_node utf8 n" and "content_size n < 2 ^ 63"
    and "saveAsIPLD blake2b noIdentity n = (c, content)"
  shows "loadFromIPLD utf8 c content = Inr (cbor_norm n) \<and> wf_cid c
    \<and> (isIdentity c \<longleftrightarrow> \<not> noIdentity \<and> content_size n \<le> 34)"
  using saveAsIPLD_roundtrip [OF assms(2,4)] saveAsIPLD_cid [OF assms(1,3,4)] by blast

theorem ipld_roundtrip_witness:
  "\<exists>blake2b c content. saveAsIPLD blake2b False (List [Int64 7]) = (c, content)
     \<and> loadFromIPLD (\<lambda>_. True) c content = Inr (List [UInt64 7]) \<and> isIdentity c"
proof -
  let ?h = "\<lambda>bs :: bytes. replicate 32 0 :: bytes"
  obtain c content where s: "saveAsIPLD ?h False (List [Int64 7]) = (c, content)" by fastforce
  have len: "length (saveAsCBOR (List [Int64 7])) = 2" by code_simp
  from ipld_roundtrip [OF _ _ _ s, of "\<lambda>_. True"] have "loadFromIPLD (\<lambda>_. True) c content = Inr (List [UInt64 7]) \<and> isIdentity c"
    by (simp add: content_size_def len)
  with s show ?thesis by blast
qed

text \<open>
  an identifier together with the block content determines the saved node up to the
  normal form of integers; for an identity identifier the identifier alone does.
\<close>

theorem ipld_injective:
  assumes "wf_node utf8 n" and "wf_node utf8 m"
    and "saveAsIPLD blake2b b n = (c, content)" and "saveAsIPLD blake2b b' m = (c, content')"
    and "isIdentity c \<or> content = content'"
  shows "cbor_norm n = cbor_norm m"
proof -
  have "content = content'"
    using assms(3-5) by (auto simp: saveAsIPLD_cases Let_def)
  then show ?thesis
    using saveAsIPLD_roundtrip [OF assms(1,3)] saveAsIPLD_roundtrip [OF assms(2,4)] by simp
qed

theorem ipld_injective_witness:
  "cbor_norm (Int64 1) = cbor_norm (UInt64 1)"
proof -
  let ?h = "\<lambda>bs :: bytes. replicate 32 0 :: bytes"
  obtain c content where s: "saveAsIPLD ?h False (Int64 1) = (c, content)" by fastforce
  have "cbor (Int64 1) = cbor (UInt64 1)" and "dag_ok (Int64 1) = dag_ok (UInt64 1)" by simp_all
  then have t: "saveAsIPLD ?h False (UInt64 1) = (c, content)"
    using s by (simp only: saveAsIPLD_cases node.case)
  from ipld_injective [of "\<lambda>_. True", OF _ _ s t] show ?thesis by simp
qed


subsection \<open>Facts the stores use\<close>

lemma saveAsIPLD_content:
  assumes "saveAsIPLD blake2b noIdentity n = (c, content)"
  shows "isIdentity c \<Longrightarrow> content = []"
    and "\<not> isIdentity c \<Longrightarrow> content = (case n of Bytes bs \<Rightarrow> bs | _ \<Rightarrow> cbor n)"
  using assms by (auto simp: saveAsIPLD_cases Let_def)

lemma saveAsIPLD_empty:
  assumes "saveAsIPLD blake2b False n = (c, content)"
  shows "content = [] \<longleftrightarrow> isIdentity c"
proof
  assume "content = []"
  show "isIdentity c"
  proof (rule ccontr)
    assume ni: "\<not> isIdentity c"
    from saveAsIPLD_content(2) [OF assms this] \<open>content = []\<close> length_cbor_pos [of n]
    have "n = Bytes []" by (cases n) auto
    with assms ni show False
      by (auto simp: saveAsIPLD_cases Let_def calculate_def isIdentity_def default_hash_def)
  qed
qed (rule saveAsIPLD_content(1) [OF assms])

lemma eachLink_norm:
  "eachLink (cbor_norm n) = eachLink n" "eachLink_items (cbor_norm_items xs) = eachLink_items xs"
  "eachLink_members (cbor_norm_members ms) = eachLink_members ms"
  by (induction n and xs and ms rule: cbor_norm_cbor_norm_items_cbor_norm_members.induct) simp_all

lemma eachLink_wf:
  "wf_node utf8 n \<Longrightarrow> c \<in> set (eachLink n) \<Longrightarrow> wf_cid c"
  "wf_items utf8 xs \<Longrightarrow> c \<in> set (eachLink_items xs) \<Longrightarrow> wf_cid c"
  "wf_members utf8 ms \<Longrightarrow> c \<in> set (eachLink_members ms) \<Longrightarrow> wf_cid c"
  by (induction n and xs and ms rule: eachLink_eachLink_items_eachLink_members.induct) auto

subsection \<open>Links take room\<close>

text \<open>A link of a loaded node is shorter than the bytes the node was loaded from.\<close>

lemma load_link_links:
  assumes "load_link r = Inr n" and "c \<in> set (eachLink n)"
  shows "length (cid_Bytes c) < length r"
  using assms cid_fromBytes_cases [of "drop 1 r" c]
  by (cases r) (auto simp: load_link_def split: if_splits option.splits)

lemma load_simple_links: "load_simple mn a = Inr n \<Longrightarrow> eachLink n = []"
  by (auto simp: load_simple_def split: if_splits)

lemma eachLink_items_append: "eachLink_items (xs @ ys) = eachLink_items xs @ eachLink_items ys"
  by (induction xs) auto

lemma eachLink_members_insert:
  "set (eachLink_members (fst (insert_or_assign ms k v))) \<subseteq> set (eachLink_members ms) \<union> set (eachLink v)"
  by (induction ms) (auto simp: insert_or_assign_Nil insert_or_assign_Cons split: if_splits)

lemma load_links:
  "load_cbor utf8 fuel bs = Some (Inr (n, rest)) \<Longrightarrow> c \<in> set (eachLink n) \<Longrightarrow> length (cid_Bytes c) < length bs"
  "load_items utf8 fuel xs i a bs = Some (Inr (xs', rest)) \<Longrightarrow> c \<in> set (eachLink_items xs') \<Longrightarrow>
     c \<in> set (eachLink_items xs) \<or> length (cid_Bytes c) < length bs"
  "load_members utf8 fuel ms i a bs = Some (Inr (ms', rest)) \<Longrightarrow> c \<in> set (eachLink_members ms') \<Longrightarrow>
     c \<in> set (eachLink_members ms) \<or> length (cid_Bytes c) < length bs"
proof (induction fuel arbitrary: bs n rest xs i a xs' ms ms')
  case (Suc fuel)
  { case 1
    then have "load_switch utf8 (load_items utf8 fuel []) (load_members utf8 fuel []) bs = Some (Inr (n, rest))"
      by simp
    then show ?case
    proof (cases rule: load_switch_cases)
      case (3 mj mn a i b r)
      have "length (cid_Bytes c) < length r" using 3(3) 1(2) by (rule load_link_links)
      with load_head_rest [OF 3(1)] load_string_length [OF 3(2)] show ?thesis by simp
    next
      case (6 mj mn a i b tg xs)
      with load_head_rest [OF 6(1)] Suc.IH(2) [OF 6(2)] 1 show ?thesis by auto
    next
      case (7 mj mn a i b tg ms)
      with load_head_rest [OF 7(1)] Suc.IH(3) [OF 7(2)] 1 show ?thesis by auto
    qed (use 1 in \<open>auto simp: load_simple_links\<close>)
  next
    case 2
    obtain b a' bs' where nx: "next_item i a bs = (b, a', bs')" by (cases "next_item i a bs") auto
    note len = next_item_rest [OF nx]
    show ?case
    proof (cases b)
      case True
      with 2 nx obtain x r where x: "load_cbor utf8 fuel bs' = Some (Inr (x, r))"
        and rec: "load_items utf8 fuel (xs @ [x]) i a' r = Some (Inr (xs', rest))"
        by (auto simp: and_then_Inr_iff)
      have "c \<in> set (eachLink_items xs) \<or> c \<in> set (eachLink x) \<or> length (cid_Bytes c) < length r"
        using Suc.IH(2) [OF rec 2(2)] by (auto simp: eachLink_items_append)
      then show ?thesis using len load_rest(1) [OF x] Suc.IH(1) [OF x] by auto
    qed (use 2 nx in simp)
  next
    case 3
    obtain b a' bs' where nx: "next_item i a bs = (b, a', bs')" by (cases "next_item i a bs") auto
    note len = next_item_rest [OF nx]
    show ?case
    proof (cases b)
      case True
      with 3 nx obtain kn r k v r' where kn: "load_cbor utf8 fuel bs' = Some (Inr (kn, r))"
        and v: "load_cbor utf8 fuel r = Some (Inr (v, r'))"
        and rec: "load_members utf8 fuel (fst (insert_or_assign ms k v)) i a' r' = Some (Inr (ms', rest))"
        by (auto simp: and_then_Inr_iff)
      have "c \<in> set (eachLink_members ms) \<or> c \<in> set (eachLink v) \<or> length (cid_Bytes c) < length r'"
        using Suc.IH(3) [OF rec 3(2)] eachLink_members_insert [of ms k v] by auto
      then show ?thesis using len load_rest(1) [OF kn] load_rest(1) [OF v] Suc.IH(1) [OF v] by auto
    qed (use 3 nx in simp) }
qed simp_all


text \<open>An identity identifier with at most 34 bytes of content has no room for the hash of a link.\<close>

lemma wf_cid_room:
  assumes "wf_cid c"
  shows "HashSize c < length (cid_Bytes c)" "\<not> isIdentity c \<Longrightarrow> 38 \<le> length (cid_Bytes c)"
proof -
  obtain ct ht h where c: "c = make_cid ct ht h" "hash_supported ht (of_nat (length h))" "length h < 2 ^ 63"
    using assms by (elim wf_cid_exhaust)
  show "HashSize c < length (cid_Bytes c)" by (simp add: c(1) length_Bytes_make_cid)
  show "38 \<le> length (cid_Bytes c)" if "\<not> isIdentity c"
  proof -
    have ht: "ht = Blake2b_256" and sz: "(of_nat (length h) :: u64) = 32"
      using c that by (auto simp: hash_supported_def isIdentity_def split: if_splits)
    have "unat (of_nat (length h) :: u64) = length h" using c(3) by (intro unat_of_nat_u64) simp
    then have "length h = 32" using sz by simp
    then show ?thesis
      using length_varint_codecs(2) length_varint_codecs(3) [of "scast ct"] length_varint_codecs(3) [of "of_nat (length h)"]
      by (simp add: c(1) ht length_Bytes_make_cid)
  qed
qed

lemma identity_links:
  assumes "isIdentity c" and "HashSize c \<le> 34" and "loadFromIPLD utf8 c [] = Inr v" and "d \<in> set (eachLink v)"
  shows "isIdentity d \<and> HashSize d \<le> 34"
proof -
  have h: "length (getHashBytes c) \<le> 34" using assms(2) by (simp add: getHashBytes_def take_back_def)
  have "ContentType c \<noteq> Raw" using assms(1,3,4) by (auto simp: loadFromIPLD_def Let_def)
  then obtain rest where l: "loadFromCBORSequence utf8 (getHashBytes c) = Inr (v, rest)"
    using assms(1,3)
    by (auto simp: loadFromIPLD_def loadFromCBOR_def Let_def map_sum_Inr_iff split: if_splits sum.splits prod.splits)
  obtain r where "load_cbor utf8 (Suc (2 * length (getHashBytes c))) (getHashBytes c) = Some r"
    using load_enough(1) [of "getHashBytes c" "Suc (2 * length (getHashBytes c))" utf8] by auto
  with l have "load_cbor utf8 (Suc (2 * length (getHashBytes c))) (getHashBytes c) = Some (Inr (v, rest))"
    by (simp add: loadFromCBORSequence_def del: load_cbor.simps)
  from load_links(1) [OF this assms(4)] have "length (cid_Bytes d) < 34" using h by simp
  moreover have "wf_cid d"
    using loadFromCBORSequence_wf [OF l] h assms(4) eachLink_wf by simp
  ultimately show ?thesis using wf_cid_room [of d] by (cases "isIdentity d") auto
qed

end
