(* ===== verification/Strings.thy ===== *)
theory Strings
  imports Memo_Prelude
begin

section \<open>The string operations the sources use\<close>

text \<open>
  The operations of \<^verbatim>\<open>std::string\<close> and \<^verbatim>\<open>llvm::StringRef\<close> that the URI, name, HTTP and
  JSON code is written with: splitting at the first or at every separator, ASCII case
  folding, \<^verbatim>\<open>getAsInteger\<close>, the decimal digits printed by \<^verbatim>\<open>llvm::Twine\<close> and the idiom
  "append each item and a separator, then \<^verbatim>\<open>pop_back\<close>". The lemmas are the round trips
  the components rest on: splitting undoes joining and reading undoes printing.
\<close>

named_theorems string_simps \<open>equations that evaluate the string operations\<close>

definition starts_with :: "string \<Rightarrow> string \<Rightarrow> bool" where
  "starts_with p s \<longleftrightarrow> take (length p) s = p"

definition split_first :: "char \<Rightarrow> string \<Rightarrow> string \<times> string" where
  "split_first c s = (takeWhile (\<lambda>x. x \<noteq> c) s, drop 1 (dropWhile (\<lambda>x. x \<noteq> c) s))"

fun split_all :: "char \<Rightarrow> string \<Rightarrow> string list" where
  "split_all c [] = [[]]"
| "split_all c (x # xs) =
     (if x = c then [] # split_all c xs
      else (case split_all c xs of [] \<Rightarrow> [[x]] | y # ys \<Rightarrow> (x # y) # ys))"

definition join_with :: "char \<Rightarrow> string list \<Rightarrow> string" where
  "join_with c ss = butlast (concat (map (\<lambda>s. s @ [c]) ss))"

definition toLower :: "char \<Rightarrow> char" where
  "toLower c = (let n = of_char c :: nat in if 65 \<le> n \<and> n \<le> 90 then char_of (n + 32) else c)"

definition str_lower :: "string \<Rightarrow> string" where
  "str_lower s = map toLower s"

definition equals_lower :: "string \<Rightarrow> string \<Rightarrow> bool" where
  "equals_lower s t \<longleftrightarrow> str_lower s = str_lower t"

text \<open>The value of a digit or letter, as \<^verbatim>\<open>llvm::consumeUnsignedInteger\<close> reads it.\<close>

definition digit_value :: "char \<Rightarrow> nat option" where
  "digit_value c = (let n = of_char c in
     if 48 \<le> n \<and> n \<le> 57 then Some (n - 48)
     else if 97 \<le> n \<and> n \<le> 122 then Some (n - 87)
     else if 65 \<le> n \<and> n \<le> 90 then Some (n - 55)
     else None)"

fun digit_values :: "nat \<Rightarrow> string \<Rightarrow> nat list option" where
  "digit_values radix [] = Some []"
| "digit_values radix (c # cs) =
     (case digit_value c of
        None \<Rightarrow> None
      | Some d \<Rightarrow> if d < radix then map_option ((#) d) (digit_values radix cs) else None)"

text \<open>
  \<^verbatim>\<open>StringRef::getAsInteger(radix, result)\<close> for an unsigned result of \<open>w\<close> bits; the
  function returns \<^verbatim>\<open>true\<close> (here \<open>None\<close>) when the string is empty, is not all digits or
  does not fit.
\<close>

definition getAsInteger :: "nat \<Rightarrow> nat \<Rightarrow> string \<Rightarrow> nat option" where
  "getAsInteger w radix s =
     (if s = [] then None
      else (case digit_values radix s of
              None \<Rightarrow> None
            | Some ds \<Rightarrow> if int (undigits radix ds) < 2 ^ w then Some (undigits radix ds) else None))"

definition dec_digit :: "nat \<Rightarrow> char" where
  "dec_digit d = char_of (48 + d)"

fun show_nat :: "nat \<Rightarrow> string" where
  "show_nat n = (if n < 10 then [dec_digit n] else show_nat (n div 10) @ [dec_digit (n mod 10)])"

declare show_nat.simps [simp del]

subsection \<open>Splitting and joining\<close>

lemma starts_with_append [simp]: "starts_with p (p @ s)"
  by (simp add: starts_with_def)

lemma starts_with_iff: "starts_with p s \<longleftrightarrow> (\<exists>t. s = p @ t)"
  unfolding starts_with_def by (metis append_eq_conv_conj append_take_drop_id)

lemma starts_with_single: "starts_with [c] s \<longleftrightarrow> (\<exists>t. s = c # t)"
  by (cases s) (auto simp: starts_with_def)

lemma split_first_append [string_simps]:
  "c \<notin> set s \<Longrightarrow> split_first c (s @ c # t) = (s, t)"
  unfolding split_first_def
  by (induction s) auto

lemma split_first_none [string_simps]: "c \<notin> set s \<Longrightarrow> split_first c s = (s, [])"
  unfolding split_first_def by (induction s) auto

lemma split_first_fst: "c \<notin> set (fst (split_first c s))"
  unfolding split_first_def by (auto dest: set_takeWhileD)

lemma split_all_nonempty [simp]: "split_all c s \<noteq> []"
  by (cases s) (auto split: list.splits)

lemma split_all_none: "c \<notin> set s \<Longrightarrow> split_all c s = [s]"
  by (induction s) auto

lemma split_all_append: "c \<notin> set s \<Longrightarrow> split_all c (s @ c # t) = s # split_all c t"
  by (induction s) auto

lemma split_all_parts: "p \<in> set (split_all c s) \<Longrightarrow> c \<notin> set p"
proof (induction s arbitrary: p)
  case (Cons x xs)
  then show ?case
    by (cases "split_all c xs") (auto split: if_splits)
qed simp

lemma join_with_Cons: "join_with c (s # ss) = (if ss = [] then s else s @ c # join_with c ss)"
proof (cases ss)
  case (Cons t ts)
  then show ?thesis
    by (simp add: join_with_def butlast_append)
qed (simp add: join_with_def butlast_append)

lemma join_with_Nil [simp]: "join_with c [] = []"
  by (simp add: join_with_def)

lemma join_with_single [simp]: "join_with c [s] = s"
  by (simp add: join_with_Cons)

lemma set_join_with: "set (join_with c ss) \<subseteq> insert c (\<Union> (set ` set ss))"
  by (induction ss) (auto simp: join_with_Cons)

lemma split_all_join_with:
  "ss \<noteq> [] \<Longrightarrow> \<forall>s \<in> set ss. c \<notin> set s \<Longrightarrow> split_all c (join_with c ss) = ss"
proof (induction ss)
  case (Cons s ss)
  then show ?case
    by (cases "ss = []") (simp_all add: join_with_Cons split_all_none split_all_append)
qed simp

lemma join_with_split_all: "join_with c (split_all c s) = s"
proof (induction s)
  case (Cons x xs)
  show ?case
  proof (cases "split_all c xs")
    case (Cons y ys)
    with \<open>join_with c (split_all c xs) = xs\<close> show ?thesis
      by (auto simp: join_with_Cons)
  qed simp
qed simp

lemma join_with_eq_Nil: "join_with c ss = [] \<longleftrightarrow> ss = [] \<or> ss = [[]]"
  by (cases ss) (auto simp: join_with_Cons)

subsection \<open>Case folding\<close>

lemma toLower_toLower [simp]: "toLower (toLower c) = toLower c"
proof (cases "65 \<le> (of_char c :: nat) \<and> (of_char c :: nat) \<le> 90")
  case True
  then show ?thesis by (simp add: toLower_def of_char_of)
next
  case False
  then have "toLower c = c" by (auto simp: toLower_def Let_def)
  then show ?thesis by simp
qed

lemma str_lower_idem [simp]: "str_lower (str_lower s) = str_lower s"
  by (simp add: str_lower_def)

lemma str_lower_Nil [simp]: "str_lower [] = []"
  by (simp add: str_lower_def)

lemma str_lower_eq_Nil [simp]: "str_lower s = [] \<longleftrightarrow> s = []"
  by (simp add: str_lower_def)

lemma toLower_eq:
  assumes "toLower c = d" and "\<not> (97 \<le> (of_char d :: nat) \<and> (of_char d :: nat) \<le> 122)"
  shows "c = d"
proof (rule ccontr)
  assume "c \<noteq> d"
  with assms(1) have "65 \<le> (of_char c :: nat) \<and> (of_char c :: nat) \<le> 90"
    by (auto simp: toLower_def Let_def split: if_splits)
  with assms show False by (auto simp: toLower_def of_char_of)
qed

lemma notin_str_lower:
  assumes "\<not> (97 \<le> (of_char d :: nat) \<and> (of_char d :: nat) \<le> 122)" and "d \<notin> set s"
  shows "d \<notin> set (str_lower s)"
proof
  assume "d \<in> set (str_lower s)"
  then obtain c where c: "c \<in> set s" "toLower c = d" by (auto simp: str_lower_def)
  from toLower_eq [OF c(2) assms(1)] c(1) assms(2) show False by simp
qed

subsection \<open>Printing and reading numbers\<close>

lemma digit_value_dec: "d < 10 \<Longrightarrow> digit_value (dec_digit d) = Some d"
  by (simp add: digit_value_def dec_digit_def Let_def)

lemma digit_values_append:
  "digit_values r (s @ t) =
   (case digit_values r s of None \<Rightarrow> None | Some ds \<Rightarrow> map_option ((@) ds) (digit_values r t))"
proof (induction s)
  case Nil
  have "(@) [] = (\<lambda>x :: nat list. x)" by auto
  then show ?case by (simp add: option.map_ident)
next
  case (Cons c s)
  have "((#) d \<circ> (@) ds) = (@) (d # ds)" for d :: nat and ds by auto
  with Cons show ?case
    by (auto split: option.splits simp: option.map_comp)
qed

lemma show_nat_nonempty [simp]: "show_nat n \<noteq> []"
  by (subst show_nat.simps) simp

lemma digit_values_show_nat:
  "\<exists>ds. digit_values 10 (show_nat n) = Some ds \<and> undigits 10 ds = n"
proof (induction n rule: show_nat.induct)
  case (1 n)
  show ?case
  proof (cases "n < 10")
    case True
    then show ?thesis
      by (subst show_nat.simps) (simp add: digit_value_dec undigits_def)
  next
    case False
    with 1 obtain ds where "digit_values 10 (show_nat (n div 10)) = Some ds"
      and "undigits 10 ds = n div 10" by blast
    with False show ?thesis
      by (subst show_nat.simps) (simp add: digit_values_append digit_value_dec)
  qed
qed

lemma getAsInteger_show_nat: "n < 2 ^ w \<Longrightarrow> getAsInteger w 10 (show_nat n) = Some n"
  using digit_values_show_nat [of n] by (auto simp: getAsInteger_def zless_nat_eq_int_zless)

lemma getAsInteger_bound: "getAsInteger w r s = Some n \<Longrightarrow> n < 2 ^ w"
  by (auto simp: getAsInteger_def zless_nat_eq_int_zless split: if_splits option.splits)

lemma show_nat_inject [simp]: "show_nat m = show_nat n \<longleftrightarrow> m = n"
  by (metis digit_values_show_nat option.inject)

lemma show_nat_digits: "c \<in> set (show_nat n) \<Longrightarrow> 48 \<le> (of_char c :: nat) \<and> (of_char c :: nat) \<le> 57"
proof (induction n rule: show_nat.induct)
  case (1 n)
  have d: "48 \<le> (of_char (dec_digit k) :: nat) \<and> (of_char (dec_digit k) :: nat) \<le> 57" if "k < 10" for k
    using that by (simp add: dec_digit_def of_char_of)
  show ?case
  proof (cases "n < 10")
    case True
    then have "show_nat n = [dec_digit n]" by (simp add: show_nat.simps [of n])
    with 1(2) d [OF True] show ?thesis by simp
  next
    case False
    then have "show_nat n = show_nat (n div 10) @ [dec_digit (n mod 10)]"
      by (simp add: show_nat.simps [of n])
    with 1(2) have "c \<in> set (show_nat (n div 10)) \<or> c = dec_digit (n mod 10)" by auto
    then show ?thesis using 1(1) [OF False] d [of "n mod 10"] by auto
  qed
qed

end
