(* ===== verification/URIs.thy ===== *)
theory URIs
  imports Strings
begin

section \<open>URI: parsing and normal form\<close>

text \<open>
  \<^verbatim>\<open>memodb/lib/URI.cpp\<close>. The record \<open>uri\<close> has the fields of struct \<^verbatim>\<open>URI\<close>; the lambdas
  \<^verbatim>\<open>percentDecode\<close> and \<^verbatim>\<open>percentEncode\<close> are functions of their own, with the shared error
  flag returned beside the string. The two places where the code removes a character from
  an empty string, which C++ leaves undefined, return a value of type \<open>ub\<close>.

  The lemmas show that the chunk-wise loops agree with a reference that works a character
  at a time, that parsing undoes \<^verbatim>\<open>encode\<close> on the URIs that have an unambiguous text, and
  what \<^verbatim>\<open>parse\<close> guarantees of its result.
\<close>

datatype ub = PopBackEmpty | DropFrontPastEnd

record uri =
  scheme :: string
  host :: string
  fragment :: string
  port :: u32
  rootless :: bool
  path_segments :: "string list"
  query_params :: "string list"
  escape_slashes_in_segments :: bool

definition uri_default :: uri where
  "uri_default = \<lparr>scheme = [], host = [], fragment = [], port = 0, rootless = False,
     path_segments = [], query_params = [], escape_slashes_in_segments = True\<rparr>"

subsection \<open>Parsing\<close>

function percent_loop :: "string \<Rightarrow> string \<times> bool" where
  "percent_loop str =
     (let pre = takeWhile (\<lambda>c. c \<noteq> CHR ''%'') str;
          rest = dropWhile (\<lambda>c. c \<noteq> CHR ''%'') str in
      if rest = [] then (pre, False)
      else (case (if 3 \<le> length rest then getAsInteger 32 16 (take 2 (drop 1 rest)) else None) of
              Some code \<Rightarrow> let (result, err) = percent_loop (drop 3 rest) in
                           (pre @ char_of code # result, err)
            | None \<Rightarrow> (pre, True)))"
  by pat_completeness auto
termination
proof (relation "measure length")
  fix str rest :: string and pre x2
  assume "rest = dropWhile (\<lambda>c. c \<noteq> CHR ''%'') str" and "rest \<noteq> []"
  then have "length rest \<le> length str" and "length rest > 0"
    by (auto simp: length_dropWhile_le)
  then have "length rest - 3 < length str" by linarith
  then show "(drop 3 rest, str) \<in> measure length" by simp
qed simp

declare percent_loop.simps [simp del]

definition percentDecode :: "string \<Rightarrow> string \<times> bool" where
  "percentDecode str = (if CHR ''%'' \<in> set str then percent_loop str else (str, False))"

text \<open>
  Lines 23 to 46: the authority is split into the text of the host and of the port;
  \<open>parse_authority\<close> also returns what follows it.
\<close>

definition split_authority :: "string \<Rightarrow> ub + (string \<times> string) option" where
  "split_authority authority_ref =
     (if CHR ''@'' \<in> set authority_ref then Inr None
      else if starts_with ''['' authority_ref then
        if CHR '']'' \<notin> set authority_ref then Inr None
        else
          let j = length (takeWhile (\<lambda>c. c \<noteq> CHR '']'') authority_ref);
              host_ref = take (j + 1) authority_ref;
              port_ref = drop (j + 1) authority_ref in
          if port_ref \<noteq> [] \<and> \<not> starts_with '':'' port_ref then Inr None
          else if port_ref = [] then Inl DropFrontPastEnd
          else Inr (Some (host_ref, drop 1 port_ref))
      else Inr (Some (split_first CHR '':'' authority_ref)))"

definition parse_authority :: "string \<Rightarrow> ub + (string \<times> string \<times> string) option" where
  "parse_authority str =
     (if \<not> starts_with ''//'' str then Inr (Some ([], [], str))
      else
        let stop = (\<lambda>c. c \<in> set ''/?#'');
            authority_ref = takeWhile (\<lambda>c. \<not> stop c) (drop 2 str);
            str = dropWhile (\<lambda>c. \<not> stop c) (drop 2 str) in
        map_sum id (map_option (\<lambda>(host_ref, port_ref). (host_ref, port_ref, str)))
          (split_authority authority_ref))"

fun decode_segments :: "bool \<Rightarrow> string list \<Rightarrow> (string list \<times> bool) option" where
  "decode_segments allow_dot_segments [] = Some ([], False)"
| "decode_segments allow_dot_segments (segment # segments) =
     (let (decoded, err) = percentDecode segment in
      if \<not> allow_dot_segments \<and> (decoded = ''.'' \<or> decoded = ''..'') then None
      else map_option (\<lambda>(rest, err'). (decoded # rest, err \<or> err'))
             (decode_segments allow_dot_segments segments))"

definition decode_params :: "string list \<Rightarrow> string list \<times> bool" where
  "decode_params params = (map (\<lambda>p. fst (percentDecode p)) params, list_ex (\<lambda>p. snd (percentDecode p)) params)"

definition uri_parse :: "string \<Rightarrow> bool \<Rightarrow> ub + uri option" where
  "uri_parse str allow_dot_segments =
     (let (sch, str) = (if CHR '':'' \<in> set str then split_first CHR '':'' str else ([], str)) in
      case parse_authority str of
        Inl e \<Rightarrow> Inl e
      | Inr None \<Rightarrow> Inr None
      | Inr (Some (host_ref, port_ref, str)) \<Rightarrow>
          let (str, fragment_ref) = split_first CHR ''#'' str;
              (path_ref, query_ref) = split_first CHR ''?'' str;
              (hst, e1) = percentDecode host_ref in
          case (if port_ref = [] then Some 0 else getAsInteger 32 10 port_ref) of
            None \<Rightarrow> Inr None
          | Some prt \<Rightarrow>
              let (frag, e2) = percentDecode fragment_ref;
                  rootl = (\<not> starts_with ''/'' path_ref);
                  path_ref = (if rootl then path_ref else drop 1 path_ref) in
              case (if path_ref = [] then Some ([], False)
                    else decode_segments allow_dot_segments (split_all CHR ''/'' path_ref)) of
                None \<Rightarrow> Inr None
              | Some (segments, e3) \<Rightarrow>
                  let (params, e4) = (if query_ref = [] then ([], False)
                                      else decode_params (split_all CHR ''&'' query_ref)) in
                  if e1 \<or> e2 \<or> e3 \<or> e4 then Inr None
                  else Inr (Some \<lparr>scheme = str_lower sch, host = str_lower hst, fragment = frag,
                         port = of_nat prt, rootless = rootl, path_segments = segments,
                         query_params = params, escape_slashes_in_segments = True\<rparr>))"

subsection \<open>Printing\<close>

definition hex_digits :: string where
  "hex_digits = ''0123456789ABCDEF''"

definition host_allowed :: string where
  "host_allowed = ''!$&'' @ [CHR 0x27] @ ''()*+,-.0123456789:;=ABCDEFGHIJKLMNOPQRSTUVWXYZ[]_''
     @ ''abcdefghijklmnopqrstuvvwxyz~''"

definition path_allowed :: string where
  "path_allowed = ''!$&'' @ [CHR 0x27] @ ''()*+,-.0123456789:;=@ABCDEFGHIJKLMNOPQRSTUVWXYZ_''
     @ ''abcdefghijklmnopqrstuvwxyz~''"

definition path_allowed_with_slash :: string where
  "path_allowed_with_slash = ''!$&'' @ [CHR 0x27] @ ''()*+,-./0123456789:;=@ABCDEFGHIJKLMNOPQRSTUVWXYZ_''
     @ ''abcdefghijklmnopqrstuvwxyz~''"

definition query_allowed :: string where
  "query_allowed = ''!$'' @ [CHR 0x27] @ ''()*+,-./''
     @ ''0123456789:;=?@ABCDEFGHIJKLMNOPQRSTUVWXYZ_abcdefghijklmnopqrstuvwxyz~''"

definition fragment_allowed :: string where
  "fragment_allowed = ''!$&'' @ [CHR 0x27] @ ''()*+,-./''
     @ ''0123456789:;=?@ABCDEFGHIJKLMNOPQRSTUVWXYZ_abcdefghijklmnopqrstuvwxyz~''"

definition percent_escape :: "char \<Rightarrow> string" where
  "percent_escape c = [CHR ''%'', hex_digits ! (of_char c div 16), hex_digits ! (of_char c mod 16)]"

function percentEncode :: "string \<Rightarrow> string \<Rightarrow> string" where
  "percentEncode str allowed =
     (let pre = takeWhile (\<lambda>c. c \<in> set allowed) str;
          rest = dropWhile (\<lambda>c. c \<in> set allowed) str in
      case rest of
        [] \<Rightarrow> pre
      | c # cs \<Rightarrow> pre @ percent_escape c @ percentEncode cs allowed)"
  by pat_completeness auto
termination
proof (relation "measure (\<lambda>(str, allowed). length str)")
  fix str allowed pre rest c and cs :: string
  assume "rest = dropWhile (\<lambda>c. c \<in> set allowed) str" and "rest = c # cs"
  then have "length (c # cs) \<le> length str"
    by (metis length_dropWhile_le)
  then show "((cs, allowed), str, allowed) \<in> measure (\<lambda>(str, allowed). length str)" by simp
qed simp

declare percentEncode.simps [simp del]

definition uri_encode :: "uri \<Rightarrow> string" where
  "uri_encode u =
     (if scheme u = [] then [] else str_lower (scheme u) @ '':'') @
     (if host u \<noteq> [] \<or> port u \<noteq> 0 then
        ''//'' @ percentEncode (str_lower (host u)) host_allowed @
        (if port u \<noteq> 0 then '':'' @ show_nat (unat (port u)) else [])
      else []) @
     (if rootless u then [] else ''/'') @
     join_with CHR ''/'' (map (\<lambda>segment. percentEncode segment
        (if escape_slashes_in_segments u then path_allowed else path_allowed_with_slash)) (path_segments u)) @
     (if query_params u = [] then []
      else ''?'' @ join_with CHR ''&'' (map (\<lambda>param. percentEncode param query_allowed) (query_params u))) @
     (if fragment u = [] then [] else ''#'' @ percentEncode (fragment u) fragment_allowed)"

text \<open>
  \<^verbatim>\<open>getPathString\<close> joins the segments from \<open>first_index\<close> on. It removes the last character
  whenever the URI has segments, also when none of them is left and nothing was written.
\<close>

definition getPathString :: "uri \<Rightarrow> nat \<Rightarrow> ub + string" where
  "getPathString u first_index =
     (if length (path_segments u) < first_index then Inl DropFrontPastEnd
      else
        let result = (if first_index = 0 \<and> \<not> rootless u then ''/'' else []) @
              concat (map (\<lambda>segment. segment @ ''/'') (drop first_index (path_segments u))) in
        if path_segments u = [] then Inr result
        else if result = [] then Inl PopBackEmpty
        else Inr (butlast result))"

definition uri_eq :: "uri \<Rightarrow> uri \<Rightarrow> bool" where
  "uri_eq u other \<longleftrightarrow> scheme u = scheme other \<and> host u = host other \<and> fragment u = fragment other
     \<and> port u = port other \<and> rootless u = rootless other \<and> path_segments u = path_segments other
     \<and> query_params u = query_params other"

subsection \<open>Percent encoding a character at a time\<close>

definition enc_char :: "string \<Rightarrow> char \<Rightarrow> string" where
  "enc_char allowed c = (if c \<in> set allowed then [c] else percent_escape c)"

lemma percentEncode_Nil [simp]: "percentEncode [] allowed = []"
  by (subst percentEncode.simps) simp

lemma percentEncode_Cons:
  "percentEncode (c # cs) allowed = enc_char allowed c @ percentEncode cs allowed"
proof (cases "c \<in> set allowed")
  case True
  then show ?thesis
    by (subst (1 2) percentEncode.simps)
       (cases "dropWhile (\<lambda>c. c \<in> set allowed) cs"; simp add: Let_def enc_char_def del: dropWhile_eq_Nil_conv)
next
  case False
  then show ?thesis
    by (subst percentEncode.simps) (simp add: enc_char_def)
qed

lemma percentEncode_ref: "percentEncode str allowed = concat (map (enc_char allowed) str)"
  by (induction str) (simp_all add: percentEncode_Cons)

lemma percent_loop_Nil [simp]: "percent_loop [] = ([], False)"
  by (simp add: percent_loop.simps [of "[]"])

lemma percent_loop_plain:
  assumes "c \<noteq> CHR ''%''"
  shows "percent_loop (c # cs) = (c # fst (percent_loop cs), snd (percent_loop cs))"
  using assms percent_loop.simps [of "c # cs"] percent_loop.simps [of cs]
  by (simp add: Let_def split_beta del: dropWhile_eq_Nil_conv split: option.split)

lemma percent_loop_escape:
  assumes "getAsInteger 32 16 [a, b] = Some code"
  shows "percent_loop (CHR ''%'' # a # b # cs)
       = (char_of code # fst (percent_loop cs), snd (percent_loop cs))"
  using assms percent_loop.simps [of "CHR ''%'' # a # b # cs"]
  by (simp add: Let_def split_beta)

lemma hex_digit_value:
  assumes "d < 16"
  shows "digit_value (hex_digits ! d) = Some d"
proof -
  have "list_all (\<lambda>d. digit_value (hex_digits ! d) = Some d) [0..<16]" by code_simp
  with assms show ?thesis unfolding list_all_iff atLeast_upt [symmetric] by blast
qed

lemma getAsInteger_escape:
  "getAsInteger 32 16 [hex_digits ! (of_char c div 16), hex_digits ! (of_char c mod 16)] = Some (of_char c)"
proof -
  have "of_char c div 16 < (16 :: nat)"
    by (rule less_mult_imp_div_less) (use of_char_less [of c] in simp)
  then show ?thesis
    using of_char_less [of c]
    by (simp add: getAsInteger_def hex_digit_value undigits_def)
qed

lemma percent_loop_enc_char:
  assumes "CHR ''%'' \<notin> set allowed"
  shows "percent_loop (enc_char allowed c @ cs) = (c # fst (percent_loop cs), snd (percent_loop cs))"
proof (cases "c \<in> set allowed")
  case True
  with assms have "c \<noteq> CHR ''%''" by auto
  with True show ?thesis by (simp add: enc_char_def percent_loop_plain)
next
  case False
  then show ?thesis
    by (simp add: enc_char_def percent_escape_def percent_loop_escape [OF getAsInteger_escape])
qed

lemma percent_loop_percentEncode:
  "CHR ''%'' \<notin> set allowed \<Longrightarrow> percent_loop (percentEncode str allowed) = (str, False)"
  by (induction str) (simp_all add: percentEncode_Cons percent_loop_enc_char)

lemma percent_loop_none: "CHR ''%'' \<notin> set str \<Longrightarrow> percent_loop str = (str, False)"
  by (induction str) (auto simp: percent_loop_plain)

lemma percentDecode_eq: "percentDecode str = percent_loop str"
  by (simp add: percentDecode_def percent_loop_none)

lemma percentDecode_percentEncode:
  "CHR ''%'' \<notin> set allowed \<Longrightarrow> percentDecode (percentEncode str allowed) = (str, False)"
  by (simp add: percentDecode_eq percent_loop_percentEncode)

lemma percentDecode_Nil [simp]: "percentDecode [] = ([], False)"
  by (simp add: percentDecode_def)

lemma percentEncode_eq_Nil [simp]: "percentEncode str allowed = [] \<longleftrightarrow> str = []"
  by (cases str) (simp_all add: percentEncode_Cons enc_char_def percent_escape_def)

lemma set_hex_digits: "d < 16 \<Longrightarrow> hex_digits ! d \<in> set hex_digits"
  by (rule nth_mem) (simp add: hex_digits_def)

lemma set_percentEncode:
  assumes "set hex_digits \<subseteq> set allowed"
  shows "set (percentEncode str allowed) \<subseteq> insert CHR ''%'' (set allowed)"
proof (induction str)
  case (Cons c str)
  have "of_char c div 16 < (16 :: nat)"
    by (rule less_mult_imp_div_less) (use of_char_less [of c] in simp)
  from subsetD [OF assms set_hex_digits [OF this]]
    subsetD [OF assms set_hex_digits [of "of_char c mod 16"]]
  have "set (enc_char allowed c) \<subseteq> insert CHR ''%'' (set allowed)"
    by (simp add: enc_char_def percent_escape_def)
  with Cons show ?case by (simp add: percentEncode_Cons)
qed simp

lemmas allowed_defs = host_allowed_def path_allowed_def path_allowed_with_slash_def query_allowed_def fragment_allowed_def

lemma hex_subset:
  "set hex_digits \<subseteq> set host_allowed" "set hex_digits \<subseteq> set path_allowed"
  "set hex_digits \<subseteq> set path_allowed_with_slash" "set hex_digits \<subseteq> set query_allowed"
  "set hex_digits \<subseteq> set fragment_allowed"
  by (simp_all add: hex_digits_def allowed_defs)

lemma percent_not_allowed:
  "CHR ''%'' \<notin> set host_allowed" "CHR ''%'' \<notin> set path_allowed"
  "CHR ''%'' \<notin> set path_allowed_with_slash" "CHR ''%'' \<notin> set query_allowed"
  "CHR ''%'' \<notin> set fragment_allowed"
  by (simp_all add: allowed_defs)

lemma notin_percentEncode:
  "set hex_digits \<subseteq> set allowed \<Longrightarrow> c \<notin> set allowed \<Longrightarrow> c \<noteq> CHR ''%'' \<Longrightarrow>
   c \<notin> set (percentEncode str allowed)"
  using set_percentEncode [of allowed str] by auto

subsection \<open>Parsing undoes printing\<close>

text \<open>
  The URIs whose text says what they are. The scheme ends at the first colon of the whole
  text, so a URI without one must not print a colon anywhere; a bracketed host needs a
  port; a path next to an authority is rooted, and a path without one does not begin with
  two slashes; one empty segment or parameter prints like none.
\<close>

definition host_unambiguous :: "uri \<Rightarrow> bool" where
  "host_unambiguous u \<longleftrightarrow> str_lower (host u) = host u \<and>
     (if starts_with ''['' (host u)
      then port u \<noteq> 0 \<and> last (host u) = CHR '']'' \<and> CHR '']'' \<notin> set (butlast (host u))
      else CHR '':'' \<notin> set (host u))"

definition path_unambiguous :: "bool \<Rightarrow> uri \<Rightarrow> bool" where
  "path_unambiguous allow u \<longleftrightarrow>
     path_segments u \<noteq> [[]] \<and>
     (rootless u \<longrightarrow> path_segments u = [] \<or> hd (path_segments u) \<noteq> [] \<and> host u = [] \<and> port u = 0) \<and>
     (host u = [] \<and> port u = 0 \<and> \<not> rootless u \<longrightarrow> path_segments u = [] \<or> hd (path_segments u) \<noteq> []) \<and>
     (escape_slashes_in_segments u \<or> list_all (\<lambda>s. CHR ''/'' \<notin> set s) (path_segments u)) \<and>
     (allow \<or> ''.'' \<notin> set (path_segments u) \<and> ''..'' \<notin> set (path_segments u))"

definition uri_unambiguous :: "bool \<Rightarrow> uri \<Rightarrow> bool" where
  "uri_unambiguous allow u \<longleftrightarrow>
     str_lower (scheme u) = scheme u \<and> CHR '':'' \<notin> set (scheme u) \<and>
     (scheme u = [] \<longrightarrow> CHR '':'' \<notin> set (uri_encode u)) \<and>
     host_unambiguous u \<and> path_unambiguous allow u \<and> query_params u \<noteq> [[]]"

definition authority_text :: "uri \<Rightarrow> string" where
  "authority_text u = (if host u \<noteq> [] \<or> port u \<noteq> 0 then
     ''//'' @ percentEncode (str_lower (host u)) host_allowed @
     (if port u \<noteq> 0 then '':'' @ show_nat (unat (port u)) else []) else [])"

definition segment_text :: "uri \<Rightarrow> string \<Rightarrow> string" where
  "segment_text u segment = percentEncode segment
     (if escape_slashes_in_segments u then path_allowed else path_allowed_with_slash)"

definition path_text :: "uri \<Rightarrow> string" where
  "path_text u = (if rootless u then [] else ''/'') @
     join_with CHR ''/'' (map (segment_text u) (path_segments u))"

definition query_text :: "uri \<Rightarrow> string" where
  "query_text u = join_with CHR ''&'' (map (\<lambda>param. percentEncode param query_allowed) (query_params u))"

definition tail_text :: "uri \<Rightarrow> string" where
  "tail_text u = path_text u @ (if query_params u = [] then [] else CHR ''?'' # query_text u) @
     (if fragment u = [] then [] else CHR ''#'' # percentEncode (fragment u) fragment_allowed)"

lemma uri_encode_texts:
  "uri_encode u = (if scheme u = [] then [] else str_lower (scheme u) @ '':'') @ authority_text u @ tail_text u"
  by (simp add: uri_encode_def authority_text_def path_text_def segment_text_def [abs_def] query_text_def tail_text_def)

lemma not_allowed_chars:
  "CHR ''/'' \<notin> set host_allowed" "CHR ''?'' \<notin> set host_allowed" "CHR ''#'' \<notin> set host_allowed"
  "CHR ''@'' \<notin> set host_allowed" "CHR ''/'' \<notin> set path_allowed"
  "CHR ''?'' \<notin> set path_allowed" "CHR ''#'' \<notin> set path_allowed"
  "CHR ''?'' \<notin> set path_allowed_with_slash" "CHR ''#'' \<notin> set path_allowed_with_slash"
  "CHR ''#'' \<notin> set query_allowed" "CHR ''&'' \<notin> set query_allowed"
  by (simp_all add: allowed_defs)

lemma segment_text_notin:
  "CHR ''?'' \<notin> set (segment_text u s)" "CHR ''#'' \<notin> set (segment_text u s)"
  by (simp_all add: segment_text_def notin_percentEncode hex_subset not_allowed_chars)

lemma percentEncode_notin:
  assumes "x \<notin> set hex_digits" and "x \<noteq> CHR ''%''" and "x \<notin> set s"
  shows "x \<notin> set (percentEncode s allowed)"
  using assms(3)
proof (induction s)
  case (Cons c s)
  have "of_char c div 16 < (16 :: nat)"
    by (rule less_mult_imp_div_less) (use of_char_less [of c] in simp)
  moreover have "x \<noteq> hex_digits ! d" if "d < 16" for d
    using set_hex_digits [OF that] assms(1) by auto
  ultimately have "x \<notin> set (enc_char allowed c)"
    using Cons.prems assms(2) by (auto simp: enc_char_def percent_escape_def)
  with Cons show ?case by (simp add: percentEncode_Cons)
qed simp

lemma segment_text_no_slash:
  assumes "path_unambiguous allow u" and "s \<in> set (path_segments u)"
  shows "CHR ''/'' \<notin> set (segment_text u s)"
proof (cases "escape_slashes_in_segments u")
  case True
  then show ?thesis
    by (simp add: segment_text_def notin_percentEncode hex_subset not_allowed_chars)
next
  case False
  with assms have "CHR ''/'' \<notin> set s"
    by (auto simp: path_unambiguous_def list_all_iff)
  with False show ?thesis
    by (simp add: segment_text_def percentEncode_notin hex_digits_def)
qed

lemma percentDecode_segment_text: "percentDecode (segment_text u s) = (s, False)"
  by (simp add: segment_text_def percentDecode_percentEncode percent_not_allowed)

lemma decode_segments_texts:
  "allow \<or> ''.'' \<notin> set segs \<and> ''..'' \<notin> set segs \<Longrightarrow>
   decode_segments allow (map (segment_text u) segs) = Some (segs, False)"
  by (induction segs) (auto simp: percentDecode_segment_text)

lemma decode_params_texts:
  "decode_params (map (\<lambda>param. percentEncode param query_allowed) ps) = (ps, False)"
proof -
  have "percentDecode (percentEncode p query_allowed) = (p, False)" for p
    by (simp add: percentDecode_percentEncode percent_not_allowed)
  then show ?thesis
    by (simp add: decode_params_def list_ex_iff comp_def)
qed

lemma split_tail_text:
  "split_first CHR ''#'' (tail_text u)
     = (path_text u @ (if query_params u = [] then [] else CHR ''?'' # query_text u),
        percentEncode (fragment u) fragment_allowed)"
  "split_first CHR ''?'' (path_text u @ (if query_params u = [] then [] else CHR ''?'' # query_text u))
     = (path_text u, query_text u)"
proof -
  have j: "c \<notin> set (join_with d (map f xs))"
    if "c \<noteq> d" and "\<And>x. c \<notin> set (f x)" for c d :: char and f :: "string \<Rightarrow> string" and xs
    using set_join_with [of d "map f xs"] that by auto
  have p: "CHR ''#'' \<notin> set (path_text u)" "CHR ''?'' \<notin> set (path_text u)"
    by (simp_all add: path_text_def j segment_text_notin)
  moreover have q: "CHR ''#'' \<notin> set (query_text u)"
    by (simp add: query_text_def j notin_percentEncode hex_subset not_allowed_chars)
  ultimately have "CHR ''#'' \<notin> set (path_text u @ (if query_params u = [] then [] else CHR ''?'' # query_text u))"
    by simp
  from split_first_append [OF this] split_first_none [OF this]
  show "split_first CHR ''#'' (tail_text u)
     = (path_text u @ (if query_params u = [] then [] else CHR ''?'' # query_text u),
        percentEncode (fragment u) fragment_allowed)"
    by (cases "fragment u = []") (simp_all add: tail_text_def)
  show "split_first CHR ''?'' (path_text u @ (if query_params u = [] then [] else CHR ''?'' # query_text u))
     = (path_text u, query_text u)"
    using p(2) by (simp add: split_first_append split_first_none query_text_def)
qed

lemma segment_text_eq_Nil [simp]: "segment_text u s = [] \<longleftrightarrow> s = []"
  by (simp add: segment_text_def)

lemma join_first_no_slash:
  assumes "path_unambiguous allow u" and "path_segments u \<noteq> []" and "hd (path_segments u) \<noteq> []"
  obtains c t where "join_with CHR ''/'' (map (segment_text u) (path_segments u)) = c # t"
    and "c \<noteq> CHR ''/''"
proof -
  from assms(2) obtain s ss where ss: "path_segments u = s # ss" by (cases "path_segments u") auto
  with assms(3) obtain c t where ct: "segment_text u s = c # t"
    by (cases "segment_text u s") auto
  have "CHR ''/'' \<notin> set (segment_text u s)"
    by (rule segment_text_no_slash [OF assms(1)]) (simp add: ss)
  with ct have "c \<noteq> CHR ''/''" by auto
  moreover from ct ss obtain t' where "join_with CHR ''/'' (map (segment_text u) (path_segments u)) = c # t'"
    by (cases "ss = []") (simp_all add: join_with_Cons)
  ultimately show thesis by (rule that [rotated])
qed

lemma parse_path_text:
  assumes "path_unambiguous allow u"
  shows "\<not> starts_with ''/'' (path_text u) \<longleftrightarrow> rootless u"
    and "(if (if rootless u then path_text u else drop 1 (path_text u)) = [] then Some ([], False)
          else decode_segments allow (split_all CHR ''/''
                 (if rootless u then path_text u else drop 1 (path_text u))))
         = Some (path_segments u, False)"
proof -
  show "\<not> starts_with ''/'' (path_text u) \<longleftrightarrow> rootless u"
  proof (cases "rootless u \<and> path_segments u \<noteq> []")
    case True
    with assms have "hd (path_segments u) \<noteq> []" by (auto simp: path_unambiguous_def)
    with True show ?thesis
      by (auto simp: path_text_def starts_with_single elim: join_first_no_slash [OF assms])
  qed (auto simp: path_text_def starts_with_single)
  have path: "(if rootless u then path_text u else drop 1 (path_text u))
      = join_with CHR ''/'' (map (segment_text u) (path_segments u))" (is "?ref = ?join")
    by (simp add: path_text_def)
  show "(if ?ref = [] then Some ([], False) else decode_segments allow (split_all CHR ''/'' ?ref))
         = Some (path_segments u, False)"
  proof (cases "path_segments u = []")
    case False
    have "?join \<noteq> []"
      using assms False by (auto simp: join_with_eq_Nil path_unambiguous_def map_eq_Cons_conv)
    moreover have "split_all CHR ''/'' ?join = map (segment_text u) (path_segments u)"
      using False segment_text_no_slash [OF assms] by (intro split_all_join_with) auto
    moreover have "decode_segments allow (map (segment_text u) (path_segments u)) = Some (path_segments u, False)"
      using assms by (intro decode_segments_texts) (auto simp: path_unambiguous_def)
    ultimately show ?thesis by (simp only: path if_False)
  qed (simp add: path_text_def)
qed

lemma parse_query_text:
  assumes "query_params u \<noteq> [[]]"
  shows "(if query_text u = [] then ([], False) else decode_params (split_all CHR ''&'' (query_text u)))
       = (query_params u, False)"
proof (cases "query_params u = []")
  case False
  with assms have "query_text u \<noteq> []"
    by (auto simp: query_text_def join_with_eq_Nil map_eq_Cons_conv)
  moreover have "split_all CHR ''&'' (query_text u) = map (\<lambda>param. percentEncode param query_allowed) (query_params u)"
    unfolding query_text_def using False
    by (intro split_all_join_with) (auto simp: notin_percentEncode hex_subset not_allowed_chars)
  ultimately show ?thesis by (simp add: decode_params_texts)
qed (simp add: query_text_def)

lemma parse_no_authority:
  assumes "path_unambiguous allow u" and "host u = []" and "port u = 0"
  shows "parse_authority (tail_text u) = Inr (Some ([], [], tail_text u))"
proof -
  let ?join = "join_with CHR ''/'' (map (segment_text u) (path_segments u))"
  have "\<not> starts_with ''//'' (tail_text u)"
  proof (cases "path_segments u = []")
    case True
    then show ?thesis
      by (simp add: tail_text_def path_text_def starts_with_def)
  next
    case False
    with assms have "hd (path_segments u) \<noteq> []" by (auto simp: path_unambiguous_def)
    then obtain c t where "?join = c # t" and "c \<noteq> CHR ''/''"
      using join_first_no_slash [OF assms(1) False] by blast
    then show ?thesis
      by (simp add: tail_text_def path_text_def starts_with_def)
  qed
  then show ?thesis by (simp add: parse_authority_def)
qed

lemma tail_text_stop:
  assumes "path_unambiguous allow u" and "host u \<noteq> [] \<or> port u \<noteq> 0"
  shows "tail_text u = [] \<or> hd (tail_text u) \<in> set ''/?#''"
  using assms by (auto simp: tail_text_def path_text_def path_unambiguous_def)

lemma takeWhile_stop:
  assumes "list_all P xs" and "ys = [] \<or> \<not> P (hd ys)"
  shows "takeWhile P (xs @ ys) = xs" and "dropWhile P (xs @ ys) = ys"
  using assms by (induction xs) (cases ys; auto)+

definition port_text :: "uri \<Rightarrow> string" where
  "port_text u = (if port u \<noteq> 0 then show_nat (unat (port u)) else [])"

lemma port_text_chars: "c \<in> set (port_text u) \<Longrightarrow> 48 \<le> (of_char c :: nat) \<and> (of_char c :: nat) \<le> 57"
  by (auto simp: port_text_def dest: show_nat_digits split: if_splits)

lemma port_text_notin: "CHR ''/'' \<notin> set (port_text u)" "CHR ''?'' \<notin> set (port_text u)"
  "CHR ''#'' \<notin> set (port_text u)" "CHR ''@'' \<notin> set (port_text u)"
  using port_text_chars [of _ u] by fastforce+

lemma parse_port_text:
  "(if port_text u = [] then Some 0 else getAsInteger 32 10 (port_text u)) = Some (unat (port u))"
proof (cases "port u = 0")
  case False
  have "unat (port u) < 2 ^ 32"
    using unsigned_less [of "port u", where 'a = nat] by simp
  with False show ?thesis by (simp add: port_text_def getAsInteger_show_nat)
qed (simp add: port_text_def)

lemma split_authority_text:
  assumes "host_unambiguous u"
  shows "split_authority (percentEncode (host u) host_allowed @
           (if port u \<noteq> 0 then CHR '':'' # port_text u else []))
       = Inr (Some (percentEncode (host u) host_allowed, port_text u))"
proof -
  let ?h = "percentEncode (host u) host_allowed"
  let ?p = "if port u \<noteq> 0 then CHR '':'' # port_text u else []"
  have at: "CHR ''@'' \<notin> set (?h @ ?p)"
    using port_text_notin [of u] by (simp add: notin_percentEncode hex_subset not_allowed_chars)
  show ?thesis
  proof (cases "starts_with ''['' (host u)")
    case True
    then obtain t where t: "host u = CHR ''['' # t" by (auto simp: starts_with_single)
    let ?b = "percentEncode (butlast (host u)) host_allowed"
    from True assms have p: "port u \<noteq> 0" and l: "last (host u) = CHR '']''"
      and nb: "CHR '']'' \<notin> set ?b"
      by (auto simp: host_unambiguous_def percentEncode_notin hex_digits_def)
    have "percentEncode (butlast (host u) @ [last (host u)]) host_allowed = ?b @ '']''"
      by (simp add: percentEncode_ref l enc_char_def host_allowed_def)
    then have hb: "?h = ?b @ '']''" using t by (simp del: butlast.simps last.simps)
    have br: "starts_with ''['' (?h @ ?p)"
      by (simp add: t percentEncode_Cons starts_with_def enc_char_def host_allowed_def)
    from nb have "list_all (\<lambda>c. c \<noteq> CHR '']'') ?b" by (auto simp: list_all_iff)
    from takeWhile_stop(1) [OF this, of "CHR '']'' # ?p"]
    have "takeWhile (\<lambda>c. c \<noteq> CHR '']'') (?h @ ?p) = ?b"
      by (simp add: hb)
    then have "length (takeWhile (\<lambda>c. c \<noteq> CHR '']'') (?h @ ?p)) + 1 = length ?h"
      by (simp add: hb)
    moreover have "CHR '']'' \<in> set (?h @ ?p)" by (simp add: hb)
    ultimately show ?thesis
      unfolding split_authority_def Let_def using at br p
      by (simp add: starts_with_def del: set_append)
  next
    case False
    have c: "CHR '':'' \<notin> set ?h"
      using False assms by (simp add: host_unambiguous_def percentEncode_notin hex_digits_def)
    have "\<not> starts_with ''['' (?h @ ?p)"
    proof (cases "host u")
      case (Cons d t)
      with False have "d \<noteq> CHR ''[''" by (simp add: starts_with_def)
      with Cons show ?thesis
        by (simp add: percentEncode_Cons enc_char_def percent_escape_def starts_with_def)
    qed (simp add: starts_with_def)
    moreover have "split_first CHR '':'' (?h @ ?p) = (?h, port_text u)"
      using c by (simp add: split_first_append split_first_none port_text_def)
    ultimately show ?thesis
      unfolding split_authority_def using at by simp
  qed
qed

lemma parse_authority_text:
  assumes "path_unambiguous allow u" and "host_unambiguous u" and "host u \<noteq> [] \<or> port u \<noteq> 0"
  shows "parse_authority (authority_text u @ tail_text u)
       = Inr (Some (percentEncode (host u) host_allowed, port_text u, tail_text u))"
proof -
  let ?h = "percentEncode (host u) host_allowed"
  let ?p = "if port u \<noteq> 0 then CHR '':'' # port_text u else []"
  let ?go = "\<lambda>c. c \<notin> set ''/?#''"
  have auth: "authority_text u @ tail_text u = ''//'' @ (?h @ ?p) @ tail_text u"
    using assms(2,3) by (simp add: authority_text_def host_unambiguous_def port_text_def)
  have "CHR ''/'' \<notin> set ?h" "CHR ''?'' \<notin> set ?h" "CHR ''#'' \<notin> set ?h"
    by (simp_all add: notin_percentEncode hex_subset not_allowed_chars)
  then have "list_all ?go (?h @ ?p)"
    using port_text_notin [of u] by (auto simp: list_all_iff)
  from takeWhile_stop [OF this, of "tail_text u"] tail_text_stop [OF assms(1,3)]
  have tw: "takeWhile ?go ((?h @ ?p) @ tail_text u) = ?h @ ?p"
    "dropWhile ?go ((?h @ ?p) @ tail_text u) = tail_text u"
    by blast+
  have start: "starts_with ''//'' (''//'' @ (?h @ ?p) @ tail_text u)"
    "drop 2 (''//'' @ (?h @ ?p) @ tail_text u) = (?h @ ?p) @ tail_text u"
    by (simp_all add: starts_with_def)
  show ?thesis
    unfolding auth parse_authority_def Let_def start(2) tw split_authority_text [OF assms(2)]
    using start(1) by simp
qed

lemma parse_after_scheme:
  assumes "path_unambiguous allow u" and "host_unambiguous u"
  shows "parse_authority (authority_text u @ tail_text u)
       = Inr (Some (percentEncode (host u) host_allowed, port_text u, tail_text u))"
proof (cases "host u \<noteq> [] \<or> port u \<noteq> 0")
  case False
  then have "authority_text u @ tail_text u = tail_text u" by (simp add: authority_text_def)
  with parse_no_authority [OF assms(1)] False show ?thesis by (simp add: port_text_def)
qed (rule parse_authority_text [OF assms])

lemma split_scheme:
  assumes "uri_unambiguous allow u"
  shows "(if CHR '':'' \<in> set (uri_encode u) then split_first CHR '':'' (uri_encode u) else ([], uri_encode u))
       = (scheme u, authority_text u @ tail_text u)"
proof (cases "scheme u = []")
  case True
  then show ?thesis using assms by (simp add: uri_unambiguous_def uri_encode_texts)
next
  case False
  with assms have "uri_encode u = scheme u @ CHR '':'' # authority_text u @ tail_text u"
    and "CHR '':'' \<notin> set (scheme u)"
    by (simp_all add: uri_encode_texts uri_unambiguous_def)
  then show ?thesis by (simp add: split_first_append)
qed

lemma uri_parse_encode:
  assumes "uri_unambiguous allow u"
  shows "uri_parse (uri_encode u) allow = Inr (Some (u\<lparr>escape_slashes_in_segments := True\<rparr>))"
proof -
  from assms have p: "path_unambiguous allow u" and h: "host_unambiguous u"
    and q: "query_params u \<noteq> [[]]" and s: "str_lower (scheme u) = scheme u"
    by (simp_all add: uri_unambiguous_def)
  have dec: "percentDecode (percentEncode (host u) host_allowed) = (host u, False)"
    "percentDecode (percentEncode (fragment u) fragment_allowed) = (fragment u, False)"
    by (simp_all add: percentDecode_percentEncode percent_not_allowed)
  from h have lh: "str_lower (host u) = host u" by (simp add: host_unambiguous_def)
  show ?thesis
    unfolding uri_parse_def split_scheme [OF assms] prod.case parse_after_scheme [OF p h] sum.case option.case
      split_tail_text dec Let_def parse_port_text parse_path_text [OF p] parse_query_text [OF q]
    by (simp add: s lh)
qed

text \<open>
  C25: Parsing the normal form of a URI gives the URI back, for every URI whose text is
  unambiguous; the flag that governs how slashes are printed is not part of the text and
  comes back with its default.
\<close>

theorem uri_roundtrip:
  "uri_unambiguous allow u \<Longrightarrow>
   uri_parse (uri_encode u) allow = Inr (Some (u\<lparr>escape_slashes_in_segments := True\<rparr>))"
  by (rule uri_parse_encode)

theorem uri_roundtrip_witness:
  "uri_parse (uri_encode (uri_default\<lparr>scheme := ''x'', host := ''[::1]'', port := 80,
      path_segments := [''a b'', []], query_params := [''k=&''], fragment := ''#''\<rparr>)) False
   = Inr (Some (uri_default\<lparr>scheme := ''x'', host := ''[::1]'', port := 80,
      path_segments := [''a b'', []], query_params := [''k=&''], fragment := ''#''\<rparr>))"
proof -
  let ?u = "uri_default\<lparr>scheme := ''x'', host := ''[::1]'', port := 80,
      path_segments := [''a b'', []], query_params := [''k=&''], fragment := ''#''\<rparr>"
  have "uri_unambiguous False ?u"
    by (simp add: uri_unambiguous_def host_unambiguous_def path_unambiguous_def uri_default_def
        starts_with_def str_lower_def toLower_def)
  from uri_roundtrip [OF this] show ?thesis by (simp add: uri_default_def)
qed

interpretation uri_codec: codec uri_encode
  "\<lambda>s. case uri_parse s False of Inr (Some u) \<Rightarrow> Some u | _ \<Rightarrow> None"
  "\<lambda>u. uri_unambiguous False u \<and> escape_slashes_in_segments u"
  by unfold_locales (simp add: uri_parse_encode)

lemma decode_segments_safe:
  "decode_segments False segs = Some (ds, e) \<Longrightarrow> ''.'' \<notin> set ds \<and> ''..'' \<notin> set ds"
  by (induction segs arbitrary: ds e) (auto simp: split_beta Let_def split: if_splits)

subsection \<open>What parsing can do\<close>

text \<open>The text after the scheme, and the one kind of authority on which parsing is undefined.\<close>

definition after_scheme :: "string \<Rightarrow> string" where
  "after_scheme str = (if CHR '':'' \<in> set str then snd (split_first CHR '':'' str) else str)"

lemma split_authority_Inl:
  "split_authority a = Inl e \<longleftrightarrow> e = DropFrontPastEnd \<and> (\<exists>h. a = ''['' @ h @ '']'' \<and> CHR ''@'' \<notin> set h \<and> CHR '']'' \<notin> set h)"
proof
  assume l: "split_authority a = Inl e"
  let ?P = "\<lambda>c. c \<noteq> CHR '']''"
  let ?j = "length (takeWhile ?P a)"
  from l have e: "e = DropFrontPastEnd" "CHR ''@'' \<notin> set a" "starts_with ''['' a" "CHR '']'' \<in> set a" "drop (?j + 1) a = []"
    by (auto simp: split_authority_def Let_def split: if_splits)
  obtain h r where h: "a = h @ CHR '']'' # r" "CHR '']'' \<notin> set h" using split_list_first [OF e(4)] by blast
  then have "takeWhile ?P a = h" by (auto simp: takeWhile_append)
  with h e(5) have a: "a = h @ '']''" by simp
  with e(3) obtain h' where "h = CHR ''['' # h'" by (cases h) (auto simp: starts_with_def)
  with a h(2) e(1,2) show "e = DropFrontPastEnd \<and> (\<exists>h. a = ''['' @ h @ '']'' \<and> CHR ''@'' \<notin> set h \<and> CHR '']'' \<notin> set h)"
    by auto
next
  assume "e = DropFrontPastEnd \<and> (\<exists>h. a = ''['' @ h @ '']'' \<and> CHR ''@'' \<notin> set h \<and> CHR '']'' \<notin> set h)"
  then obtain h where h: "e = DropFrontPastEnd" "a = ''['' @ h @ '']''" "CHR ''@'' \<notin> set h" "CHR '']'' \<notin> set h" by blast
  then have "takeWhile (\<lambda>c. c \<noteq> CHR '']'') a = CHR ''['' # h" by (auto simp: takeWhile_append)
  with h show "split_authority a = Inl e" by (simp add: split_authority_def starts_with_def Let_def)
qed

lemma parse_authority_Inl:
  "parse_authority str = Inl e \<longleftrightarrow> e = DropFrontPastEnd \<and> (\<exists>h rest. str = ''//['' @ h @ '']'' @ rest
     \<and> set h \<inter> set ''/?#@]'' = {} \<and> (rest = [] \<or> hd rest \<in> set ''/?#''))"
proof
  let ?stop = "\<lambda>c. c \<notin> set ''/?#''"
  assume l: "parse_authority str = Inl e"
  then have s: "starts_with ''//'' str" by (auto simp: parse_authority_def split: if_splits)
  then have str: "str = ''//'' @ drop 2 str" using append_take_drop_id [of 2 str] by (simp add: starts_with_def numeral_2_eq_2)
  from l s have "split_authority (takeWhile ?stop (drop 2 str)) = Inl e"
    by (cases "split_authority (takeWhile ?stop (drop 2 str))") (auto simp: parse_authority_def Let_def)
  then obtain h where h: "e = DropFrontPastEnd" "takeWhile ?stop (drop 2 str) = ''['' @ h @ '']''"
      "CHR ''@'' \<notin> set h" "CHR '']'' \<notin> set h"
    unfolding split_authority_Inl by blast
  have "\<forall>c \<in> set h. ?stop c" using set_takeWhileD [of _ ?stop "drop 2 str"] unfolding h(2) by auto
  then have "set h \<inter> set ''/?#@]'' = {}" using h(3,4) by auto
  moreover have "str = ''//['' @ h @ '']'' @ dropWhile ?stop (drop 2 str)"
  proof -
    have "drop 2 str = (''['' @ h @ '']'') @ dropWhile ?stop (drop 2 str)"
      using takeWhile_dropWhile_id [of ?stop "drop 2 str"] unfolding h(2) by (rule sym)
    then show ?thesis by (subst str) simp
  qed
  moreover have "dropWhile ?stop (drop 2 str) = [] \<or> hd (dropWhile ?stop (drop 2 str)) \<in> set ''/?#''"
    using hd_dropWhile [of ?stop "drop 2 str"] by blast
  ultimately show "e = DropFrontPastEnd \<and> (\<exists>h rest. str = ''//['' @ h @ '']'' @ rest
     \<and> set h \<inter> set ''/?#@]'' = {} \<and> (rest = [] \<or> hd rest \<in> set ''/?#''))"
    using h(1) by blast
next
  let ?stop = "\<lambda>c. c \<notin> set ''/?#''"
  assume "e = DropFrontPastEnd \<and> (\<exists>h rest. str = ''//['' @ h @ '']'' @ rest
     \<and> set h \<inter> set ''/?#@]'' = {} \<and> (rest = [] \<or> hd rest \<in> set ''/?#''))"
  then obtain h rest where h: "e = DropFrontPastEnd" "str = ''//['' @ h @ '']'' @ rest"
    "set h \<inter> set ''/?#@]'' = {}" "rest = [] \<or> hd rest \<in> set ''/?#''" by blast
  have "takeWhile ?stop rest = []" using h(4) by (cases rest) auto
  moreover have "\<forall>c \<in> set (''['' @ h @ '']''). ?stop c" using h(3) by auto
  ultimately have "takeWhile ?stop ((''['' @ h @ '']'') @ rest) = ''['' @ h @ '']''"
    by (subst takeWhile_append2) auto
  then have "takeWhile ?stop (drop 2 str) = ''['' @ h @ '']''" using h(2) by simp
  moreover have "split_authority (''['' @ h @ '']'') = Inl e"
    unfolding split_authority_Inl using h(1,3) by auto
  moreover have "starts_with ''//'' str" using h(2) by (simp add: starts_with_def)
  ultimately show "parse_authority str = Inl e" by (simp add: parse_authority_def Let_def)
qed

lemma uri_parse_Inl: "uri_parse str b = Inl e \<longleftrightarrow> parse_authority (after_scheme str) = Inl e"
proof -
  define ss where "ss = (if CHR '':'' \<in> set str then split_first CHR '':'' str else ([], str))"
  have ss: "after_scheme str = snd ss" by (simp add: ss_def after_scheme_def)
  show ?thesis
    unfolding uri_parse_def ss_def [symmetric] ss
    by (cases ss) (auto simp: Let_def split_beta split: sum.splits option.splits if_splits)
qed

text \<open>
  C26: \<^verbatim>\<open>URI::parse\<close> has undefined behaviour on exactly one kind of text: after the scheme comes
  an authority that is a host in brackets without a port (and without \<^verbatim>\<open>@\<close>), followed by
  the end of the text or by a path, query or fragment; there \<^verbatim>\<open>drop_front\<close> is called on an
  empty string. On every other text it returns, and whatever it accepts without the
  permission for dot segments names no directory by a relative step, also when the dots
  were written with percent escapes; its scheme is free of colons, and scheme and host are
  in lower case.
\<close>

theorem uri_parse_safe:
  "(\<forall>e. uri_parse str allow_dot_segments = Inl e \<longleftrightarrow> e = DropFrontPastEnd
      \<and> (\<exists>h rest. after_scheme str = ''//['' @ h @ '']'' @ rest \<and> set h \<inter> set ''/?#@]'' = {}
           \<and> (rest = [] \<or> hd rest \<in> set ''/?#'')))
   \<and> (\<forall>u. uri_parse str False = Inr (Some u) \<longrightarrow>
        ''.'' \<notin> set (path_segments u) \<and> ''..'' \<notin> set (path_segments u)
        \<and> CHR '':'' \<notin> set (scheme u) \<and> str_lower (scheme u) = scheme u \<and> str_lower (host u) = host u)"
proof (rule conjI; intro allI impI)
  show "uri_parse str allow_dot_segments = Inl e \<longleftrightarrow> e = DropFrontPastEnd
      \<and> (\<exists>h rest. after_scheme str = ''//['' @ h @ '']'' @ rest \<and> set h \<inter> set ''/?#@]'' = {}
           \<and> (rest = [] \<or> hd rest \<in> set ''/?#''))" for e
    unfolding uri_parse_Inl by (rule parse_authority_Inl)
  fix u
  assume u: "uri_parse str False = Inr (Some u)"
  define ss where "ss = (if CHR '':'' \<in> set str then split_first CHR '':'' str else ([], str))"
  have "CHR '':'' \<notin> set (fst ss)" using split_first_fst by (auto simp: ss_def)
  then have "CHR '':'' \<notin> set (str_lower (fst ss))" by (intro notin_str_lower) simp
  moreover from u have "scheme u = str_lower (fst ss) \<and> (\<exists>h. host u = str_lower h) \<and>
      (path_segments u = [] \<or> (\<exists>segs e. decode_segments False segs = Some (path_segments u, e)))"
    unfolding uri_parse_def ss_def [symmetric]
    by (cases ss) (auto simp: Let_def split_beta split: sum.splits option.splits if_splits)
  ultimately show "''.'' \<notin> set (path_segments u) \<and> ''..'' \<notin> set (path_segments u)
        \<and> CHR '':'' \<notin> set (scheme u) \<and> str_lower (scheme u) = scheme u \<and> str_lower (host u) = host u"
    by (auto dest: decode_segments_safe)
qed

theorem uri_parse_safe_witness:
  "uri_parse ''x://[::1]/y'' False = Inl DropFrontPastEnd
   \<and> uri_parse ''X:/y/foo%2Fbar'' False = Inr (Some (uri_default\<lparr>scheme := ''x'', path_segments := [''y'', ''foo/bar'']\<rparr>))
   \<and> ''.'' \<notin> set [''y'', ''foo/bar''] \<and> ''..'' \<notin> set [''y'', ''foo/bar'']"
proof -
  have s: "after_scheme ''x://[::1]/y'' = ''//['' @ ''::1'' @ '']'' @ ''/y''" by code_simp
  have "set ''::1'' \<inter> set ''/?#@]'' = {}" by simp
  then have "\<exists>h rest. after_scheme ''x://[::1]/y'' = ''//['' @ h @ '']'' @ rest \<and> set h \<inter> set ''/?#@]'' = {}
      \<and> (rest = [] \<or> hd rest \<in> set ''/?#'')"
    using s by (intro exI [of _ "''::1''"] exI [of _ "''/y''"]) simp
  then have bad: "uri_parse ''x://[::1]/y'' False = Inl DropFrontPastEnd"
    using uri_parse_safe [of "''x://[::1]/y''" False] by blast
  have "uri_parse ''X:/y/foo%2Fbar'' False
      = Inr (Some (uri_default\<lparr>scheme := ''x'', path_segments := [''y'', ''foo/bar'']\<rparr>))"
    by code_simp
  then show ?thesis
    using bad uri_parse_safe [of "''X:/y/foo%2Fbar''" False] by (simp add: uri_default_def)
qed

end
