(* ===== verification/Names.thy ===== *)
theory Names
  imports URIs CID
begin

section \<open>Names: heads, calls and their URIs\<close>

text \<open>
  The structs \<^verbatim>\<open>Head\<close>, \<^verbatim>\<open>Call\<close> and \<^verbatim>\<open>Name\<close> of \<^verbatim>\<open>memodb/include/memodb/Store.h\<close> and their
  functions in \<^verbatim>\<open>memodb/lib/Store.cpp\<close>. \<open>name\<close> is the variant, with one constructor per
  alternative. \<^verbatim>\<open>Call::asURI\<close> removes the last character of the argument list, which is
  undefined for a call without arguments; that case is a value of type \<open>ub\<close>.

  The lemmas show that \<^verbatim>\<open>Name::parse\<close> reads back the URI of every name whose text is free of
  colons and dot segments, that the orderings are strict total orders compatible with
  \<^verbatim>\<open>operator==\<close>, and that a head whose name has a colon cannot be named by its own URI.
\<close>

record head =
  head_Name :: string

record call =
  call_Name :: string
  call_Args :: "cid list"

datatype name = CIDName cid | HeadName head | CallName call

definition make_head :: "string \<Rightarrow> head" where
  "make_head n = \<lparr>head_Name = n\<rparr>"

definition make_call :: "string \<Rightarrow> cid list \<Rightarrow> call" where
  "make_call n args = \<lparr>call_Name = n, call_Args = args\<rparr>"

subsection \<open>Comparison\<close>

definition str_less :: "string \<Rightarrow> string \<Rightarrow> bool" where
  "str_less s t \<longleftrightarrow> (map of_char s :: nat list) < map of_char t"

definition head_less :: "head \<Rightarrow> head \<Rightarrow> bool" where
  "head_less h other \<longleftrightarrow> str_less (head_Name h) (head_Name other)"

definition head_eq :: "head \<Rightarrow> head \<Rightarrow> bool" where
  "head_eq h other \<longleftrightarrow> head_Name h = head_Name other"

definition args_less :: "cid list \<Rightarrow> cid list \<Rightarrow> bool" where
  "args_less as bs \<longleftrightarrow> map cid_Bytes as < map cid_Bytes bs"

definition call_less :: "call \<Rightarrow> call \<Rightarrow> bool" where
  "call_less c other \<longleftrightarrow>
     (if call_Name c \<noteq> call_Name other then str_less (call_Name c) (call_Name other)
      else args_less (call_Args c) (call_Args other))"

definition call_eq :: "call \<Rightarrow> call \<Rightarrow> bool" where
  "call_eq c other \<longleftrightarrow> call_Name c = call_Name other \<and> list_all2 cid_eq (call_Args c) (call_Args other)"

subsection \<open>Names as URIs\<close>

definition head_asURI :: "head \<Rightarrow> uri" where
  "head_asURI h = uri_default\<lparr>path_segments := [''head'', head_Name h], escape_slashes_in_segments := False\<rparr>"

definition args_text :: "cid list \<Rightarrow> ub + string" where
  "args_text args =
     (let text = concat (map (\<lambda>arg. asString base64url arg @ '','') args) in
      if text = [] then Inl PopBackEmpty else Inr (butlast text))"

definition call_asURI :: "call \<Rightarrow> ub + uri" where
  "call_asURI c = then_do (args_text (call_Args c)) (\<lambda>args.
     Inr (uri_default\<lparr>path_segments := [''call'', call_Name c, args]\<rparr>))"

definition name_asURI :: "name \<Rightarrow> ub + uri" where
  "name_asURI n = (case n of
     CIDName c \<Rightarrow> Inr (uri_default\<lparr>path_segments := [''cid'', asString base64url c]\<rparr>)
   | HeadName h \<Rightarrow> Inr (head_asURI h)
   | CallName c \<Rightarrow> call_asURI c)"

definition name_text :: "name \<Rightarrow> ub + string" where
  "name_text n = then_do (name_asURI n) (\<lambda>u. Inr (uri_encode u))"

fun parse_args :: "string list \<Rightarrow> cid list option" where
  "parse_args [] = Some []"
| "parse_args (arg_str # arg_strs) =
     (case cid_parse arg_str of
        None \<Rightarrow> None
      | Some arg \<Rightarrow> map_option ((#) arg) (parse_args arg_strs))"

definition name_of_uri :: "uri \<Rightarrow> ub + name option" where
  "name_of_uri u =
     (let segs = path_segments u in
      if segs ! 0 = ''head'' \<and> 2 \<le> length segs then
        then_do (getPathString u 1) (\<lambda>s. Inr (if s = [] then None else Some (HeadName (make_head s))))
      else if segs ! 0 = ''cid'' \<and> length segs = 2 then
        Inr (map_option CIDName (cid_parse (segs ! 1)))
      else if segs ! 0 = ''call'' \<and> length segs = 3 then
        let func_name = segs ! 1 in
        if func_name = [] then Inr None
        else Inr (map_option (\<lambda>args. CallName (make_call func_name args))
                    (parse_args (split_all CHR '','' (segs ! 2))))
      else Inr None)"

definition name_parse :: "string \<Rightarrow> ub + name option" where
  "name_parse uri_str =
     then_do (uri_parse uri_str False) (\<lambda>r.
       case r of
         None \<Rightarrow> Inr None
       | Some u \<Rightarrow>
           if scheme u \<noteq> [] \<or> host u \<noteq> [] \<or> port u \<noteq> 0 \<or> path_segments u = [] \<or> rootless u
              \<or> query_params u \<noteq> [] \<or> fragment u \<noteq> [] then Inr None
           else name_of_uri u)"

subsection \<open>The orderings\<close>

lemma inj_map_of_char: "map of_char s = (map of_char t :: nat list) \<longleftrightarrow> s = t"
  by (simp add: inj_map_eq_map inj_def)

lemma str_less_linear: "str_less s t \<or> s = t \<or> str_less t s"
  unfolding str_less_def using inj_map_of_char [of s t] by (metis less_linear)

lemma str_less_irrefl [simp]: "\<not> str_less s s"
  by (simp add: str_less_def)

lemma str_less_trans: "str_less s t \<Longrightarrow> str_less t u \<Longrightarrow> str_less s u"
  unfolding str_less_def by (rule less_trans)

lemma list_all2_cid_eq: "list_all2 cid_eq as bs \<longleftrightarrow> map cid_Bytes as = map cid_Bytes bs"
  by (auto simp: list_all2_conv_all_nth cid_eq_def list_eq_iff_nth_eq)

text \<open>
  \<^verbatim>\<open>operator<\<close> on calls is a strict total order and agrees with \<^verbatim>\<open>operator==\<close>, which
  is what the ordered containers that hold calls rely on: exactly one of less, equal and
  greater holds for any two calls, and the order is transitive.
\<close>

theorem call_order:
  "(call_less a b \<or> call_eq a b \<or> call_less b a)
   \<and> \<not> (call_less a b \<and> call_eq a b) \<and> \<not> (call_less a b \<and> call_less b a)
   \<and> (call_less a b \<and> call_less b c \<longrightarrow> call_less a c)"
proof (intro conjI impI)
  show "call_less a b \<or> call_eq a b \<or> call_less b a"
    using str_less_linear [of "call_Name a" "call_Name b"]
      less_linear [of "map cid_Bytes (call_Args a)" "map cid_Bytes (call_Args b)"]
    by (auto simp: call_less_def call_eq_def args_less_def list_all2_cid_eq)
  show "\<not> (call_less a b \<and> call_eq a b)"
    by (auto simp: call_less_def call_eq_def args_less_def list_all2_cid_eq)
  show "\<not> (call_less a b \<and> call_less b a)"
    using str_less_trans [of "call_Name a" "call_Name b" "call_Name a"]
    by (auto simp: call_less_def args_less_def split: if_splits dest: less_asym)
  assume "call_less a b \<and> call_less b c"
  then show "call_less a c"
    using str_less_trans [of "call_Name a" "call_Name b" "call_Name c"]
      str_less_trans [of "call_Name a" "call_Name b" "call_Name a"]
    by (auto simp: call_less_def args_less_def split: if_splits dest: less_trans)
qed

theorem call_order_witness:
  "call_less (make_call ''f'' []) (make_call ''g'' []) \<and> call_less (make_call ''g'' []) (make_call ''h'' [])
   \<and> call_less (make_call ''f'' []) (make_call ''h'' [])"
proof -
  have "call_less (make_call ''f'' []) (make_call ''g'' [])" "call_less (make_call ''g'' []) (make_call ''h'' [])"
    by (simp_all add: call_less_def make_call_def str_less_def)
  with call_order [of "make_call ''f'' []" "make_call ''g'' []" "make_call ''h'' []"] show ?thesis by blast
qed

subsection \<open>Parsing the URI of a name\<close>

definition name_printable :: "name \<Rightarrow> bool" where
  "name_printable n = (case n of
     CIDName c \<Rightarrow> wf_cid c
   | HeadName h \<Rightarrow> head_Name h \<noteq> [] \<and> CHR '':'' \<notin> set (head_Name h) \<and>
       ''.'' \<notin> set (split_all CHR ''/'' (head_Name h)) \<and> ''..'' \<notin> set (split_all CHR ''/'' (head_Name h))
   | CallName c \<Rightarrow> call_Name c \<noteq> [] \<and> CHR '':'' \<notin> set (call_Name c) \<and>
       call_Name c \<noteq> ''.'' \<and> call_Name c \<noteq> ''..'' \<and> call_Args c \<noteq> [] \<and> list_all wf_cid (call_Args c))"

definition path_uri :: "string list \<Rightarrow> uri" where
  "path_uri segs = uri_default\<lparr>path_segments := segs\<rparr>"

lemma path_uri_simps [simp]:
  "scheme (path_uri s) = []" "host (path_uri s) = []" "port (path_uri s) = 0" "fragment (path_uri s) = []"
  "query_params (path_uri s) = []" "\<not> rootless (path_uri s)" "path_segments (path_uri s) = s"
  "escape_slashes_in_segments (path_uri s)"
  by (simp_all add: path_uri_def uri_default_def)

lemma uri_encode_path_uri:
  "uri_encode (path_uri segs) = CHR ''/'' # join_with CHR ''/'' (map (\<lambda>s. percentEncode s path_allowed) segs)"
  by (simp add: uri_encode_def)

lemma uri_parse_path_uri:
  assumes "segs \<noteq> []" and "hd segs \<noteq> []" and "\<forall>s \<in> set segs. CHR '':'' \<notin> set s \<and> s \<noteq> ''.'' \<and> s \<noteq> ''..''"
  shows "uri_parse (uri_encode (path_uri segs)) False = Inr (Some (path_uri segs))"
proof -
  have "CHR '':'' \<notin> set hex_digits" by (simp add: hex_digits_def)
  then have "CHR '':'' \<notin> set (percentEncode s path_allowed)" if "s \<in> set segs" for s
    using assms(3) that by (intro percentEncode_notin) simp_all
  then have "CHR '':'' \<notin> insert CHR ''/'' (\<Union> (set ` set (map (\<lambda>s. percentEncode s path_allowed) segs)))"
    by simp
  then have "CHR '':'' \<notin> set (uri_encode (path_uri segs))"
    using set_join_with [of "CHR ''/''" "map (\<lambda>s. percentEncode s path_allowed) segs"]
    unfolding uri_encode_path_uri by auto
  moreover have "host_unambiguous (path_uri segs)"
    by (simp add: host_unambiguous_def starts_with_def)
  note hc = calculation this
  have "segs \<noteq> [[]]" using assms(2) by (cases segs) simp_all
  moreover have "''.'' \<notin> set segs" and "''..'' \<notin> set segs" using assms(3) by blast+
  ultimately have "path_unambiguous False (path_uri segs)"
    using assms(2) by (simp only: path_unambiguous_def path_uri_simps simp_thms)
  with hc have "uri_unambiguous False (path_uri segs)"
    by (simp add: uri_unambiguous_def)
  from uri_parse_encode [OF this] show ?thesis by (simp add: path_uri_def uri_default_def)
qed

lemma name_parse_path_uri:
  assumes "segs \<noteq> []" and "hd segs \<noteq> []" and "\<forall>s \<in> set segs. CHR '':'' \<notin> set s \<and> s \<noteq> ''.'' \<and> s \<noteq> ''..''"
  shows "name_parse (uri_encode (path_uri segs)) = name_of_uri (path_uri segs)"
  using assms(1) by (simp add: name_parse_def uri_parse_path_uri [OF assms])

lemma enc_char_slash:
  "enc_char path_allowed_with_slash c = (if c = CHR ''/'' then [c] else enc_char path_allowed c)"
proof -
  have "set path_allowed_with_slash = insert CHR ''/'' (set path_allowed)"
    unfolding path_allowed_with_slash_def path_allowed_def by (simp add: insert_commute)
  then show ?thesis by (simp add: enc_char_def)
qed

lemma percentEncode_split:
  "percentEncode s path_allowed_with_slash
   = join_with CHR ''/'' (map (\<lambda>p. percentEncode p path_allowed) (split_all CHR ''/'' s))"
proof (induction s)
  case (Cons c s)
  obtain y ys where "split_all CHR ''/'' s = y # ys"
    by (metis split_all_nonempty neq_Nil_conv)
  with Cons show ?case
    by (simp add: percentEncode_Cons enc_char_slash join_with_Cons)
qed simp

lemma uri_encode_head:
  "uri_encode (head_asURI h) = uri_encode (path_uri (''head'' # split_all CHR ''/'' (head_Name h)))"
proof -
  have plain: "percentEncode ''head'' path_allowed_with_slash = ''head''"
    "percentEncode ''head'' path_allowed = ''head''"
    by (simp_all add: percentEncode_Cons enc_char_def allowed_defs)
  have "uri_encode (head_asURI h) = CHR ''/'' # ''head'' @ CHR ''/'' # percentEncode (head_Name h) path_allowed_with_slash"
    by (simp add: uri_encode_def head_asURI_def uri_default_def join_with_Cons plain)
  also have "\<dots> = uri_encode (path_uri (''head'' # split_all CHR ''/'' (head_Name h)))"
    by (simp add: uri_encode_path_uri percentEncode_split join_with_Cons plain)
  finally show ?thesis .
qed

lemma set_split_all: "p \<in> set (split_all c s) \<Longrightarrow> x \<in> set p \<Longrightarrow> x \<in> set s"
proof (induction s arbitrary: p)
  case (Cons d s)
  then show ?case by (cases "split_all c s") (fastforce split: if_splits)+
qed simp

lemma concat_append_char: "concat (map (\<lambda>s. f s @ [c]) xs) \<noteq> [] \<longleftrightarrow> xs \<noteq> []"
  by (cases xs) simp_all

lemma args_text_join:
  "args \<noteq> [] \<Longrightarrow> args_text args = Inr (join_with CHR '','' (map (asString base64url) args))"
  by (cases args) (simp_all add: args_text_def join_with_def comp_def)

lemma asString_notin:
  "CHR '','' \<notin> set (asString base64url c)" "CHR '':'' \<notin> set (asString base64url c)"
  "CHR ''.'' \<notin> set (asString base64url c)"
proof -
  have "CHR '','' \<notin> insert CHR ''u'' (set (mb_chars base64url))"
    "CHR '':'' \<notin> insert CHR ''u'' (set (mb_chars base64url))"
    "CHR ''.'' \<notin> insert CHR ''u'' (set (mb_chars base64url))"
    by (simp_all add: base64url_def)
  with asString_chars [of c] show
    "CHR '','' \<notin> set (asString base64url c)" "CHR '':'' \<notin> set (asString base64url c)"
    "CHR ''.'' \<notin> set (asString base64url c)" by blast+
qed

lemma parse_args_asString: "list_all wf_cid args \<Longrightarrow> parse_args (map (asString base64url) args) = Some args"
  by (induction args) (simp_all add: cid_parse_base64url)

lemma name_parse_head:
  assumes "name_printable (HeadName h)"
  shows "name_parse (uri_encode (head_asURI h)) = Inr (Some (HeadName h))"
proof -
  let ?parts = "split_all CHR ''/'' (head_Name h)"
  from assms have h: "head_Name h \<noteq> []" "CHR '':'' \<notin> set (head_Name h)" "''.'' \<notin> set ?parts" "''..'' \<notin> set ?parts"
    by (simp_all add: name_printable_def)
  have parts: "\<forall>s \<in> set (''head'' # ?parts). CHR '':'' \<notin> set s \<and> s \<noteq> ''.'' \<and> s \<noteq> ''..''"
  proof
    fix s
    assume "s \<in> set (''head'' # ?parts)"
    then consider "s = ''head''" | "s \<in> set ?parts" by auto
    then show "CHR '':'' \<notin> set s \<and> s \<noteq> ''.'' \<and> s \<noteq> ''..''"
      by cases (use h set_split_all in \<open>auto\<close>)
  qed
  have "getPathString (path_uri (''head'' # ?parts)) 1 = Inr (head_Name h)"
  proof -
    have "butlast (concat (map (\<lambda>segment. segment @ ''/'') ?parts)) = head_Name h"
      using join_with_split_all [of "CHR ''/''" "head_Name h"] by (simp add: join_with_def)
    moreover have "concat (map (\<lambda>segment. segment @ ''/'') ?parts) \<noteq> []"
      unfolding concat_append_char by simp
    ultimately show ?thesis by (simp add: getPathString_def Let_def)
  qed
  moreover have "length ?parts \<ge> 1" by (simp add: Suc_le_eq)
  ultimately have "name_of_uri (path_uri (''head'' # ?parts)) = Inr (Some (HeadName h))"
    using h(1) by (simp add: name_of_uri_def Let_def make_head_def)
  then show ?thesis
    unfolding uri_encode_head by (subst name_parse_path_uri [OF _ _ parts]) simp_all
qed

lemma name_parse_call:
  assumes "name_printable (CallName c)"
  obtains u where "call_asURI c = Inr u" and "name_parse (uri_encode u) = Inr (Some (CallName c))"
proof -
  let ?args = "join_with CHR '','' (map (asString base64url) (call_Args c))"
  let ?segs = "[''call'', call_Name c, ?args]"
  from assms have c: "call_Name c \<noteq> []" "CHR '':'' \<notin> set (call_Name c)" "call_Name c \<noteq> ''.''"
    "call_Name c \<noteq> ''..''" "call_Args c \<noteq> []" "list_all wf_cid (call_Args c)"
    by (simp_all add: name_printable_def)
  have "set ?args \<subseteq> insert CHR '','' (\<Union> (set ` set (map (asString base64url) (call_Args c))))"
    by (rule set_join_with)
  then have a: "CHR '':'' \<notin> set ?args" "CHR ''.'' \<notin> set ?args"
    using asString_notin by auto
  from a(2) have "?args \<noteq> ''.''" "?args \<noteq> ''..''" by (auto dest: arg_cong [where f = set])
  with c a(1) have ok: "\<forall>s \<in> set ?segs. CHR '':'' \<notin> set s \<and> s \<noteq> ''.'' \<and> s \<noteq> ''..''" by simp
  have "split_all CHR '','' ?args = map (asString base64url) (call_Args c)"
    using c(5) asString_notin(1) by (intro split_all_join_with) auto
  then have "name_of_uri (path_uri ?segs) = Inr (Some (CallName c))"
    using c(1,6) by (simp add: name_of_uri_def Let_def parse_args_asString make_call_def)
  then have "name_parse (uri_encode (path_uri ?segs)) = Inr (Some (CallName c))"
    by (subst name_parse_path_uri [OF _ _ ok]) simp_all
  moreover have "call_asURI c = Inr (path_uri ?segs)"
    using c(5) by (simp add: call_asURI_def args_text_join path_uri_def)
  ultimately show thesis by (rule that [rotated])
qed

text \<open>
  C27: \<^verbatim>\<open>Name::parse\<close> reads back the text that a name prints: for a well-formed identifier;
  for a head whose name is not empty, has no colon and, split at slashes, no dot segment;
  and for a call with at least one argument whose function name is not empty, has no colon
  and is not a dot segment.
\<close>

theorem name_roundtrip:
  "name_printable n \<Longrightarrow> \<exists>s. name_text n = Inr s \<and> name_parse s = Inr (Some n)"
proof (cases n)
  case (CIDName c)
  assume "name_printable n"
  with CIDName have wf: "wf_cid c" by (simp add: name_printable_def)
  let ?segs = "[''cid'', asString base64url c]"
  have "asString base64url c \<noteq> ''.''" "asString base64url c \<noteq> ''..''"
    using asString_notin(3) [of c] by (auto dest: arg_cong [where f = set])
  then have ok: "\<forall>s \<in> set ?segs. CHR '':'' \<notin> set s \<and> s \<noteq> ''.'' \<and> s \<noteq> ''..''"
    using asString_notin(2) by simp
  have "name_parse (uri_encode (path_uri ?segs)) = Inr (Some (CIDName c))"
    by (subst name_parse_path_uri [OF _ _ ok])
      (simp_all add: name_of_uri_def Let_def cid_parse_base64url [OF wf])
  then show ?thesis by (simp add: name_text_def name_asURI_def CIDName path_uri_def)
next
  case (HeadName h)
  assume "name_printable n"
  then show ?thesis using name_parse_head [of h] by (simp add: name_text_def name_asURI_def HeadName)
next
  case (CallName c)
  assume "name_printable n"
  with CallName obtain u where "call_asURI c = Inr u" "name_parse (uri_encode u) = Inr (Some (CallName c))"
    using name_parse_call by blast
  then show ?thesis by (simp add: name_text_def name_asURI_def CallName)
qed

theorem name_roundtrip_witness:
  "\<exists>s. name_text (HeadName (make_head ''a//b c'')) = Inr s
     \<and> name_parse s = Inr (Some (HeadName (make_head ''a//b c'')))"
proof -
  have "name_printable (HeadName (make_head ''a//b c''))"
    by (simp add: name_printable_def make_head_def)
  from name_roundtrip [OF this] show ?thesis .
qed

text \<open>
  A colon is printed as it is, and the parser takes everything before the first colon of
  the text for a scheme.
\<close>

lemma colon_in_percentEncode:
  "CHR '':'' \<in> set s \<Longrightarrow> CHR '':'' \<in> set (percentEncode s path_allowed_with_slash)"
  by (induction s) (auto simp: percentEncode_Cons enc_char_def path_allowed_with_slash_def)

lemma parse_authority_no_bracket:
  assumes "CHR ''['' \<notin> set s"
  shows "\<exists>r. parse_authority s = Inr r"
proof -
  have "\<not> starts_with ''['' (takeWhile P (drop 2 s))" for P
  proof
    assume "starts_with ''['' (takeWhile P (drop 2 s))"
    then have "CHR ''['' \<in> set (takeWhile P (drop 2 s))"
      by (auto simp: starts_with_single)
    then have "CHR ''['' \<in> set s" by (blast dest: set_takeWhileD in_set_dropD)
    with assms show False by blast
  qed
  then show ?thesis
    by (auto simp: parse_authority_def split_authority_def Let_def)
qed

lemma uri_parse_colon:
  assumes "CHR '':'' \<in> set s" and "CHR ''['' \<notin> set s" and "hd s \<noteq> CHR '':''"
  shows "uri_parse s allow = Inr None \<or> (\<exists>u. uri_parse s allow = Inr (Some u) \<and> scheme u \<noteq> [])"
proof -
  obtain sch rest where sp: "split_first CHR '':'' s = (sch, rest)" by fastforce
  have "sch \<noteq> []"
    using assms(1,3) sp by (cases s) (auto simp: split_first_def)
  have "rest = drop (Suc (length sch)) s"
    using sp by (auto simp: split_first_def dropWhile_eq_drop)
  then have "CHR ''['' \<notin> set rest" using assms(2) by (auto dest: in_set_dropD)
  then obtain r where r: "parse_authority rest = Inr r" using parse_authority_no_bracket by blast
  show ?thesis
    using assms(1) sp r \<open>sch \<noteq> []\<close>
    by (auto simp: uri_parse_def Let_def split_beta split: option.splits)
qed

text \<open>
  C28: A head whose name has a colon is not found under the URI it prints: the text is
  taken for a URI with a scheme and \<^verbatim>\<open>Name::parse\<close> refuses it.
\<close>

theorem head_with_colon_lost:
  assumes "CHR '':'' \<in> set (head_Name h)"
  shows "name_text (HeadName h) = Inr (uri_encode (head_asURI h))
       \<and> name_parse (uri_encode (head_asURI h)) = Inr None"
proof -
  let ?s = "uri_encode (head_asURI h)"
  have s: "?s = ''/head/'' @ percentEncode (head_Name h) path_allowed_with_slash"
    by (simp add: uri_encode_def head_asURI_def uri_default_def join_with_Cons percentEncode_Cons
        enc_char_def path_allowed_with_slash_def)
  have "CHR ''['' \<notin> set (percentEncode (head_Name h) path_allowed_with_slash)"
    by (rule notin_percentEncode [OF hex_subset(3)]) (simp_all add: path_allowed_with_slash_def)
  then have "CHR ''['' \<notin> set ?s" by (simp add: s)
  moreover have "CHR '':'' \<in> set ?s" using colon_in_percentEncode [OF assms] by (simp add: s)
  moreover have "hd ?s \<noteq> CHR '':''" by (simp add: s)
  ultimately have "name_parse ?s = Inr None"
    using uri_parse_colon [of ?s False] by (auto simp: name_parse_def)
  then show ?thesis by (simp add: name_text_def name_asURI_def)
qed

theorem head_with_colon_lost_witness:
  "name_text (HeadName (make_head ''a:b'')) = Inr ''/head/a:b'' \<and> name_parse ''/head/a:b'' = Inr None"
proof -
  have "CHR '':'' \<in> set (head_Name (make_head ''a:b''))" by (simp add: make_head_def)
  moreover have "uri_encode (head_asURI (make_head ''a:b'')) = ''/head/a:b''" by code_simp
  ultimately show ?thesis using head_with_colon_lost [of "make_head ''a:b''"] by simp
qed

end
