(* ===== verification/Memo_Store.thy ===== *)
theory Memo_Store
  imports Names CBOR
begin

section \<open>Store: the interface of the databases\<close>

text \<open>
  The abstract class \<^verbatim>\<open>Store\<close> of \<^verbatim>\<open>memodb/include/memodb/Store.h\<close>, the functions
  \<^verbatim>\<open>memodb/lib/Store.cpp\<close> builds on top of it, and class \<^verbatim>\<open>Link\<close> of \<^verbatim>\<open>memodb/lib/Node.cpp\<close>.

  The record \<open>store\<close> is the table of virtual functions over a state type; an operation that
  changes the database returns the new state. \<open>eachHead\<close> and \<open>eachCall\<close> take a callback
  that can stop the iteration; here they return the sequence the callback is offered, and
  \<open>each_until\<close> is the loop around it. A call that aborts the program returns a value of
  type \<open>abort\<close>.

  \<open>spec\<close> is what a database promises to hold, with one operation per virtual function, and
  the locale \<open>store_impl\<close> is the contract of an implementation: each of its operations
  returns and computes the operation on \<open>spec\<close>. The lemmas of the locale are what every
  client may rely on. The other lemmas concern \<^verbatim>\<open>list_paths_to\<close>: with an acyclic store it
  returns, and it returns exactly the paths that lead to the node.
\<close>

datatype abort =
    ReportFatal string
  | CantFail
  | EmptyOptional
  | AssertFailed
  | NodeFatal fatal
  | Undefined ub
  | Unreachable
  | UseAfterFree
  | ExitProgram nat
  | Diverges

record 's store =
  st_getOptional :: "'s \<Rightarrow> cid \<Rightarrow> abort + node option"
  st_resolveOptional :: "'s \<Rightarrow> name \<Rightarrow> abort + cid option"
  st_put :: "'s \<Rightarrow> node \<Rightarrow> abort + cid \<times> 's"
  st_set :: "'s \<Rightarrow> name \<Rightarrow> cid \<Rightarrow> abort + 's"
  st_list_names_using :: "'s \<Rightarrow> cid \<Rightarrow> abort + name list"
  st_list_funcs :: "'s \<Rightarrow> abort + string list"
  st_eachHead :: "'s \<Rightarrow> abort + head list"
  st_eachCall :: "'s \<Rightarrow> string \<Rightarrow> abort + call list"
  st_head_delete :: "'s \<Rightarrow> head \<Rightarrow> abort + 's"
  st_call_invalidate :: "'s \<Rightarrow> string \<Rightarrow> abort + 's"

fun each_until :: "('x \<Rightarrow> 'a \<Rightarrow> bool \<times> 'a) \<Rightarrow> 'x list \<Rightarrow> 'a \<Rightarrow> 'a" where
  "each_until F [] a = a"
| "each_until F (x # xs) a = (let (stop, a) = F x a in if stop then a else each_until F xs a)"

subsection \<open>Opening a store\<close>

datatype backend = OpenSQLite string | OpenCAR string | OpenRocksDB string | OpenHTTP string

definition store_open :: "string \<Rightarrow> abort + backend" where
  "store_open u =
     (if starts_with ''sqlite:'' u then Inr (OpenSQLite (drop 7 u))
      else if starts_with ''car:'' u then Inr (OpenCAR u)
      else if starts_with ''rocksdb:'' u then Inr (OpenRocksDB u)
      else if starts_with ''http:'' u \<or> starts_with ''https:'' u \<or> starts_with ''tcp:'' u \<or> starts_with ''unix:'' u
        then Inr (OpenHTTP u)
      else Inl (ReportFatal (''unsupported store URI '' @ u)))"

subsection \<open>Functions of the base class\<close>

definition deref :: "'a option \<Rightarrow> abort + 'a" where
  "deref x = (case x of None \<Rightarrow> Inl EmptyOptional | Some a \<Rightarrow> Inr a)"

definition store_has_cid :: "'s store \<Rightarrow> 's \<Rightarrow> cid \<Rightarrow> abort + bool" where
  "store_has_cid S s c = then_do (st_getOptional S s c) (\<lambda>r. Inr (r \<noteq> None))"

definition store_has :: "'s store \<Rightarrow> 's \<Rightarrow> name \<Rightarrow> abort + bool" where
  "store_has S s n = (case n of
     CIDName c \<Rightarrow> store_has_cid S s c
   | _ \<Rightarrow> then_do (st_resolveOptional S s n) (\<lambda>r. Inr (r \<noteq> None)))"

definition store_get :: "'s store \<Rightarrow> 's \<Rightarrow> cid \<Rightarrow> abort + node" where
  "store_get S s c = then_do (st_getOptional S s c) deref"

definition store_resolve :: "'s store \<Rightarrow> 's \<Rightarrow> name \<Rightarrow> abort + cid" where
  "store_resolve S s n = then_do (st_resolveOptional S s n) deref"

definition list_heads :: "'s store \<Rightarrow> 's \<Rightarrow> abort + head list" where
  "list_heads S s = then_do (st_eachHead S s) (\<lambda>hs.
     Inr (each_until (\<lambda>h Result. (False, Result @ [h])) hs []))"

definition list_calls :: "'s store \<Rightarrow> 's \<Rightarrow> string \<Rightarrow> abort + call list" where
  "list_calls S s func = then_do (st_eachCall S s func) (\<lambda>cs.
     Inr (each_until (\<lambda>c Result. (False, Result @ [c])) cs []))"

text \<open>
  \<^verbatim>\<open>list_paths_to\<close>. \<open>paths_within\<close> is the recursive lambda of \<^verbatim>\<open>listPathsWithin\<close>: the
  positions of a node that link to \<open>Ref\<close>, as lists of indices and keys below \<open>CurPath\<close>.
  The outer recursion follows the users of a node upwards; the fuel bounds the number of
  levels.
\<close>

fun paths_within :: "cid \<Rightarrow> node list \<Rightarrow> node \<Rightarrow> node list list"
and paths_items :: "cid \<Rightarrow> node list \<Rightarrow> nat \<Rightarrow> node list \<Rightarrow> node list list"
and paths_members :: "cid \<Rightarrow> node list \<Rightarrow> (string \<times> node) list \<Rightarrow> node list list" where
  "paths_within Ref CurPath (Link c) = (if cid_eq c Ref then [CurPath] else [])"
| "paths_within Ref CurPath (List xs) = paths_items Ref CurPath 0 xs"
| "paths_within Ref CurPath (Map ms) = paths_members Ref CurPath ms"
| "paths_within Ref CurPath _ = []"
| "paths_items Ref CurPath i [] = []"
| "paths_items Ref CurPath i (x # xs) =
     paths_within Ref (CurPath @ [UInt64 (of_nat i)]) x @ paths_items Ref CurPath (Suc i) xs"
| "paths_members Ref CurPath [] = []"
| "paths_members Ref CurPath ((k, v) # ms) =
     paths_within Ref (CurPath @ [String k]) v @ paths_members Ref CurPath ms"

type_synonym path = "name \<times> node list"

fun collect :: "('x \<Rightarrow> (abort + 'a list) option) \<Rightarrow> 'x list \<Rightarrow> (abort + 'a list) option" where
  "collect f [] = Some (Inr [])"
| "collect f (x # xs) = and_then (f x) (\<lambda>ys. and_then (collect f xs) (\<lambda>zs. Some (Inr (ys @ zs))))"

lemma collect_cong [fundef_cong]:
  "xs = ys \<Longrightarrow> (\<And>x. x \<in> set ys \<Longrightarrow> f x = g x) \<Longrightarrow> collect f xs = collect g ys"
  by (induction ys arbitrary: xs) auto

fun paths_up :: "'s store \<Rightarrow> 's \<Rightarrow> nat \<Rightarrow> cid \<Rightarrow> node list \<Rightarrow> (abort + path list) option" where
  "paths_up S s 0 Ref BackwardsPath = None"
| "paths_up S s (Suc fuel) Ref BackwardsPath =
     and_then (Some (st_list_names_using S s Ref)) (collect (\<lambda>Parent.
       case Parent of
         CIDName ParentRef \<Rightarrow>
           and_then (Some (store_get S s ParentRef)) (\<lambda>n.
             collect (\<lambda>Subpath. paths_up S s fuel ParentRef (BackwardsPath @ rev Subpath))
               (paths_within Ref [] n))
       | _ \<Rightarrow> Some (Inr [(Parent, rev BackwardsPath)])))"

definition list_paths_to :: "'s store \<Rightarrow> 's \<Rightarrow> nat \<Rightarrow> cid \<Rightarrow> (abort + path list) option" where
  "list_paths_to S s fuel ref = paths_up S s fuel ref []"

subsection \<open>Links\<close>

text \<open>
  A \<^verbatim>\<open>Link\<close> caches the node, its identifier or both. The accessors are \<^verbatim>\<open>const\<close> in the
  source but fill the mutable caches, and \<^verbatim>\<open>getCID\<close> writes to the store; so they return
  the link and the state.
\<close>

record link =
  link_cid :: "cid option"
  link_node :: "node option"

datatype node_or_cid = IsNode node | IsCID cid

definition link_of :: "node_or_cid \<Rightarrow> link" where
  "link_of x = (case x of
     IsCID c \<Rightarrow> \<lparr>link_cid = Some c, link_node = None\<rparr>
   | IsNode n \<Rightarrow> \<lparr>link_cid = None, link_node = Some n\<rparr>)"

definition link_deref :: "'s store \<Rightarrow> 's \<Rightarrow> link \<Rightarrow> abort + node \<times> link" where
  "link_deref S s l = (case link_node l of
     Some n \<Rightarrow> Inr (n, l)
   | None \<Rightarrow> then_do (deref (link_cid l)) (\<lambda>c.
       then_do (store_get S s c) (\<lambda>n. Inr (n, l\<lparr>link_node := Some n\<rparr>))))"

definition link_getCID :: "'s store \<Rightarrow> 's \<Rightarrow> link \<Rightarrow> abort + cid \<times> link \<times> 's" where
  "link_getCID S s l = (case link_cid l of
     Some c \<Rightarrow> Inr (c, l, s)
   | None \<Rightarrow> then_do (deref (link_node l)) (\<lambda>n.
       then_do (st_put S s n) (\<lambda>(c, s). Inr (c, l\<lparr>link_cid := Some c\<rparr>, s))))"

definition link_freeNode :: "'s store \<Rightarrow> 's \<Rightarrow> link \<Rightarrow> abort + link \<times> 's" where
  "link_freeNode S s l = then_do (link_getCID S s l) (\<lambda>(c, l, s). Inr (l\<lparr>link_node := None\<rparr>, s))"

definition link_eq :: "'s store \<Rightarrow> 's \<Rightarrow> link \<Rightarrow> link \<Rightarrow> abort + bool \<times> link \<times> link \<times> 's" where
  "link_eq S s l other = then_do (link_getCID S s l) (\<lambda>(c, l, s).
     then_do (link_getCID S s other) (\<lambda>(d, other, s). Inr (cid_eq c d, l, other, s)))"

definition link_less :: "'s store \<Rightarrow> 's \<Rightarrow> link \<Rightarrow> link \<Rightarrow> abort + bool \<times> link \<times> link \<times> 's" where
  "link_less S s l other = then_do (link_getCID S s l) (\<lambda>(c, l, s).
     then_do (link_getCID S s other) (\<lambda>(d, other, s). Inr (cid_less c d, l, other, s)))"

subsection \<open>What a store promises\<close>

record spec =
  sp_blocks :: "cid \<Rightarrow> node option"
  sp_heads :: "string \<Rightarrow> cid option"
  sp_calls :: "string \<Rightarrow> cid list \<Rightarrow> cid option"

definition spec_get :: "(string \<Rightarrow> bool) \<Rightarrow> spec \<Rightarrow> cid \<Rightarrow> abort + node option" where
  "spec_get utf8 sp c =
     (if isIdentity c
      then (case loadFromIPLD utf8 c [] of Inl _ \<Rightarrow> Inl CantFail | Inr n \<Rightarrow> Inr (Some n))
      else Inr (sp_blocks sp c))"

text \<open>The nodes that can be reached from a node by following links, also those of identity identifiers.\<close>

inductive linked :: "(string \<Rightarrow> bool) \<Rightarrow> spec \<Rightarrow> cid \<Rightarrow> cid \<Rightarrow> bool" for utf8 sp r where
  linked_refl: "linked utf8 sp r r"
| linked_step: "linked utf8 sp r c \<Longrightarrow> spec_get utf8 sp c = Inr (Some v) \<Longrightarrow> d \<in> set (eachLink v) \<Longrightarrow> linked utf8 sp r d"

definition spec_resolve :: "spec \<Rightarrow> name \<Rightarrow> cid option" where
  "spec_resolve sp n = (case n of
     CIDName c \<Rightarrow> Some c
   | HeadName h \<Rightarrow> sp_heads sp (head_Name h)
   | CallName c \<Rightarrow> sp_calls sp (call_Name c) (call_Args c))"

definition spec_put :: "(bytes \<Rightarrow> bytes) \<Rightarrow> spec \<Rightarrow> node \<Rightarrow> cid \<times> spec" where
  "spec_put blake2b sp n =
     (let c = fst (saveAsIPLD blake2b False n) in
      (c, if isIdentity c then sp else sp\<lparr>sp_blocks := (sp_blocks sp)(c \<mapsto> cbor_norm n)\<rparr>))"

definition spec_set :: "spec \<Rightarrow> name \<Rightarrow> cid \<Rightarrow> spec" where
  "spec_set sp n ref = (case n of
     CIDName c \<Rightarrow> sp
   | HeadName h \<Rightarrow> sp\<lparr>sp_heads := (sp_heads sp)(head_Name h \<mapsto> ref)\<rparr>
   | CallName c \<Rightarrow> sp\<lparr>sp_calls := (sp_calls sp)(call_Name c := (sp_calls sp (call_Name c))(call_Args c \<mapsto> ref))\<rparr>)"

definition spec_head_delete :: "spec \<Rightarrow> head \<Rightarrow> spec" where
  "spec_head_delete sp h = sp\<lparr>sp_heads := (sp_heads sp)(head_Name h := None)\<rparr>"

definition spec_call_invalidate :: "spec \<Rightarrow> string \<Rightarrow> spec" where
  "spec_call_invalidate sp f = sp\<lparr>sp_calls := (sp_calls sp)(f := \<lambda>_. None)\<rparr>"

definition spec_uses :: "spec \<Rightarrow> name \<Rightarrow> cid \<Rightarrow> bool" where
  "spec_uses sp n ref = (case n of
     CIDName c \<Rightarrow> (\<exists>v. sp_blocks sp c = Some v \<and> ref \<in> set (eachLink v))
   | HeadName h \<Rightarrow> sp_heads sp (head_Name h) = Some ref
   | CallName c \<Rightarrow> (\<exists>r. sp_calls sp (call_Name c) (call_Args c) = Some r \<and> (ref = r \<or> ref \<in> set (call_Args c))))"

definition wf_name :: "(string \<Rightarrow> bool) \<Rightarrow> name \<Rightarrow> bool" where
  "wf_name utf8 n = (case n of
     CIDName c \<Rightarrow> wf_cid c
   | HeadName h \<Rightarrow> True
   | CallName c \<Rightarrow> utf8 (call_Name c) \<and> length (call_Name c) < 2 ^ 64 \<and> list_all wf_cid (call_Args c))"

definition storable :: "(string \<Rightarrow> bool) \<Rightarrow> node \<Rightarrow> bool" where
  "storable utf8 n \<longleftrightarrow> wf_node utf8 n \<and> content_size n < 2 ^ 63"

text \<open>No other node with the same hash is stored.\<close>

definition no_collision :: "(bytes \<Rightarrow> bytes) \<Rightarrow> spec \<Rightarrow> node \<Rightarrow> bool" where
  "no_collision blake2b sp n \<longleftrightarrow>
     (let b = sp_blocks sp (fst (saveAsIPLD blake2b False n)) in b = None \<or> b = Some (cbor_norm n))"

definition proper_name :: "name \<Rightarrow> bool" where
  "proper_name n = (case n of CIDName c \<Rightarrow> False | _ \<Rightarrow> True)"

locale store_impl =
  fixes S :: "'s store"
    and blake2b :: "bytes \<Rightarrow> bytes"
    and utf8 :: "string \<Rightarrow> bool"
    and inv :: "'s \<Rightarrow> bool"
    and abs :: "'s \<Rightarrow> spec"
  assumes hash_length: "inv s \<Longrightarrow> length (blake2b bs) = 32"
    and get_spec: "inv s \<Longrightarrow> wf_cid c \<Longrightarrow> st_getOptional S s c = spec_get utf8 (abs s) c"
    and resolve_spec: "inv s \<Longrightarrow> wf_name utf8 n \<Longrightarrow> st_resolveOptional S s n = Inr (spec_resolve (abs s) n)"
    and put_spec: "inv s \<Longrightarrow> storable utf8 v \<Longrightarrow> no_collision blake2b (abs s) v \<Longrightarrow>
      \<exists>s'. st_put S s v = Inr (fst (spec_put blake2b (abs s) v), s') \<and> inv s'
         \<and> abs s' = snd (spec_put blake2b (abs s) v)"
    and set_spec: "inv s \<Longrightarrow> wf_name utf8 n \<Longrightarrow> proper_name n \<Longrightarrow> wf_cid ref \<Longrightarrow>
      \<exists>s'. st_set S s n ref = Inr s' \<and> inv s' \<and> abs s' = spec_set (abs s) n ref"
    and set_CID: "inv s \<Longrightarrow> \<exists>e. st_set S s (CIDName c) ref = Inl e"
    and users_spec: "inv s \<Longrightarrow> wf_cid ref \<Longrightarrow> \<not> isIdentity ref \<Longrightarrow>
      \<exists>ns. st_list_names_using S s ref = Inr ns \<and> (\<forall>n. n \<in> set ns \<longleftrightarrow> spec_uses (abs s) n ref)"
    and funcs_spec: "inv s \<Longrightarrow>
      \<exists>fs. st_list_funcs S s = Inr fs \<and> distinct fs \<and> set fs = {f. \<exists>args. sp_calls (abs s) f args \<noteq> None}"
    and heads_spec: "inv s \<Longrightarrow>
      \<exists>hs. st_eachHead S s = Inr hs \<and> distinct hs \<and> set hs = {h. sp_heads (abs s) (head_Name h) \<noteq> None}"
    and calls_spec: "inv s \<Longrightarrow> utf8 f \<Longrightarrow> length f < 2 ^ 64 \<Longrightarrow>
      \<exists>cs. st_eachCall S s f = Inr cs \<and> distinct cs
         \<and> set cs = {c. call_Name c = f \<and> sp_calls (abs s) f (call_Args c) \<noteq> None}"
    and head_delete_spec: "inv s \<Longrightarrow>
      \<exists>s'. st_head_delete S s h = Inr s' \<and> inv s' \<and> abs s' = spec_head_delete (abs s) h"
    and call_invalidate_spec: "inv s \<Longrightarrow> utf8 f \<Longrightarrow> length f < 2 ^ 64 \<Longrightarrow>
      \<exists>s'. st_call_invalidate S s f = Inr s' \<and> inv s' \<and> abs s' = spec_call_invalidate (abs s) f"
begin

lemma put_get:
  assumes "inv s" and "storable utf8 v" and "no_collision blake2b (abs s) v"
  shows "\<exists>s'. st_put S s v = Inr (fst (saveAsIPLD blake2b False v), s') \<and> inv s'
    \<and> st_getOptional S s' (fst (saveAsIPLD blake2b False v)) = Inr (Some (cbor_norm v))"
proof -
  obtain c content where save: "saveAsIPLD blake2b False v = (c, content)" by fastforce
  from assms(2) have v: "wf_node utf8 v" "content_size v < 2 ^ 63" by (simp_all add: storable_def)
  have wf: "wf_cid c"
    using saveAsIPLD_cid(1) [OF _ v(2) save] hash_length [OF assms(1)] by blast
  obtain s' where s': "st_put S s v = Inr (c, s')" "inv s'" "abs s' = snd (spec_put blake2b (abs s) v)"
    using put_spec [OF assms] save by (auto simp: spec_put_def Let_def)
  moreover have "spec_get utf8 (abs s') c = Inr (Some (cbor_norm v))"
  proof (cases "isIdentity c")
    case True
    with saveAsIPLD_roundtrip [OF v(1) save] saveAsIPLD_content(1) [OF save] show ?thesis
      by (simp add: spec_get_def)
  next
    case False
    with s'(3) save show ?thesis by (simp add: spec_get_def spec_put_def)
  qed
  ultimately show ?thesis using get_spec [OF s'(2) wf] save by auto
qed

lemma put_keeps:
  assumes "inv s" and "storable utf8 v" and "no_collision blake2b (abs s) v" and "st_put S s v = Inr (c, s')"
    and "wf_cid d" and "st_getOptional S s d = Inr (Some n)"
  shows "st_getOptional S s' d = Inr (Some n)"
proof -
  obtain t where "st_put S s v = Inr (fst (spec_put blake2b (abs s) v), t)" "inv t"
    "abs t = snd (spec_put blake2b (abs s) v)"
    using put_spec [OF assms(1-3)] by blast
  with assms(4) have s': "inv s'" "abs s' = snd (spec_put blake2b (abs s) v)" by auto
  have "spec_get utf8 (abs s) d = Inr (Some n)"
    using assms(6) get_spec [OF assms(1,5)] by simp
  then have "spec_get utf8 (abs s') d = Inr (Some n)"
    using assms(3) by (auto simp: s'(2) spec_get_def spec_put_def no_collision_def Let_def split: if_splits)
  then show ?thesis using get_spec [OF s'(1) assms(5)] by simp
qed

lemma set_resolve:
  assumes "inv s" and "wf_name utf8 n" and "proper_name n" and "wf_cid ref"
  shows "\<exists>s'. st_set S s n ref = Inr s' \<and> inv s' \<and> st_resolveOptional S s' n = Inr (Some ref)
    \<and> (\<forall>m. wf_name utf8 m \<and> m \<noteq> n \<longrightarrow> st_resolveOptional S s' m = st_resolveOptional S s m)"
proof -
  obtain s' where s': "st_set S s n ref = Inr s'" "inv s'" "abs s' = spec_set (abs s) n ref"
    using set_spec [OF assms] by blast
  have "spec_resolve (abs s') n = Some ref"
    using assms(3) by (simp add: s'(3) spec_resolve_def spec_set_def proper_name_def split: name.splits)
  moreover have "spec_resolve (abs s') m = spec_resolve (abs s) m" if "m \<noteq> n" for m
    using that by (auto simp: s'(3) spec_resolve_def spec_set_def split: name.splits)
  ultimately show ?thesis
    using s'(1,2) resolve_spec [OF assms(1)] resolve_spec [OF s'(2)] assms(2) by auto
qed

lemma free_deref:
  assumes "inv s" and "storable utf8 v" and "no_collision blake2b (abs s) v"
  shows "\<exists>l s'. link_freeNode S s (link_of (IsNode v)) = Inr (l, s') \<and> inv s' \<and> link_node l = None
    \<and> link_deref S s' l = Inr (cbor_norm v, l\<lparr>link_node := Some (cbor_norm v)\<rparr>)"
  using put_get [OF assms]
  by (auto simp: link_freeNode_def link_getCID_def link_deref_def link_of_def deref_def store_get_def)

end

subsection \<open>Paths to a node\<close>

inductive leads_to :: "'s store \<Rightarrow> 's \<Rightarrow> name \<Rightarrow> node list \<Rightarrow> cid \<Rightarrow> bool" for S s where
  top: "st_list_names_using S s ref = Inr ns \<Longrightarrow> n \<in> set ns \<Longrightarrow> proper_name n \<Longrightarrow> leads_to S s n [] ref"
| down: "leads_to S s n p parent \<Longrightarrow> st_list_names_using S s ref = Inr ns \<Longrightarrow> CIDName parent \<in> set ns \<Longrightarrow>
    store_get S s parent = Inr v \<Longrightarrow> sub \<in> set (paths_within ref [] v) \<Longrightarrow> leads_to S s n (p @ sub) ref"

inductive_cases leads_toE: "leads_to S s n p ref"

text \<open>
  The identifiers in \<open>C\<close> can be followed upwards, and every step decreases the rank: the
  nodes of a store refer to each other by hash, so no node refers to itself.
\<close>

definition store_acyclic :: "'s store \<Rightarrow> 's \<Rightarrow> cid set \<Rightarrow> (cid \<Rightarrow> nat) \<Rightarrow> bool" where
  "store_acyclic S s C rank \<longleftrightarrow>
     (\<forall>ref \<in> C. \<exists>ns. st_list_names_using S s ref = Inr ns \<and>
        (\<forall>p. CIDName p \<in> set ns \<longrightarrow> p \<in> C \<and> rank p < rank ref \<and> (\<exists>v. store_get S s p = Inr v)))"

lemma collect_all:
  assumes "\<And>x. x \<in> set xs \<Longrightarrow> \<exists>ys. f x = Some (Inr ys) \<and> (\<forall>y. y \<in> set ys \<longleftrightarrow> R x y)"
  shows "\<exists>zs. collect f xs = Some (Inr zs) \<and> (\<forall>y. y \<in> set zs \<longleftrightarrow> (\<exists>x \<in> set xs. R x y))"
  using assms
proof (induction xs)
  case (Cons x xs)
  then obtain zs where zs: "collect f xs = Some (Inr zs)" "\<forall>y. y \<in> set zs \<longleftrightarrow> (\<exists>x \<in> set xs. R x y)"
    by auto
  from Cons.prems [of x] obtain ys where "f x = Some (Inr ys)" "\<forall>y. y \<in> set ys \<longleftrightarrow> R x y" by auto
  with zs show ?case by auto
qed simp

lemma paths_up_correct:
  assumes "store_acyclic S s C rank"
  shows "ref \<in> C \<Longrightarrow> rank ref < fuel \<Longrightarrow>
    \<exists>ps. paths_up S s fuel ref bp = Some (Inr ps)
       \<and> (\<forall>y. y \<in> set ps \<longleftrightarrow> (\<exists>n p. y = (n, p @ rev bp) \<and> leads_to S s n p ref))"
proof (induction fuel arbitrary: ref bp)
  case (Suc fuel)
  from assms \<open>ref \<in> C\<close> obtain ns where ns: "st_list_names_using S s ref = Inr ns"
    "\<And>p. CIDName p \<in> set ns \<Longrightarrow> p \<in> C \<and> rank p < rank ref \<and> (\<exists>v. store_get S s p = Inr v)"
    unfolding store_acyclic_def by blast
  define R where "R = (\<lambda>parent y. case parent of
      CIDName c \<Rightarrow> \<exists>v sub n p. store_get S s c = Inr v \<and> sub \<in> set (paths_within ref [] v)
        \<and> y = (n, p @ sub @ rev bp) \<and> leads_to S s n p c
    | _ \<Rightarrow> y = (parent, rev bp))"
  let ?f = "\<lambda>Parent. case Parent of
       CIDName c \<Rightarrow> and_then (Some (store_get S s c)) (\<lambda>n.
         collect (\<lambda>sub. paths_up S s fuel c (bp @ rev sub)) (paths_within ref [] n))
     | _ \<Rightarrow> Some (Inr [(Parent, rev bp)])"
  have "\<exists>ys. ?f parent = Some (Inr ys) \<and> (\<forall>y. y \<in> set ys \<longleftrightarrow> R parent y)" if "parent \<in> set ns" for parent
  proof (cases parent)
    case (CIDName c)
    with that ns(2) obtain v where c: "c \<in> C" "rank c < rank ref" and v: "store_get S s c = Inr v" by blast
    from c(2) Suc.prems(2) have "rank c < fuel" by simp
    from Suc.IH [OF c(1) this]
    have "\<exists>zs. collect (\<lambda>sub. paths_up S s fuel c (bp @ rev sub)) (paths_within ref [] v) = Some (Inr zs)
        \<and> (\<forall>y. y \<in> set zs \<longleftrightarrow> (\<exists>sub \<in> set (paths_within ref [] v).
              \<exists>n p. y = (n, p @ rev (bp @ rev sub)) \<and> leads_to S s n p c))"
      by (intro collect_all)
    moreover have "R parent y \<longleftrightarrow> (\<exists>sub \<in> set (paths_within ref [] v).
        \<exists>n p. y = (n, p @ rev (bp @ rev sub)) \<and> leads_to S s n p c)" for y
      by (simp add: R_def CIDName v Bex_def)
    ultimately show ?thesis by (simp add: CIDName v)
  qed (auto simp: R_def)
  note all = this
  from collect_all [of ns ?f R, OF all] obtain zs where zs: "collect ?f ns = Some (Inr zs)"
    "\<And>y. y \<in> set zs \<longleftrightarrow> (\<exists>parent \<in> set ns. R parent y)" by blast
  have "(\<exists>parent \<in> set ns. R parent y) \<longleftrightarrow> (\<exists>n p. y = (n, p @ rev bp) \<and> leads_to S s n p ref)" for y
  proof
    assume "\<exists>parent \<in> set ns. R parent y"
    then obtain parent where p: "parent \<in> set ns" "R parent y" by blast
    show "\<exists>n p. y = (n, p @ rev bp) \<and> leads_to S s n p ref"
    proof (cases parent)
      case (CIDName c)
      with p(2) obtain v sub n q where "store_get S s c = Inr v" "sub \<in> set (paths_within ref [] v)"
        "y = (n, q @ sub @ rev bp)" "leads_to S s n q c"
        unfolding R_def by auto
      with p(1) CIDName leads_to.down [OF _ ns(1)] have "leads_to S s n (q @ sub) ref" by blast
      with \<open>y = (n, q @ sub @ rev bp)\<close> show ?thesis by auto
    qed (use leads_to.top [OF ns(1) p(1)] p(2) in \<open>auto simp: R_def proper_name_def\<close>)
  next
    assume "\<exists>n p. y = (n, p @ rev bp) \<and> leads_to S s n p ref"
    then obtain n p where y: "y = (n, p @ rev bp)" and "leads_to S s n p ref" by blast
    from this(2) show "\<exists>parent \<in> set ns. R parent y"
    proof (cases rule: leads_to.cases)
      case (top ns')
      then have "R n y" using y by (auto simp: R_def proper_name_def split: name.splits)
      with top ns(1) show ?thesis by auto
    next
      case (down q c ns' v sub)
      then have "R (CIDName c) y" using y by (auto simp: R_def)
      with down ns(1) show ?thesis by auto
    qed
  qed
  with zs ns(1) show ?case by simp
qed simp

text \<open>
  C29: \<^verbatim>\<open>list_paths_to\<close> returns for every node of an acyclic store, with fuel for one level
  more than the rank of the node, and lists exactly the paths that lead from a head or a
  call down to the node.
\<close>

theorem list_paths_to_correct:
  assumes "store_acyclic S s C rank" and "ref \<in> C" and "rank ref < fuel"
  shows "\<exists>ps. list_paths_to S s fuel ref = Some (Inr ps)
       \<and> (\<forall>n p. (n, p) \<in> set ps \<longleftrightarrow> leads_to S s n p ref)"
  using paths_up_correct [OF assms, of "[]"] by (auto simp: list_paths_to_def)

definition example_store :: "unit store" where
  "example_store = \<lparr>
     st_getOptional = \<lambda>_ c. Inr (Some (List [Null, Link (make_cid Raw Identity [1])])),
     st_resolveOptional = \<lambda>_ n. Inr None,
     st_put = \<lambda>s n. Inr (fst (saveAsIPLD (\<lambda>_. replicate 32 0) False n), s),
     st_set = \<lambda>s n c. Inr s,
     st_list_names_using = \<lambda>_ c. Inr (if c = make_cid Raw Identity [1] then [CIDName (make_cid Raw Identity [2])]
       else if c = make_cid Raw Identity [2] then [HeadName (make_head ''h'')] else []),
     st_list_funcs = \<lambda>_. Inr [],
     st_eachHead = \<lambda>_. Inr [make_head ''h''],
     st_eachCall = \<lambda>_ f. Inr [],
     st_head_delete = \<lambda>s h. Inr s,
     st_call_invalidate = \<lambda>s f. Inr s\<rparr>"

theorem list_paths_to_correct_witness:
  "leads_to example_store () (HeadName (make_head ''h'')) [UInt64 1] (make_cid Raw Identity [1])
   \<and> list_paths_to example_store () 2 (make_cid Raw Identity [1])
     = Some (Inr [(HeadName (make_head ''h''), [UInt64 1])])"
proof -
  let ?a = "make_cid Raw Identity [1]" and ?b = "make_cid Raw Identity [2]"
  let ?rank = "\<lambda>c. if c = ?a then 1 else 0 :: nat"
  have ab: "?a \<noteq> ?b" by code_simp
  have "store_acyclic example_store () {?a, ?b} ?rank"
    using ab by (simp add: store_acyclic_def example_store_def store_get_def deref_def)
  from list_paths_to_correct [OF this, of ?a 2]
  have "\<forall>n p. (n, p) \<in> set [(HeadName (make_head ''h''), [UInt64 1])]
      \<longleftrightarrow> leads_to example_store () n p ?a"
    if "list_paths_to example_store () 2 ?a = Some (Inr [(HeadName (make_head ''h''), [UInt64 1])])"
    using that by simp
  moreover have "list_paths_to example_store () 2 ?a = Some (Inr [(HeadName (make_head ''h''), [UInt64 1])])"
    by code_simp
  ultimately show ?thesis by auto
qed

text \<open>The positions \<^verbatim>\<open>listPathsWithin\<close> finds are those from which a walk arrives at the link.\<close>

fun walk :: "node \<Rightarrow> node list \<Rightarrow> node option" where
  "walk v [] = Some v"
| "walk (List xs) (UInt64 i # p) = (if unat i < length xs then walk (xs ! unat i) p else None)"
| "walk (Map ms) (String k # p) = (case nm_lookup ms k of None \<Rightarrow> None | Some v \<Rightarrow> walk v p)"
| "walk _ (_ # _) = None"

lemma paths_prefix:
  "\<forall>cur. paths_within Ref cur v = map ((@) cur) (paths_within Ref [] v)"
  "\<forall>cur i. paths_items Ref cur i xs = map ((@) cur) (paths_items Ref [] i xs)"
  "\<forall>cur. paths_members Ref cur ms = map ((@) cur) (paths_members Ref [] ms)"
proof (induction v and xs and ms rule: eachLink_eachLink_items_eachLink_members.induct)
  case (2 xs)
  then show ?case unfolding paths_within.simps by blast
next
  case (3 ms)
  then show ?case unfolding paths_within.simps by blast
next
  case (6 x xs)
  note x = "6.IH"(1) [rule_format] and xs = "6.IH"(2) [rule_format]
  show ?case
  proof (intro allI)
    fix cur i
    show "paths_items Ref cur i (x # xs) = map ((@) cur) (paths_items Ref [] i (x # xs))"
      by (simp add: x [of "cur @ [UInt64 (of_nat i)]"] x [of "[UInt64 (of_nat i)]"])
        (rule xs [of cur "Suc i"])
  qed
next
  case (8 k v ms)
  note v = "8.IH"(1) [rule_format] and ms = "8.IH"(2) [rule_format]
  show ?case
  proof
    fix cur
    show "paths_members Ref cur ((k, v) # ms) = map ((@) cur) (paths_members Ref [] ((k, v) # ms))"
      by (simp add: v [of "cur @ [String k]"] v [of "[String k]"]) (rule ms [of cur])
  qed
qed simp_all

lemmas paths_within_prefix = paths_prefix(1) [rule_format]

lemma paths_items_iff:
  "p \<in> set (paths_items Ref [] i xs) \<longleftrightarrow>
   (\<exists>j < length xs. \<exists>q \<in> set (paths_within Ref [] (xs ! j)). p = UInt64 (of_nat (i + j)) # q)"
proof (induction xs arbitrary: i)
  case (Cons x xs)
  have "p \<in> set (paths_within Ref [UInt64 (of_nat i)] x) \<longleftrightarrow>
      (\<exists>q \<in> set (paths_within Ref [] x). p = UInt64 (of_nat i) # q)"
    by (subst paths_within_prefix) auto
  then have "p \<in> set (paths_items Ref [] i (x # xs)) \<longleftrightarrow>
      (\<exists>q \<in> set (paths_within Ref [] ((x # xs) ! 0)). p = UInt64 (of_nat (i + 0)) # q) \<or>
      (\<exists>j < length xs. \<exists>q \<in> set (paths_within Ref [] ((x # xs) ! Suc j)). p = UInt64 (of_nat (i + Suc j)) # q)"
    using Cons.IH [of "Suc i"] by simp
  also have "\<dots> \<longleftrightarrow> (\<exists>j < length (x # xs). \<exists>q \<in> set (paths_within Ref [] ((x # xs) ! j)).
      p = UInt64 (of_nat (i + j)) # q)"
    by (simp only: length_Cons Ex_less_Suc2)
  finally show ?case .
qed simp

lemma paths_members_iff:
  "p \<in> set (paths_members Ref [] ms) \<longleftrightarrow>
   (\<exists>(k, v) \<in> set ms. \<exists>q \<in> set (paths_within Ref [] v). p = String k # q)"
proof (induction ms)
  case (Cons kv ms)
  obtain k v where kv: "kv = (k, v)" by fastforce
  have "p \<in> set (paths_within Ref [String k] v) \<longleftrightarrow> (\<exists>q \<in> set (paths_within Ref [] v). p = String k # q)"
    by (subst paths_within_prefix) auto
  with Cons kv show ?case by auto
qed simp

lemma walk_List: "walk (List xs) (a # p) =
   (case a of UInt64 i \<Rightarrow> (if unat i < length xs then walk (xs ! unat i) p else None) | _ \<Rightarrow> None)"
  by (cases a) simp_all

lemma walk_Map: "walk (Map ms) (a # p) =
   (case a of String k \<Rightarrow> (case nm_lookup ms k of None \<Rightarrow> None | Some v \<Rightarrow> walk v p) | _ \<Rightarrow> None)"
  by (cases a) simp_all

text \<open>
  C30: The positions listed inside a node are exactly those from which a walk by index and
  key arrives at a link to the given identifier.
\<close>

theorem paths_within_walk:
  "wf_node utf8 v \<Longrightarrow>
   p \<in> set (paths_within ref [] v) \<longleftrightarrow> (\<exists>c. walk v p = Some (Link c) \<and> cid_eq c ref)"
proof (induction p arbitrary: v)
  case Nil
  then show ?case
    by (cases v) (simp_all add: paths_items_iff paths_members_iff split_beta)
next
  case (Cons a p)
  show ?case
  proof (cases v)
    case (List xs)
    have IH: "p \<in> set (paths_within ref [] (xs ! j)) \<longleftrightarrow> (\<exists>c. walk (xs ! j) p = Some (Link c) \<and> cid_eq c ref)"
      if "j < length xs" for j
      using Cons.prems that by (intro Cons.IH) (simp add: List wf_items_iff)
    have "length xs < 2 ^ 64" using Cons.prems by (simp add: List)
    then have u: "unat (of_nat j :: u64) = j" if "j < length xs" for j
      using that by (intro unat_of_nat_u64) simp
    have "a # p \<in> set (paths_within ref [] v) \<longleftrightarrow>
        (\<exists>j < length xs. a = UInt64 (of_nat j) \<and> p \<in> set (paths_within ref [] (xs ! j)))"
      by (simp add: List paths_items_iff)
    also have "\<dots> \<longleftrightarrow> (\<exists>c. walk v (a # p) = Some (Link c) \<and> cid_eq c ref)"
    proof (cases a)
      case (UInt64 i)
      have "(\<exists>j < length xs. i = of_nat j \<and> P j) \<longleftrightarrow> unat i < length xs \<and> P (unat i)" for P
      proof
        assume "\<exists>j < length xs. i = of_nat j \<and> P j"
        then obtain j where "j < length xs" "i = of_nat j" "P j" by blast
        with u [of j] show "unat i < length xs \<and> P (unat i)" by simp
      next
        assume "unat i < length xs \<and> P (unat i)"
        moreover have "i = of_nat (unat i)" by simp
        ultimately show "\<exists>j < length xs. i = of_nat j \<and> P j" by blast
      qed
      then show ?thesis using IH [of "unat i"] by (simp add: List UInt64)
    qed (simp_all add: List)
    finally show ?thesis .
  next
    case (Map ms)
    have s: "nm_sorted ms" using Cons.prems by (simp add: Map)
    have IH: "p \<in> set (paths_within ref [] w) \<longleftrightarrow> (\<exists>c. walk w p = Some (Link c) \<and> cid_eq c ref)"
      if "(k, w) \<in> set ms" for k w
      using Cons.prems that by (intro Cons.IH) (auto simp: Map wf_members_iff)
    have l: "nm_lookup ms k = Some w \<longleftrightarrow> (k, w) \<in> set ms" for k w
      using s by (simp add: nm_lookup_map_of map_of_eq_Some_iff nm_sorted_distinct)
    have "a # p \<in> set (paths_within ref [] v) \<longleftrightarrow>
        (\<exists>k w. a = String k \<and> (k, w) \<in> set ms \<and> p \<in> set (paths_within ref [] w))"
      by (simp add: Map paths_members_iff split_beta) force
    also have "\<dots> \<longleftrightarrow> (\<exists>k w. a = String k \<and> nm_lookup ms k = Some w \<and> (\<exists>c. walk w p = Some (Link c) \<and> cid_eq c ref))"
      by (simp add: l IH cong: conj_cong)
    also have "\<dots> \<longleftrightarrow> (\<exists>c. walk v (a # p) = Some (Link c) \<and> cid_eq c ref)"
      by (cases a) (simp_all add: Map walk_Map split: option.split)
    finally show ?thesis .
  qed (simp_all)
qed

theorem paths_within_walk_witness:
  "[UInt64 0, String ''k''] \<in> set (paths_within (make_cid Raw Identity [])
     [] (List [Map [(''k'', Link (make_cid Raw Identity []))]]))"
proof -
  have "wf_cid (make_cid Raw Identity [])"
    by (simp add: wf_make_cid content_supported_def hash_supported_def)
  then have "wf_node (\<lambda>_. True) (List [Map [(''k'', Link (make_cid Raw Identity []))]])"
    by (simp add: nm_sorted_def)
  from paths_within_walk [OF this, of "[UInt64 0, String ''k'']" "make_cid Raw Identity []"]
  show ?thesis by (simp add: cid_eq_def nm_lookup_map_of nm_sorted_def)
qed

end
