(* ===== verification/RocksDB.thy ===== *)
theory RocksDB
  imports Memo_Store
begin

section \<open>RocksDBStore: a store in a key-value database\<close>

text \<open>
  \<^verbatim>\<open>memodb/lib/RocksDB.cpp\<close>. RocksDB itself is a parameter: the record \<open>rocksdb\<close> has the
  calls the code makes, over an unspecified database type. Writes are collected in a list of
  operations, as in \<^verbatim>\<open>WriteBatch\<close> and \<^verbatim>\<open>Transaction\<close>; an iterator is the list of the
  entries it will visit, in key order, with the status it reports at the end. The retry
  loops around \<^verbatim>\<open>Commit\<close> have the value \<open>None\<close> when they never end.

  \<open>rocksdb_laws\<close> states what RocksDB documents: reads see the last write, a batch or a
  committed transaction is applied in order and as a whole, a transaction that is refused
  with Busy or TryAgain is not applied, and iterators visit the keys in byte order.
  \<open>no_contention\<close> is an assumption about the surroundings, not about RocksDB: no other
  client writes meanwhile and the refusals end. The operations of a single client are
  specified under both (\<open>rocksdb_ok\<close>); what the retry loop does while other clients write
  is shown from \<open>rocksdb_laws\<close> alone.

  The invariant \<open>rocks_inv\<close> is the comment at the top of the file: what each column family
  holds, and that the family "refs" has exactly one entry per reference. Under it the store
  implements the contract \<open>store_impl\<close>, so every lemma of that locale holds of it.
\<close>

datatype family = DefaultFamily | BlocksFamily | CallsFamily | HeadsFamily | RefsFamily

datatype status = Ok | NotFound | Busy | TryAgain | OtherStatus string

datatype write_op = OpPut family bytes bytes | OpDelete family bytes

record 'db rocksdb =
  rdb_Open :: "string \<Rightarrow> bool \<Rightarrow> status \<times> 'db"
  rdb_Get :: "'db \<Rightarrow> family \<Rightarrow> bytes \<Rightarrow> status \<times> bytes"
  rdb_GetForUpdate :: "'db \<Rightarrow> family \<Rightarrow> bytes \<Rightarrow> status \<times> bytes"
  rdb_Write :: "'db \<Rightarrow> write_op list \<Rightarrow> status \<times> 'db"
  rdb_Commit :: "'db \<Rightarrow> write_op list \<Rightarrow> status \<times> 'db"
  rdb_Iterate :: "'db \<Rightarrow> family \<Rightarrow> (bytes \<times> bytes) list \<times> status"

definition TYPE_BLOCK :: u8 where "TYPE_BLOCK = byte_of_char CHR ''b''"

definition TYPE_CALL :: u8 where "TYPE_CALL = byte_of_char CHR ''c''"

definition TYPE_HEAD :: u8 where "TYPE_HEAD = byte_of_char CHR ''h''"

definition checkStatus :: "status \<Rightarrow> abort + unit" where
  "checkStatus st = (if st = Ok then Inr () else Inl (ReportFatal ''RocksDB error''))"

definition checkFound :: "status \<Rightarrow> abort + bool" where
  "checkFound st = (if st = NotFound then Inr False else then_do (checkStatus st) (\<lambda>_. Inr True))"

definition cantFail :: "'e + 'a \<Rightarrow> abort + 'a" where
  "cantFail x = (case x of Inl _ \<Rightarrow> Inl CantFail | Inr a \<Rightarrow> Inr a)"

definition seek :: "bytes \<Rightarrow> (bytes \<times> bytes) list \<Rightarrow> (bytes \<times> bytes) list" where
  "seek k es = dropWhile (\<lambda>e. fst e < k) es"

subsection \<open>References\<close>

definition addRef :: "write_op list \<Rightarrow> u8 \<Rightarrow> bytes \<Rightarrow> cid \<Rightarrow> write_op list" where
  "addRef Batch Type From To =
     (if isIdentity To then Batch
      else Batch @ [OpPut RefsFamily (cid_Bytes To @ [Type] @ From) []])"

definition deleteRef :: "write_op list \<Rightarrow> u8 \<Rightarrow> bytes \<Rightarrow> bytes \<Rightarrow> write_op list" where
  "deleteRef Batch Type From To = Batch @ [OpDelete RefsFamily (To @ [Type] @ From)]"

definition addRefs :: "write_op list \<Rightarrow> u8 \<Rightarrow> bytes \<Rightarrow> node \<Rightarrow> write_op list" where
  "addRefs Batch Type Key Value =
     foldl (\<lambda>Batch Link. if isIdentity Link then Batch else addRef Batch Type Key Link) Batch (eachLink Value)"

definition makeKeyForCall :: "(string \<Rightarrow> bool) \<Rightarrow> call \<Rightarrow> abort + bytes" where
  "makeKeyForCall utf8 c =
     then_do (map_sum NodeFatal id (node_of_string utf8 (call_Name c))) (\<lambda>n.
       Inr (foldl (\<lambda>Key Arg. Key @ cid_Bytes Arg) (saveAsCBOR n) (call_Args c)))"

text \<open>
  \<^verbatim>\<open>while (!Bytes.empty()) Args.emplace_back(*CID::loadFromSequence(Bytes))\<close>; each turn
  reads at least one byte, so the length of the input bounds the turns.
\<close>

definition load_args :: "bytes \<Rightarrow> abort + cid list" where
  "load_args bs = deref (read_all (length bs) cid_loadFromSequence bs)"

subsection \<open>Opening\<close>

definition rocks_uri_path :: "string \<Rightarrow> abort + string" where
  "rocks_uri_path u =
     then_do (map_sum Undefined id (uri_parse u True)) (\<lambda>parsed. case parsed of
       None \<Rightarrow> Inl (ReportFatal ''Unsupported RocksDB URI'')
     | Some Parsed \<Rightarrow>
         if scheme Parsed \<noteq> ''rocksdb'' \<or> host Parsed \<noteq> [] \<or> port Parsed \<noteq> 0
            \<or> query_params Parsed \<noteq> [] \<or> fragment Parsed \<noteq> []
         then Inl (ReportFatal ''Unsupported RocksDB URI'')
         else map_sum Undefined id (getPathString Parsed 0))"

definition rocks_check_magic :: "'db rocksdb \<Rightarrow> 'db \<Rightarrow> abort + 'db" where
  "rocks_check_magic kv db =
     (let (entries, ist) = rdb_Iterate kv db DefaultFamily in
      if entries \<noteq> [] then
        let (st1, Fetched) = rdb_Get kv db DefaultFamily (to_bytes ''format'') in
        then_do (checkFound st1) (\<lambda>found1.
          if \<not> found1 \<or> Fetched \<noteq> to_bytes ''MemoDB''
          then Inl (ReportFatal ''this is not a MemoDB database'')
          else
            let (st2, Fetched) = rdb_Get kv db DefaultFamily (to_bytes ''version'') in
            then_do (checkFound st2) (\<lambda>found2.
              if \<not> found2 \<or> Fetched \<noteq> to_bytes ''0''
              then Inl (ReportFatal ''unsupported database version'')
              else Inr db))
      else then_do (checkStatus ist) (\<lambda>_.
        let (st1, db) = rdb_Write kv db [OpPut DefaultFamily (to_bytes ''format'') (to_bytes ''MemoDB'')] in
        then_do (checkStatus st1) (\<lambda>_.
          let (st2, db) = rdb_Write kv db [OpPut DefaultFamily (to_bytes ''version'') (to_bytes ''0'')] in
          then_do (checkStatus st2) (\<lambda>_. Inr db))))"

definition rocks_open :: "'db rocksdb \<Rightarrow> string \<Rightarrow> bool \<Rightarrow> abort + 'db" where
  "rocks_open kv u create_if_missing =
     then_do (rocks_uri_path u) (\<lambda>path.
       let (st, db) = rdb_Open kv path create_if_missing in
       then_do (checkStatus st) (\<lambda>_. rocks_check_magic kv db))"

subsection \<open>Reading\<close>

definition rocks_getOptional :: "'db rocksdb \<Rightarrow> (string \<Rightarrow> bool) \<Rightarrow> 'db \<Rightarrow> cid \<Rightarrow> abort + node option" where
  "rocks_getOptional kv utf8 db c =
     (if isIdentity c then then_do (cantFail (loadFromIPLD utf8 c [])) (\<lambda>n. Inr (Some n))
      else
        let (st, Fetched) = rdb_Get kv db BlocksFamily (cid_Bytes c) in
        then_do (checkFound st) (\<lambda>found.
          if \<not> found then Inr None
          else then_do (cantFail (loadFromIPLD utf8 c Fetched)) (\<lambda>n. Inr (Some n))))"

definition rocks_resolveOptional :: "'db rocksdb \<Rightarrow> (string \<Rightarrow> bool) \<Rightarrow> 'db \<Rightarrow> name \<Rightarrow> abort + cid option" where
  "rocks_resolveOptional kv utf8 db n = (case n of
     CIDName Ref \<Rightarrow> Inr (Some Ref)
   | HeadName h \<Rightarrow>
       let (st, Fetched) = rdb_Get kv db HeadsFamily (to_bytes (head_Name h)) in
       then_do (checkFound st) (\<lambda>found.
         if \<not> found then Inr None
         else then_do (deref (cid_fromBytes Fetched)) (\<lambda>c. Inr (Some c)))
   | CallName c \<Rightarrow>
       then_do (makeKeyForCall utf8 c) (\<lambda>Key.
         let (st, Fetched) = rdb_Get kv db CallsFamily Key in
         then_do (checkFound st) (\<lambda>found.
           if \<not> found then Inr None
           else then_do (deref (cid_fromBytes Fetched)) (\<lambda>c. Inr (Some c)))))"

subsection \<open>Writing\<close>

definition rocks_put ::
    "'db rocksdb \<Rightarrow> (bytes \<Rightarrow> bytes) \<Rightarrow> 'db \<Rightarrow> node \<Rightarrow> abort + cid \<times> 'db" where
  "rocks_put kv blake2b db value =
     (let (c, content) = saveAsIPLD blake2b False value in
      if content = [] then Inr (c, db)
      else
        let Key = cid_Bytes c; (st, Fetched) = rdb_Get kv db BlocksFamily Key in
        then_do (checkFound st) (\<lambda>found.
          if found then (if content = Fetched then Inr (c, db) else Inl AssertFailed)
          else
            let (st, db) = rdb_Write kv db (addRefs [OpPut BlocksFamily Key content] TYPE_BLOCK Key value) in
            then_do (checkStatus st) (\<lambda>_. Inr (c, db))))"

partial_function (option) txn_loop ::
    "'db rocksdb \<Rightarrow> ('db \<Rightarrow> abort + write_op list) \<Rightarrow> 'db \<Rightarrow> (abort + status \<times> 'db) option" where
  "txn_loop kv body db =
     (case body db of
        Inl e \<Rightarrow> Some (Inl e)
      | Inr ops \<Rightarrow>
          (case rdb_Commit kv db ops of
             (TxnStatus, db) \<Rightarrow>
               if TxnStatus = Busy \<or> TxnStatus = TryAgain then txn_loop kv body db
               else Some (Inr (TxnStatus, db))))"

definition run_txn :: "'db rocksdb \<Rightarrow> ('db \<Rightarrow> abort + write_op list) \<Rightarrow> 'db \<Rightarrow> abort + 'db" where
  "run_txn kv body db = (case txn_loop kv body db of
     None \<Rightarrow> Inl Diverges
   | Some r \<Rightarrow> then_do r (\<lambda>(TxnStatus, db). then_do (checkStatus TxnStatus) (\<lambda>_. Inr db)))"

definition set_txn :: "'db rocksdb \<Rightarrow> (string \<Rightarrow> bool) \<Rightarrow> name \<Rightarrow> cid \<Rightarrow> 'db \<Rightarrow> abort + write_op list" where
  "set_txn kv utf8 n ref db = (case n of
     HeadName h \<Rightarrow>
       let (st, Fetched) = rdb_GetForUpdate kv db HeadsFamily (to_bytes (head_Name h)) in
       then_do (checkFound st) (\<lambda>found.
         let Txn = (if found then deleteRef [] TYPE_HEAD (to_bytes (head_Name h)) Fetched else []);
             Txn = Txn @ [OpPut HeadsFamily (to_bytes (head_Name h)) (cid_Bytes ref)] in
         Inr (addRef Txn TYPE_HEAD (to_bytes (head_Name h)) ref))
   | CallName c \<Rightarrow>
       then_do (makeKeyForCall utf8 c) (\<lambda>Key.
         let (st, Fetched) = rdb_GetForUpdate kv db CallsFamily Key in
         then_do (checkFound st) (\<lambda>found.
           let Txn = (if found then deleteRef [] TYPE_CALL Key Fetched else []);
               Txn = Txn @ [OpPut CallsFamily Key (cid_Bytes ref)];
               Txn = addRef Txn TYPE_CALL Key ref in
           Inr (foldl (\<lambda>Txn Arg. addRef Txn TYPE_CALL Key Arg) Txn (call_Args c))))
   | CIDName c \<Rightarrow> Inl (ReportFatal ''can't set a CID''))"

definition rocks_set ::
    "'db rocksdb \<Rightarrow> (string \<Rightarrow> bool) \<Rightarrow> 'db \<Rightarrow> name \<Rightarrow> cid \<Rightarrow> abort + 'db" where
  "rocks_set kv utf8 db n ref = run_txn kv (set_txn kv utf8 n ref) db"

definition head_delete_txn :: "'db rocksdb \<Rightarrow> head \<Rightarrow> 'db \<Rightarrow> abort + write_op list" where
  "head_delete_txn kv h db =
     (let (st, Fetched) = rdb_GetForUpdate kv db HeadsFamily (to_bytes (head_Name h)) in
      then_do (checkFound st) (\<lambda>found.
        Inr ((if found then deleteRef [] TYPE_HEAD (to_bytes (head_Name h)) Fetched else [])
             @ [OpDelete HeadsFamily (to_bytes (head_Name h))])))"

definition rocks_head_delete :: "'db rocksdb \<Rightarrow> 'db \<Rightarrow> head \<Rightarrow> abort + 'db" where
  "rocks_head_delete kv db h = run_txn kv (head_delete_txn kv h) db"

definition invalidate_txn :: "bytes \<Rightarrow> bytes \<times> bytes \<Rightarrow> 'db \<Rightarrow> abort + write_op list" where
  "invalidate_txn Prefix entry db =
     then_do (load_args (drop (length Prefix) (fst entry))) (\<lambda>args.
       Inr (foldl (\<lambda>Txn Arg. deleteRef Txn TYPE_CALL (fst entry) (cid_Bytes Arg))
              (deleteRef [OpDelete CallsFamily (fst entry)] TYPE_CALL (fst entry) (snd entry)) args))"

fun invalidate_loop ::
    "'db rocksdb \<Rightarrow> bytes \<Rightarrow> (bytes \<times> bytes) list \<Rightarrow> 'db \<Rightarrow> abort + 'db" where
  "invalidate_loop kv Prefix [] db = Inr db"
| "invalidate_loop kv Prefix (entry # entries) db =
     (if take (length Prefix) (fst entry) \<noteq> Prefix then Inr db
      else then_do (run_txn kv (invalidate_txn Prefix entry) db) (invalidate_loop kv Prefix entries))"

definition rocks_call_invalidate ::
    "'db rocksdb \<Rightarrow> (string \<Rightarrow> bool) \<Rightarrow> 'db \<Rightarrow> string \<Rightarrow> abort + 'db" where
  "rocks_call_invalidate kv utf8 db nm =
     then_do (map_sum NodeFatal id (node_of_string utf8 nm)) (\<lambda>n.
       let Prefix = saveAsCBOR n; (entries, ist) = rdb_Iterate kv db CallsFamily in
       then_do (invalidate_loop kv Prefix (seek Prefix entries) db) (\<lambda>db.
         then_do (checkStatus ist) (\<lambda>_. Inr db)))"

subsection \<open>Listing\<close>

definition name_of_ref :: "(string \<Rightarrow> bool) \<Rightarrow> bytes \<Rightarrow> abort + name" where
  "name_of_ref utf8 Ref = (case Ref of
     [] \<Rightarrow> Inl (ReportFatal ''missing type in refs family'')
   | Type # Ref \<Rightarrow>
       if Type = TYPE_BLOCK then then_do (deref (cid_fromBytes Ref)) (\<lambda>c. Inr (CIDName c))
       else if Type = TYPE_HEAD then Inr (HeadName (make_head (of_bytes Ref)))
       else if Type = TYPE_CALL then
         then_do (cantFail (loadFromCBORSequence utf8 Ref)) (\<lambda>(n, bytes).
           then_do (map_sum NodeFatal id (as_string n)) (\<lambda>nm.
             then_do (load_args bytes) (\<lambda>args. Inr (CallName (make_call nm args)))))
       else Inl (ReportFatal ''invalid type in refs family''))"

fun users_loop :: "(string \<Rightarrow> bool) \<Rightarrow> bytes \<Rightarrow> (bytes \<times> bytes) list \<Rightarrow> abort + name list" where
  "users_loop utf8 Key [] = Inr []"
| "users_loop utf8 Key (entry # entries) =
     (if take (length Key) (fst entry) \<noteq> Key then Inr []
      else then_do (name_of_ref utf8 (drop (length Key) (fst entry))) (\<lambda>n.
        then_do (users_loop utf8 Key entries) (\<lambda>ns. Inr (n # ns))))"

definition rocks_list_names_using ::
    "'db rocksdb \<Rightarrow> (string \<Rightarrow> bool) \<Rightarrow> 'db \<Rightarrow> cid \<Rightarrow> abort + name list" where
  "rocks_list_names_using kv utf8 db ref =
     (let Key = cid_Bytes ref; (entries, ist) = rdb_Iterate kv db RefsFamily in
      then_do (users_loop utf8 Key (seek Key entries)) (\<lambda>Result.
        then_do (checkStatus ist) (\<lambda>_. Inr Result)))"

text \<open>The loop that increments the key like a big-endian number, from the last byte on.\<close>

fun increment :: "bytes \<Rightarrow> bytes" where
  "increment [] = []"
| "increment (b # bs) = (if b + 1 \<noteq> 0 then (b + 1) # bs else (b + 1) # increment bs)"

definition next_key :: "bytes \<Rightarrow> bytes" where
  "next_key k = rev (increment (rev k))"

partial_function (option) funcs_loop ::
    "(string \<Rightarrow> bool) \<Rightarrow> (bytes \<times> bytes) list \<Rightarrow> (bytes \<times> bytes) list \<Rightarrow> string list
      \<Rightarrow> (abort + string list) option" where
  "funcs_loop utf8 all_entries pos Result =
     (case pos of
        [] \<Rightarrow> Some (Inr Result)
      | entry # _ \<Rightarrow>
          (case then_do (cantFail (loadFromCBORSequence utf8 (fst entry))) (\<lambda>(n, bytes).
                  then_do (map_sum NodeFatal id (as_string n)) (\<lambda>nm. Inr (nm, bytes))) of
             Inl e \<Rightarrow> Some (Inl e)
           | Inr (nm, bytes) \<Rightarrow>
               let NextKey = next_key (take (length (fst entry) - length bytes) (fst entry)) in
               funcs_loop utf8 all_entries (seek NextKey all_entries) (Result @ [nm])))"

definition rocks_list_funcs :: "'db rocksdb \<Rightarrow> (string \<Rightarrow> bool) \<Rightarrow> 'db \<Rightarrow> abort + string list" where
  "rocks_list_funcs kv utf8 db =
     (let (entries, ist) = rdb_Iterate kv db CallsFamily in
      case funcs_loop utf8 entries entries [] of
        None \<Rightarrow> Inl Diverges
      | Some r \<Rightarrow> then_do r (\<lambda>Result. then_do (checkStatus ist) (\<lambda>_. Inr Result)))"

text \<open>
  The two iterations return what the callback is called with. A callback that stops the
  iteration by returning true would also skip the check of the iterator's status; the
  callbacks in the program all return false.
\<close>

definition rocks_eachHead :: "'db rocksdb \<Rightarrow> 'db \<Rightarrow> abort + head list" where
  "rocks_eachHead kv db =
     (let (entries, ist) = rdb_Iterate kv db HeadsFamily in
      then_do (checkStatus ist) (\<lambda>_. Inr (map (\<lambda>e. make_head (of_bytes (fst e))) entries)))"

fun calls_loop :: "string \<Rightarrow> bytes \<Rightarrow> (bytes \<times> bytes) list \<Rightarrow> abort + call list" where
  "calls_loop func Prefix [] = Inr []"
| "calls_loop func Prefix (entry # entries) =
     (if take (length Prefix) (fst entry) \<noteq> Prefix then Inr []
      else then_do (load_args (drop (length Prefix) (fst entry))) (\<lambda>args.
        then_do (calls_loop func Prefix entries) (\<lambda>cs. Inr (make_call func args # cs))))"

definition rocks_eachCall ::
    "'db rocksdb \<Rightarrow> (string \<Rightarrow> bool) \<Rightarrow> 'db \<Rightarrow> string \<Rightarrow> abort + call list" where
  "rocks_eachCall kv utf8 db func =
     then_do (map_sum NodeFatal id (node_of_string utf8 func)) (\<lambda>n.
       let Prefix = saveAsCBOR n; (entries, ist) = rdb_Iterate kv db CallsFamily in
       then_do (calls_loop func Prefix (seek Prefix entries)) (\<lambda>cs.
         then_do (checkStatus ist) (\<lambda>_. Inr cs)))"

definition rocks_store :: "'db rocksdb \<Rightarrow> (bytes \<Rightarrow> bytes) \<Rightarrow> (string \<Rightarrow> bool) \<Rightarrow> 'db store" where
  "rocks_store kv blake2b utf8 = \<lparr>
     st_getOptional = rocks_getOptional kv utf8,
     st_resolveOptional = rocks_resolveOptional kv utf8,
     st_put = rocks_put kv blake2b,
     st_set = rocks_set kv utf8,
     st_list_names_using = rocks_list_names_using kv utf8,
     st_list_funcs = rocks_list_funcs kv utf8,
     st_eachHead = rocks_eachHead kv,
     st_eachCall = rocks_eachCall kv utf8,
     st_head_delete = rocks_head_delete kv,
     st_call_invalidate = rocks_call_invalidate kv utf8\<rparr>"

subsection \<open>What the code relies on\<close>

type_synonym kv_view = "family \<Rightarrow> bytes \<Rightarrow> bytes option"

fun apply_op :: "write_op \<Rightarrow> kv_view \<Rightarrow> kv_view" where
  "apply_op (OpPut f k v) m = m(f := (m f)(k \<mapsto> v))"
| "apply_op (OpDelete f k) m = m(f := (m f)(k := None))"

definition apply_ops :: "write_op list \<Rightarrow> kv_view \<Rightarrow> kv_view" where
  "apply_ops ops m = fold apply_op ops m"

text \<open>
  What RocksDB documents: reads see the last write, a batch or a committed transaction is
  applied in order and as a whole, iterators visit the keys in byte order. Of a commit that
  is refused with Busy or TryAgain it only says that the transaction is not applied; other
  clients may have changed the database meanwhile.
\<close>

definition rocksdb_laws :: "'db rocksdb \<Rightarrow> ('db \<Rightarrow> kv_view) \<Rightarrow> bool" where
  "rocksdb_laws kv view \<longleftrightarrow>
     (\<forall>db f k. rdb_Get kv db f k = (case view db f k of None \<Rightarrow> (NotFound, []) | Some v \<Rightarrow> (Ok, v))) \<and>
     (\<forall>db f k. rdb_GetForUpdate kv db f k = (case view db f k of None \<Rightarrow> (NotFound, []) | Some v \<Rightarrow> (Ok, v))) \<and>
     (\<forall>db ops. \<exists>db'. rdb_Write kv db ops = (Ok, db') \<and> view db' = apply_ops ops (view db)) \<and>
     (\<forall>db ops. \<exists>st db'. rdb_Commit kv db ops = (st, db') \<and>
        (st = Ok \<and> view db' = apply_ops ops (view db) \<or> st = Busy \<or> st = TryAgain)) \<and>
     (\<forall>db f. \<exists>es. rdb_Iterate kv db f = (es, Ok) \<and> sorted_wrt (<) (map fst es) \<and> map_of es = view db f)"

text \<open>
  The operations of one client are specified for the time in which no other client writes:
  then a refused commit leaves the contents as they are, and it is assumed, as a fairness
  condition on the database, that the number of refusals in a row is finite.
\<close>

definition no_contention :: "'db rocksdb \<Rightarrow> ('db \<Rightarrow> kv_view) \<Rightarrow> ('db \<Rightarrow> nat) \<Rightarrow> bool" where
  "no_contention kv view pending \<longleftrightarrow>
     (\<forall>db ops st db'. rdb_Commit kv db ops = (st, db') \<longrightarrow> st = Busy \<or> st = TryAgain \<longrightarrow>
        view db' = view db \<and> pending db' < pending db)"

definition rocksdb_ok :: "'db rocksdb \<Rightarrow> ('db \<Rightarrow> kv_view) \<Rightarrow> ('db \<Rightarrow> nat) \<Rightarrow> bool" where
  "rocksdb_ok kv view pending \<longleftrightarrow> rocksdb_laws kv view \<and> no_contention kv view pending"

lemma rocksdb_okD:
  assumes "rocksdb_ok kv view pending"
  shows "rocksdb_laws kv view" and "no_contention kv view pending"
  using assms by (simp_all add: rocksdb_ok_def)

lemma rocksdb_commit:
  assumes "rocksdb_laws kv view"
  obtains st db' where "rdb_Commit kv db ops = (st, db')"
    "st = Ok \<and> view db' = apply_ops ops (view db) \<or> st = Busy \<or> st = TryAgain"
  using assms unfolding rocksdb_laws_def by metis

lemma rocksdb_write:
  assumes "rocksdb_laws kv view"
  obtains db' where "rdb_Write kv db ops = (Ok, db')" "view db' = apply_ops ops (view db)"
  using assms unfolding rocksdb_laws_def by metis

lemma rocksdb_reads:
  assumes "rocksdb_laws kv view"
  shows "rdb_Get kv db f k = (case view db f k of None \<Rightarrow> (NotFound, []) | Some v \<Rightarrow> (Ok, v))"
    and "rdb_GetForUpdate kv db f k = (case view db f k of None \<Rightarrow> (NotFound, []) | Some v \<Rightarrow> (Ok, v))"
  using assms unfolding rocksdb_laws_def by blast+

subsection \<open>Transactions are retried until they succeed\<close>

text \<open>One attempt of the loop whose commit is refused, and what ends the loop.\<close>

definition refused :: "'db rocksdb \<Rightarrow> ('db \<Rightarrow> abort + write_op list) \<Rightarrow> 'db \<Rightarrow> 'db \<Rightarrow> bool" where
  "refused kv body d d' \<longleftrightarrow>
     (\<exists>ops st. body d = Inr ops \<and> rdb_Commit kv d ops = (st, d') \<and> (st = Busy \<or> st = TryAgain))"

definition last_attempt :: "'db rocksdb \<Rightarrow> ('db \<Rightarrow> abort + write_op list) \<Rightarrow> 'db \<Rightarrow> abort + status \<times> 'db \<Rightarrow> bool" where
  "last_attempt kv body d r \<longleftrightarrow> (case body d of
     Inl e \<Rightarrow> r = Inl e
   | Inr ops \<Rightarrow> r = Inr (rdb_Commit kv d ops) \<and> fst (rdb_Commit kv d ops) \<notin> {Busy, TryAgain})"

lemma attempt_cases:
  obtains (again) d' where "refused kv body d d'" "txn_loop kv body d = txn_loop kv body d'"
  | (last) r where "last_attempt kv body d r" "txn_loop kv body d = Some r"
proof (cases "body d")
  case (Inl e)
  then show thesis using last [of "Inl e"] by (simp add: last_attempt_def txn_loop.simps)
next
  case (Inr ops)
  obtain st d' where c: "rdb_Commit kv d ops = (st, d')" by fastforce
  show thesis
  proof (cases "st = Busy \<or> st = TryAgain")
    case True
    then show thesis using Inr c again [of d'] txn_loop.simps [of kv body d] by (auto simp: refused_def)
  next
    case False
    then show thesis
      using Inr c last [of "Inr (st, d')"] txn_loop.simps [of kv body d] by (auto simp: last_attempt_def)
  qed
qed

lemma refused_not_last: "refused kv body d d' \<Longrightarrow> \<not> last_attempt kv body d r"
  by (auto simp: refused_def last_attempt_def)

text \<open>The loop returns exactly what the first attempt that is not refused returns.\<close>

lemma txn_loop_Some:
  "txn_loop kv body db = Some r \<longleftrightarrow> (\<exists>d. (refused kv body)\<^sup>*\<^sup>* db d \<and> last_attempt kv body d r)"
proof
  show "txn_loop kv body db = Some r \<Longrightarrow> \<exists>d. (refused kv body)\<^sup>*\<^sup>* db d \<and> last_attempt kv body d r"
  proof (erule txn_loop.raw_induct [rotated])
    fix f :: "'a rocksdb \<Rightarrow> ('a \<Rightarrow> abort + write_op list) \<Rightarrow> 'a \<Rightarrow> (abort + status \<times> 'a) option"
      and kv body db r
    assume IH: "\<And>kv body db r. f kv body db = Some r \<Longrightarrow> \<exists>d. (refused kv body)\<^sup>*\<^sup>* db d \<and> last_attempt kv body d r"
      and r: "(case body db of Inl e \<Rightarrow> Some (Inl e)
        | Inr ops \<Rightarrow> (case rdb_Commit kv db ops of
             (TxnStatus, db) \<Rightarrow> if TxnStatus = Busy \<or> TxnStatus = TryAgain then f kv body db
               else Some (Inr (TxnStatus, db)))) = Some r"
    show "\<exists>d. (refused kv body)\<^sup>*\<^sup>* db d \<and> last_attempt kv body d r"
    proof (cases "\<exists>e. body db = Inl e")
      case True
      then have "last_attempt kv body db r" using r by (auto simp: last_attempt_def)
      then show ?thesis by blast
    next
      case False
      then obtain ops where ops: "body db = Inr ops" by (cases "body db") auto
      obtain st d' where c: "rdb_Commit kv db ops = (st, d')" by fastforce
      show ?thesis
      proof (cases "st = Busy \<or> st = TryAgain")
        case True
        then have "refused kv body db d'" using ops c by (auto simp: refused_def)
        moreover obtain d where "(refused kv body)\<^sup>*\<^sup>* d' d" "last_attempt kv body d r"
          using IH [of kv body d' r] r ops c True by auto
        ultimately show ?thesis by (blast intro: converse_rtranclp_into_rtranclp)
      next
        case False
        then have "last_attempt kv body db r" using r ops c by (auto simp: last_attempt_def)
        then show ?thesis by blast
      qed
    qed
  qed
next
  assume "\<exists>d. (refused kv body)\<^sup>*\<^sup>* db d \<and> last_attempt kv body d r"
  then obtain d where "(refused kv body)\<^sup>*\<^sup>* db d" and last: "last_attempt kv body d r" by blast
  then show "txn_loop kv body db = Some r"
  proof (induction rule: converse_rtranclp_induct)
    case base
    then show ?case
      by (subst txn_loop.simps) (auto simp: last_attempt_def split: sum.splits prod.splits)
  next
    case (step y z)
    from step(1) have "txn_loop kv body y = txn_loop kv body z"
      by (subst txn_loop.simps) (auto simp: refused_def)
    with step show ?case by simp
  qed
qed

lemma txn_loop_None:
  assumes "txn_loop kv body db = None"
  shows "\<exists>d. ((refused kv body) ^^ k) db d \<and> txn_loop kv body d = None"
proof (induction k)
  case 0
  then show ?case using assms by auto
next
  case (Suc k)
  then obtain d where d: "((refused kv body) ^^ k) db d" "txn_loop kv body d = None" by blast
  then show ?case by (cases rule: attempt_cases [of kv body d]) (auto intro: relpowp_Suc_I)
qed

lemma txn_loop_returns:
  assumes "rocksdb_ok kv view pending"
    and "\<And>d. view d = view db \<Longrightarrow> body d = Inr ops"
  shows "\<exists>db'. txn_loop kv body db = Some (Inr (Ok, db')) \<and> view db' = apply_ops ops (view db)"
  using assms(2)
proof (induction "pending db" arbitrary: db rule: less_induct)
  case less
  obtain st db' where c: "rdb_Commit kv db ops = (st, db')"
    "st = Ok \<and> view db' = apply_ops ops (view db) \<or> st = Busy \<or> st = TryAgain"
    using rocksdb_commit [OF rocksdb_okD(1) [OF assms(1)]] .
  have quiet: "st = Busy \<or> st = TryAgain \<Longrightarrow> view db' = view db \<and> pending db' < pending db"
    using rocksdb_okD(2) [OF assms(1)] c(1) unfolding no_contention_def by blast
  have body: "body db = Inr ops" by (rule less.prems) simp
  from c(2) show ?case
  proof
    assume "st = Ok \<and> view db' = apply_ops ops (view db)"
    then show ?thesis by (subst txn_loop.simps) (simp add: body c(1))
  next
    assume "st = Busy \<or> st = TryAgain"
    with quiet have busy: "(st = Busy \<or> st = TryAgain) \<and> view db' = view db \<and> pending db' < pending db" by blast
    then have "\<exists>d. txn_loop kv body db' = Some (Inr (Ok, d)) \<and> view d = apply_ops ops (view db')"
      by (intro less.hyps less.prems) auto
    with busy show ?thesis by (subst txn_loop.simps) (auto simp: body c(1))
  qed
qed

lemma run_txn_ok:
  assumes "rocksdb_ok kv view pending" and "\<And>d. view d = view db \<Longrightarrow> body d = Inr ops"
  shows "\<exists>db'. run_txn kv body db = Inr db' \<and> view db' = apply_ops ops (view db)"
  using txn_loop_returns [of kv view pending db body ops, OF assms] by (auto simp: run_txn_def checkStatus_def)

subsection \<open>Keys\<close>

definition call_key :: "call \<Rightarrow> bytes" where
  "call_key c = cbor (String (call_Name c)) @ concat (map cid_Bytes (call_Args c))"

definition name_type :: "name \<Rightarrow> u8" where
  "name_type n = (case n of CIDName _ \<Rightarrow> TYPE_BLOCK | HeadName _ \<Rightarrow> TYPE_HEAD | CallName _ \<Rightarrow> TYPE_CALL)"

definition name_key :: "name \<Rightarrow> bytes" where
  "name_key n = (case n of CIDName c \<Rightarrow> cid_Bytes c | HeadName h \<Rightarrow> to_bytes (head_Name h) | CallName c \<Rightarrow> call_key c)"

definition ref_key :: "name \<times> cid \<Rightarrow> bytes" where
  "ref_key nr = cid_Bytes (snd nr) @ name_type (fst nr) # name_key (fst nr)"

lemma types_distinct [simp]:
  "TYPE_BLOCK \<noteq> TYPE_HEAD" "TYPE_BLOCK \<noteq> TYPE_CALL" "TYPE_HEAD \<noteq> TYPE_CALL"
  "TYPE_HEAD \<noteq> TYPE_BLOCK" "TYPE_CALL \<noteq> TYPE_BLOCK" "TYPE_CALL \<noteq> TYPE_HEAD"
  by (simp_all add: TYPE_BLOCK_def TYPE_HEAD_def TYPE_CALL_def byte_of_char_def)

lemma foldl_append_bytes: "foldl (\<lambda>k a. k @ f a) k xs = k @ concat (map f xs)"
  by (induction xs arbitrary: k) simp_all

lemma makeKeyForCall_ok: "utf8 (call_Name c) \<Longrightarrow> makeKeyForCall utf8 c = Inr (call_key c)"
  by (simp add: makeKeyForCall_def node_of_string_def call_key_def saveAsCBOR_cbor foldl_append_bytes
      del: cbor.simps)

lemma wf_normal_String: "utf8 s \<Longrightarrow> length s < 2 ^ 64 \<Longrightarrow> wf_normal utf8 (String s)"
  by (simp add: wf_normal_def)

lemma name_prefix_inject:
  assumes "utf8 s" "length s < 2 ^ 64" "utf8 t" "length t < 2 ^ 64"
    and "cbor (String s) @ xs = cbor (String t) @ ys"
  shows "s = t \<and> xs = ys"
proof -
  have "wf_normal utf8 (String s)" "wf_normal utf8 (String t)"
    using assms(1-4) by (blast intro: wf_normal_String)+
  then have "String s = String t \<and> xs = ys"
    by (rule cbor_codec.append_inject) (use assms(5) in \<open>simp only: saveAsCBOR_cbor\<close>)
  then show ?thesis by simp
qed

lemma call_key_inject:
  assumes "wf_name utf8 (CallName c)" and "wf_name utf8 (CallName d)" and "call_key c = call_key d"
  shows "c = d"
proof -
  from assms(1,2) have u: "utf8 (call_Name c)" "length (call_Name c) < 2 ^ 64" "utf8 (call_Name d)"
      "length (call_Name d) < 2 ^ 64" and a: "\<forall>x \<in> set (call_Args c). wf_cid x" "\<forall>x \<in> set (call_Args d). wf_cid x"
    by (simp_all add: wf_name_def list_all_iff)
  have "call_Name c = call_Name d \<and> concat (map cid_Bytes (call_Args c)) = concat (map cid_Bytes (call_Args d))"
    using name_prefix_inject [OF u] assms(3) by (simp only: call_key_def)
  then show ?thesis using cids.concat_inject [OF a] by simp
qed

lemma name_key_inject:
  assumes "wf_name utf8 n" and "wf_name utf8 m" and "name_type n = name_type m" and "name_key n = name_key m"
  shows "n = m"
proof (cases n)
  case (CIDName c)
  with assms(3) obtain d where "m = CIDName d" by (cases m) (simp_all add: name_type_def)
  with CIDName assms show ?thesis
    by (simp add: name_key_def wf_name_def cids.whole.enc_inject)
next
  case (HeadName h)
  with assms(3) obtain g where "m = HeadName g" by (cases m) (simp_all add: name_type_def)
  with HeadName assms show ?thesis by (simp add: name_key_def)
next
  case (CallName c)
  with assms(3) obtain d where "m = CallName d" by (cases m) (simp_all add: name_type_def)
  with CallName assms show ?thesis by (auto simp: name_key_def dest: call_key_inject)
qed

definition wf_ref :: "(string \<Rightarrow> bool) \<Rightarrow> name \<times> cid \<Rightarrow> bool" where
  "wf_ref utf8 nr \<longleftrightarrow> wf_name utf8 (fst nr) \<and> wf_cid (snd nr)"

lemma inj_on_ref_key: "inj_on ref_key {nr. wf_ref utf8 nr}"
proof (rule inj_onI)
  fix x y
  assume x: "x \<in> {nr. wf_ref utf8 nr}" and y: "y \<in> {nr. wf_ref utf8 nr}" and "ref_key x = ref_key y"
  then have "snd x = snd y \<and> name_type (fst x) # name_key (fst x) = name_type (fst y) # name_key (fst y)"
    by (intro cids.append_inject) (simp_all add: wf_ref_def ref_key_def)
  then show "x = y"
    using x y name_key_inject [of utf8 "fst x" "fst y"] by (auto simp: wf_ref_def prod_eq_iff)
qed

lemma load_args_concat: "list_all wf_cid args \<Longrightarrow> load_args (concat (map cid_Bytes args)) = Inr args"
  unfolding load_args_def
  by (subst cids.read_all_concat) (simp_all add: list_all_iff cids.length_concat_ge deref_def)

lemma name_of_ref_key: "wf_name utf8 n \<Longrightarrow> name_of_ref utf8 (name_type n # name_key n) = Inr n"
proof (cases n)
  case (CallName c)
  assume "wf_name utf8 n"
  then have "loadFromCBORSequence utf8 (call_key c) = Inr (String (call_Name c), concat (map cid_Bytes (call_Args c)))"
    using loadFromCBORSequence_saved [of utf8 "String (call_Name c)" "concat (map cid_Bytes (call_Args c))"]
    by (simp add: CallName wf_name_def call_key_def del: cbor.simps)
  with \<open>wf_name utf8 n\<close> show ?thesis
    by (simp add: CallName name_of_ref_def name_type_def name_key_def cantFail_def as_string_def
        load_args_concat wf_name_def make_call_def)
qed (auto simp: name_of_ref_def name_type_def name_key_def wf_name_def cid_fromBytes_wf deref_def make_head_def)

subsection \<open>The invariant and the abstraction\<close>

definition kv_spec :: "(string \<Rightarrow> bool) \<Rightarrow> kv_view \<Rightarrow> spec" where
  "kv_spec utf8 m = \<lparr>
     sp_blocks = \<lambda>c. if wf_cid c \<and> \<not> isIdentity c
       then (case m BlocksFamily (cid_Bytes c) of
               None \<Rightarrow> None
             | Some d \<Rightarrow> (case loadFromIPLD utf8 c d of Inl _ \<Rightarrow> None | Inr n \<Rightarrow> Some n))
       else None,
     sp_heads = \<lambda>h. (case m HeadsFamily (to_bytes h) of None \<Rightarrow> None | Some d \<Rightarrow> cid_fromBytes d),
     sp_calls = \<lambda>f args. if wf_name utf8 (CallName (make_call f args))
       then (case m CallsFamily (call_key (make_call f args)) of None \<Rightarrow> None | Some d \<Rightarrow> cid_fromBytes d)
       else None\<rparr>"

definition uses_of :: "spec \<Rightarrow> (name \<times> cid) set" where
  "uses_of sp = {(n, r). spec_uses sp n r \<and> \<not> isIdentity r}"

definition kv_blocks_ok :: "(bytes \<Rightarrow> bytes) \<Rightarrow> (string \<Rightarrow> bool) \<Rightarrow> kv_view \<Rightarrow> bool" where
  "kv_blocks_ok blake2b utf8 m \<longleftrightarrow> (\<forall>k d. m BlocksFamily k = Some d \<longrightarrow>
     (\<exists>v c. storable utf8 v \<and> saveAsIPLD blake2b False v = (c, d) \<and> k = cid_Bytes c
        \<and> wf_cid c \<and> \<not> isIdentity c))"

definition kv_heads_ok :: "kv_view \<Rightarrow> bool" where
  "kv_heads_ok m \<longleftrightarrow> (\<forall>k d. m HeadsFamily k = Some d \<longrightarrow> (\<exists>c. wf_cid c \<and> d = cid_Bytes c))"

definition kv_calls_ok :: "(string \<Rightarrow> bool) \<Rightarrow> kv_view \<Rightarrow> bool" where
  "kv_calls_ok utf8 m \<longleftrightarrow> (\<forall>k d. m CallsFamily k = Some d \<longrightarrow>
     (\<exists>c r. wf_name utf8 (CallName c) \<and> k = call_key c \<and> wf_cid r \<and> d = cid_Bytes r))"

definition kv_refs_ok :: "(string \<Rightarrow> bool) \<Rightarrow> kv_view \<Rightarrow> bool" where
  "kv_refs_ok utf8 m \<longleftrightarrow> dom (m RefsFamily) = ref_key ` uses_of (kv_spec utf8 m)"

definition kv_inv :: "(bytes \<Rightarrow> bytes) \<Rightarrow> (string \<Rightarrow> bool) \<Rightarrow> kv_view \<Rightarrow> bool" where
  "kv_inv blake2b utf8 m \<longleftrightarrow>
     kv_blocks_ok blake2b utf8 m \<and> kv_heads_ok m \<and> kv_calls_ok utf8 m \<and> kv_refs_ok utf8 m"

definition rocks_inv ::
    "'db rocksdb \<Rightarrow> ('db \<Rightarrow> kv_view) \<Rightarrow> ('db \<Rightarrow> nat) \<Rightarrow> (bytes \<Rightarrow> bytes) \<Rightarrow> (string \<Rightarrow> bool) \<Rightarrow> 'db \<Rightarrow> bool" where
  "rocks_inv kv view pending blake2b utf8 db \<longleftrightarrow>
     rocksdb_ok kv view pending \<and> (\<forall>bs. length (blake2b bs) = 32)
     \<and> (\<forall>s. utf8 s \<longrightarrow> CHR 0xFF \<notin> set s) \<and> kv_inv blake2b utf8 (view db)"

lemma kv_spec_simps:
  "sp_heads (kv_spec utf8 m) h = (case m HeadsFamily (to_bytes h) of None \<Rightarrow> None | Some d \<Rightarrow> cid_fromBytes d)"
  "sp_calls (kv_spec utf8 m) f args = (if wf_name utf8 (CallName (make_call f args))
     then (case m CallsFamily (call_key (make_call f args)) of None \<Rightarrow> None | Some d \<Rightarrow> cid_fromBytes d)
     else None)"
  by (simp_all add: kv_spec_def)

lemma kv_spec_cong:
  "m BlocksFamily = m' BlocksFamily \<Longrightarrow> m HeadsFamily = m' HeadsFamily \<Longrightarrow> m CallsFamily = m' CallsFamily \<Longrightarrow>
   kv_spec utf8 m = kv_spec utf8 m'"
  by (simp add: kv_spec_def cong: if_cong option.case_cong)

lemma block_node:
  assumes "kv_blocks_ok blake2b utf8 m" and "wf_cid c" and "m BlocksFamily (cid_Bytes c) = Some d"
  obtains v where "storable utf8 v" and "saveAsIPLD blake2b False v = (c, d)" and "\<not> isIdentity c"
    and "loadFromIPLD utf8 c d = Inr (cbor_norm v)" and "sp_blocks (kv_spec utf8 m) c = Some (cbor_norm v)"
proof -
  from assms(1,3) obtain v c' where v: "storable utf8 v" "saveAsIPLD blake2b False v = (c', d)"
      "cid_Bytes c = cid_Bytes c'" "wf_cid c'" "\<not> isIdentity c'"
    unfolding kv_blocks_ok_def by blast
  then have c: "c' = c" using cids.whole.enc_inject [OF assms(2), of c'] by simp
  from v(1) have "loadFromIPLD utf8 c d = Inr (cbor_norm v)"
    using saveAsIPLD_roundtrip [of utf8 v blake2b False c d] v(2) by (simp add: storable_def c)
  with v c assms(2,3) show thesis by (intro that [of v]) (simp_all add: kv_spec_def)
qed

lemma sp_blocks_kv:
  assumes "kv_blocks_ok blake2b utf8 m" and "sp_blocks (kv_spec utf8 m) c = Some n"
  obtains v where "storable utf8 v" and "n = cbor_norm v" and "wf_cid c" and "\<not> isIdentity c"
    and "saveAsIPLD blake2b False v = (c, the (m BlocksFamily (cid_Bytes c)))"
    and "m BlocksFamily (cid_Bytes c) \<noteq> None"
proof -
  from assms(2) obtain d where d: "wf_cid c" "m BlocksFamily (cid_Bytes c) = Some d"
    by (auto simp: kv_spec_def split: if_splits option.splits)
  obtain v where "storable utf8 v" "saveAsIPLD blake2b False v = (c, d)" "\<not> isIdentity c"
      "sp_blocks (kv_spec utf8 m) c = Some (cbor_norm v)"
    by (rule block_node [OF assms(1) d])
  with assms(2) d show thesis by (intro that [of v]) simp_all
qed

lemma uses_wf:
  assumes "kv_inv blake2b utf8 m" and "x \<in> uses_of (kv_spec utf8 m)"
  shows "wf_ref utf8 x"
proof -
  obtain n r where x: "x = (n, r)" by fastforce
  with assms(2) have u: "spec_uses (kv_spec utf8 m) n r" by (simp add: uses_of_def)
  from assms(1) have ok: "kv_blocks_ok blake2b utf8 m" "kv_heads_ok m" "kv_calls_ok utf8 m"
    by (simp_all add: kv_inv_def)
  show ?thesis
  proof (cases n)
    case (CIDName c)
    with u obtain v where v: "sp_blocks (kv_spec utf8 m) c = Some v" "r \<in> set (eachLink v)"
      by (auto simp: spec_uses_def)
    from sp_blocks_kv [OF ok(1) v(1)] obtain w where "storable utf8 w" "v = cbor_norm w" "wf_cid c" by blast
    then show ?thesis
      using v(2) eachLink_wf(1) [of utf8 w r] by (simp add: x CIDName wf_ref_def wf_name_def storable_def eachLink_norm)
  next
    case (HeadName h)
    with u obtain d where "m HeadsFamily (to_bytes (head_Name h)) = Some d" "cid_fromBytes d = Some r"
      by (auto simp: spec_uses_def kv_spec_simps split: option.splits)
    with ok(2) have "wf_cid r" unfolding kv_heads_ok_def by (metis cid_fromBytes_wf option.inject)
    then show ?thesis by (simp add: x HeadName wf_ref_def wf_name_def)
  next
    case (CallName c)
    have c: "make_call (call_Name c) (call_Args c) = c" by (simp add: make_call_def)
    from CallName u obtain d q where d: "m CallsFamily (call_key c) = Some d" "cid_fromBytes d = Some q"
      and wf: "wf_name utf8 (CallName c)" and r: "r = q \<or> r \<in> set (call_Args c)"
      by (auto simp: spec_uses_def kv_spec_simps c split: option.splits if_splits)
    from d ok(3) have "wf_cid q" unfolding kv_calls_ok_def by (metis cid_fromBytes_wf option.inject)
    with wf r show ?thesis by (auto simp: x CallName wf_ref_def wf_name_def list_all_iff)
  qed
qed

lemma kv_refs_update:
  assumes "kv_inv blake2b utf8 m"
    and "dom (m' RefsFamily) = (dom (m RefsFamily) - ref_key ` D) \<union> ref_key ` A"
    and "\<And>x. x \<in> D \<Longrightarrow> wf_ref utf8 x" and "\<And>x. x \<in> A \<Longrightarrow> wf_ref utf8 x"
    and "uses_of (kv_spec utf8 m') = (uses_of (kv_spec utf8 m) - D) \<union> A"
  shows "kv_refs_ok utf8 m'"
proof -
  let ?U = "uses_of (kv_spec utf8 m)"
  have "?U \<subseteq> {x. wf_ref utf8 x}" "D \<subseteq> {x. wf_ref utf8 x}"
    using uses_wf [OF assms(1)] assms(3) by auto
  then have "ref_key ` (?U - D) = ref_key ` ?U - ref_key ` D"
    by (intro inj_on_image_set_diff [OF inj_on_ref_key [of utf8]]) auto
  moreover have "dom (m RefsFamily) = ref_key ` ?U"
    using assms(1) by (simp add: kv_inv_def kv_refs_ok_def)
  ultimately show ?thesis
    unfolding kv_refs_ok_def assms(2,5) by (simp add: image_Un)
qed

subsection \<open>Reads\<close>

lemma check_simps [simp]:
  "checkStatus Ok = Inr ()" "checkFound Ok = Inr True" "checkFound NotFound = Inr False"
  by (simp_all add: checkStatus_def checkFound_def)

lemma rocks_invD:
  assumes "rocks_inv kv view pending blake2b utf8 db"
  shows "rocksdb_ok kv view pending" and "\<forall>bs. length (blake2b bs) = 32" and "kv_inv blake2b utf8 (view db)"
    and "kv_blocks_ok blake2b utf8 (view db)" and "kv_heads_ok (view db)" and "kv_calls_ok utf8 (view db)"
    and "\<forall>s. utf8 s \<longrightarrow> CHR 0xFF \<notin> set s" and "rocksdb_laws kv view"
  using assms by (simp_all add: rocks_inv_def kv_inv_def rocksdb_ok_def)

lemma rocks_get:
  assumes "rocks_inv kv view pending blake2b utf8 db" and "wf_cid c"
  shows "rocks_getOptional kv utf8 db c = spec_get utf8 (kv_spec utf8 (view db)) c"
proof (cases "isIdentity c")
  case True
  then show ?thesis
    by (simp add: rocks_getOptional_def spec_get_def cantFail_def split: sum.splits)
next
  case False
  note inv = rocks_invD [OF assms(1)]
  show ?thesis
  proof (cases "view db BlocksFamily (cid_Bytes c)")
    case None
    then show ?thesis
      using False assms(2) by (simp add: rocks_getOptional_def spec_get_def rocksdb_reads [OF inv(8)] kv_spec_def)
  next
    case (Some d)
    from block_node [OF inv(4) assms(2) Some] obtain v where
      "loadFromIPLD utf8 c d = Inr (cbor_norm v)" "sp_blocks (kv_spec utf8 (view db)) c = Some (cbor_norm v)" .
    with False Some show ?thesis
      by (simp add: rocks_getOptional_def spec_get_def rocksdb_reads [OF inv(8)] cantFail_def)
  qed
qed

lemma make_call_fields [simp]: "make_call (call_Name c) (call_Args c) = c"
  by (simp add: make_call_def)

lemma heads_value:
  assumes "kv_heads_ok m" and "m HeadsFamily k = Some d"
  obtains c where "wf_cid c" and "d = cid_Bytes c" and "cid_fromBytes d = Some c"
  using assms cid_fromBytes_wf unfolding kv_heads_ok_def by blast

lemma calls_value:
  assumes "kv_calls_ok utf8 m" and "m CallsFamily k = Some d"
  obtains c r where "wf_name utf8 (CallName c)" and "k = call_key c" and "wf_cid r" and "d = cid_Bytes r"
    and "cid_fromBytes d = Some r"
  using assms cid_fromBytes_wf unfolding kv_calls_ok_def by blast

lemma rocks_resolve:
  assumes "rocks_inv kv view pending blake2b utf8 db" and "wf_name utf8 n"
  shows "rocks_resolveOptional kv utf8 db n = Inr (spec_resolve (kv_spec utf8 (view db)) n)"
proof (cases n)
  case (CIDName c)
  then show ?thesis by (simp add: rocks_resolveOptional_def spec_resolve_def)
next
  case (HeadName h)
  note inv = rocks_invD [OF assms(1)]
  show ?thesis
  proof (cases "view db HeadsFamily (to_bytes (head_Name h))")
    case (Some d)
    then obtain c where "cid_fromBytes d = Some c" by (rule heads_value [OF inv(5)])
    with HeadName Some show ?thesis
      by (simp add: rocks_resolveOptional_def spec_resolve_def rocksdb_reads [OF inv(8)] kv_spec_simps deref_def)
  qed (simp add: HeadName rocks_resolveOptional_def spec_resolve_def rocksdb_reads [OF inv(8)] kv_spec_simps)
next
  case (CallName c)
  note inv = rocks_invD [OF assms(1)]
  from assms(2) CallName have k: "makeKeyForCall utf8 c = Inr (call_key c)"
    by (intro makeKeyForCall_ok) (simp add: wf_name_def)
  show ?thesis
  proof (cases "view db CallsFamily (call_key c)")
    case (Some d)
    then obtain r where "cid_fromBytes d = Some r" by (rule calls_value [OF inv(6)])
    with CallName Some assms(2) show ?thesis
      by (simp add: rocks_resolveOptional_def spec_resolve_def rocksdb_reads [OF inv(8)] kv_spec_simps deref_def k)
  qed (simp add: CallName rocks_resolveOptional_def spec_resolve_def rocksdb_reads [OF inv(8)] kv_spec_simps k)
qed

subsection \<open>Writes\<close>

lemma apply_ops_simps [simp]:
  "apply_ops [] m = m" "apply_ops (x # xs) m = apply_ops xs (apply_op x m)"
  "apply_ops (xs @ ys) m = apply_ops ys (apply_ops xs m)"
  by (simp_all add: apply_ops_def)

definition put_refs :: "bytes list \<Rightarrow> write_op list" where
  "put_refs ks = map (\<lambda>k. OpPut RefsFamily k []) ks"

definition del_refs :: "bytes list \<Rightarrow> write_op list" where
  "del_refs ks = map (\<lambda>k. OpDelete RefsFamily k) ks"

lemma apply_put_refs:
  "apply_ops (put_refs ks) m = m(RefsFamily := (\<lambda>k. if k \<in> set ks then Some [] else m RefsFamily k))"
  unfolding put_refs_def by (induction ks arbitrary: m) (auto simp: fun_eq_iff)

lemma apply_del_refs:
  "apply_ops (del_refs ks) m = m(RefsFamily := (\<lambda>k. if k \<in> set ks then None else m RefsFamily k))"
  unfolding del_refs_def by (induction ks arbitrary: m) (auto simp: fun_eq_iff)

definition real :: "cid list \<Rightarrow> cid list" where
  "real cs = filter (\<lambda>c. \<not> isIdentity c) cs"

lemma addRef_put_refs:
  "addRef B (name_type n) (name_key n) c = B @ put_refs (map (\<lambda>c. ref_key (n, c)) (real [c]))"
  by (simp add: addRef_def put_refs_def real_def ref_key_def)

lemma foldl_addRef:
  "foldl (\<lambda>B c. addRef B (name_type n) (name_key n) c) B cs
   = B @ put_refs (map (\<lambda>c. ref_key (n, c)) (real cs))"
  by (induction cs arbitrary: B) (simp_all add: addRef_put_refs put_refs_def real_def)

lemma addRefs_put_refs:
  "addRefs B (name_type n) (name_key n) v = B @ put_refs (map (\<lambda>c. ref_key (n, c)) (real (eachLink v)))"
proof -
  have "(\<lambda>B c. if isIdentity c then B else addRef B (name_type n) (name_key n) c)
      = (\<lambda>B c. addRef B (name_type n) (name_key n) c)"
    by (auto simp: fun_eq_iff addRef_def)
  then show ?thesis by (simp add: addRefs_def foldl_addRef)
qed

lemma deleteRef_del_refs:
  "deleteRef B (name_type n) (name_key n) (cid_Bytes c) = B @ del_refs [ref_key (n, c)]"
  by (simp add: deleteRef_def del_refs_def ref_key_def)

lemma foldl_deleteRef:
  "foldl (\<lambda>B c. deleteRef B (name_type n) (name_key n) (cid_Bytes c)) B cs
   = B @ del_refs (map (\<lambda>c. ref_key (n, c)) cs)"
  by (induction cs arbitrary: B) (simp_all add: deleteRef_del_refs del_refs_def)

lemma kv_spec_put_block:
  assumes "wf_cid c" and "\<not> isIdentity c" and "loadFromIPLD utf8 c content = Inr n"
    and "m' BlocksFamily = (m BlocksFamily)(cid_Bytes c \<mapsto> content)"
    and "m' HeadsFamily = m HeadsFamily" and "m' CallsFamily = m CallsFamily"
  shows "kv_spec utf8 m' = (kv_spec utf8 m)\<lparr>sp_blocks := (sp_blocks (kv_spec utf8 m))(c \<mapsto> n)\<rparr>"
proof -
  have "sp_blocks (kv_spec utf8 m') d = ((sp_blocks (kv_spec utf8 m))(c \<mapsto> n)) d" for d
  proof (cases "d = c")
    case True
    then show ?thesis using assms by (simp add: kv_spec_def)
  next
    case False
    then have "cid_Bytes d \<noteq> cid_Bytes c" if "wf_cid d"
      using cids.whole.enc_inject [OF that assms(1)] by simp
    with False show ?thesis by (simp add: kv_spec_def assms(4))
  qed
  then show ?thesis by (simp add: kv_spec_def fun_eq_iff assms(5,6))
qed

lemma norm_content:
  assumes "cbor_norm v = cbor_norm w"
  shows "(case v of Bytes bs \<Rightarrow> bs | _ \<Rightarrow> cbor v) = (case w of Bytes bs \<Rightarrow> bs | _ \<Rightarrow> cbor w)"
proof -
  have eq: "cbor v = cbor w" using arg_cong [OF assms, of cbor] by (simp only: cbor_norm_idem)
  have b: "(\<exists>bs. x = Bytes bs) \<longleftrightarrow> (\<exists>bs. cbor_norm x = Bytes bs)" for x by (cases x) simp_all
  show ?thesis
  proof (cases "\<exists>bs. v = Bytes bs")
    case True
    moreover from this have "\<exists>bs. w = Bytes bs" using b [of v] b [of w] assms by simp
    ultimately show ?thesis using assms by auto
  next
    case False
    moreover from this have "\<nexists>bs. w = Bytes bs" using b [of v] b [of w] assms by simp
    ultimately show ?thesis using eq by (cases v; cases w) (simp_all del: cbor.simps)
  qed
qed

lemma dom_refs_update:
  "dom (apply_ops (put_refs ks) m RefsFamily) = dom (m RefsFamily) \<union> set ks"
  "dom (apply_ops (del_refs ks) m RefsFamily) = dom (m RefsFamily) - set ks"
  by (auto simp: apply_put_refs apply_del_refs split: if_splits)

lemma rocks_put_new:
  assumes inv: "kv_inv blake2b utf8 m" and wf: "wf_cid c" "\<not> isIdentity c" and v: "storable utf8 v"
    and save: "saveAsIPLD blake2b False v = (c, content)" and new: "m BlocksFamily (cid_Bytes c) = None"
  defines "m' \<equiv> apply_ops (addRefs [OpPut BlocksFamily (cid_Bytes c) content] TYPE_BLOCK (cid_Bytes c) v) m"
  shows "kv_inv blake2b utf8 m'"
    and "kv_spec utf8 m' = (kv_spec utf8 m)\<lparr>sp_blocks := (sp_blocks (kv_spec utf8 m))(c \<mapsto> cbor_norm v)\<rparr>"
proof -
  let ?n = "CIDName c"
  have tk: "TYPE_BLOCK = name_type ?n" "cid_Bytes c = name_key ?n"
    by (simp_all add: name_type_def name_key_def)
  have m': "m' = apply_ops (put_refs (map (\<lambda>l. ref_key (?n, l)) (real (eachLink v))))
      (m(BlocksFamily := (m BlocksFamily)(cid_Bytes c \<mapsto> content)))"
    unfolding m'_def tk(1) by (subst tk(2), subst addRefs_put_refs) (simp add: name_key_def)
  have fams: "m' BlocksFamily = (m BlocksFamily)(cid_Bytes c \<mapsto> content)"
    "m' HeadsFamily = m HeadsFamily" "m' CallsFamily = m CallsFamily"
    by (simp_all add: m' apply_put_refs)
  have load: "loadFromIPLD utf8 c content = Inr (cbor_norm v)"
    using saveAsIPLD_roundtrip [OF _ save] v by (simp add: storable_def)
  from kv_spec_put_block [OF wf load fams]
  show spec: "kv_spec utf8 m' = (kv_spec utf8 m)\<lparr>sp_blocks := (sp_blocks (kv_spec utf8 m))(c \<mapsto> cbor_norm v)\<rparr>" .
  have "kv_refs_ok utf8 m'"
  proof (rule kv_refs_update [OF inv, where D = "{}" and A = "(\<lambda>l. (?n, l)) ` set (real (eachLink v))"])
    show "dom (m' RefsFamily) = (dom (m RefsFamily) - ref_key ` {}) \<union> ref_key ` (\<lambda>l. (?n, l)) ` set (real (eachLink v))"
      unfolding m' dom_refs_update by (simp add: image_image)
    show "wf_ref utf8 x" if "x \<in> (\<lambda>l. (?n, l)) ` set (real (eachLink v))" for x
      using that v wf(1) eachLink_wf(1) [of utf8 v] by (auto simp: wf_ref_def wf_name_def real_def storable_def)
    have "sp_blocks (kv_spec utf8 m) c = None" using new by (simp add: kv_spec_def)
    then show "uses_of (kv_spec utf8 m') = (uses_of (kv_spec utf8 m) - {}) \<union> (\<lambda>l. (?n, l)) ` set (real (eachLink v))"
      unfolding spec
      by (auto simp: uses_of_def spec_uses_def real_def eachLink_norm split: name.splits if_splits)
  qed simp
  moreover have "kv_blocks_ok blake2b utf8 m'"
    using inv v save wf by (auto simp: kv_inv_def kv_blocks_ok_def fams)
  ultimately show "kv_inv blake2b utf8 m'"
    using inv by (simp add: kv_inv_def kv_heads_ok_def kv_calls_ok_def fams)
qed

lemma rocks_put_ok:
  assumes "rocks_inv kv view pending blake2b utf8 db" and "storable utf8 v"
    and "no_collision blake2b (kv_spec utf8 (view db)) v"
  shows "\<exists>db'. rocks_put kv blake2b db v = Inr (fst (spec_put blake2b (kv_spec utf8 (view db)) v), db')
    \<and> rocks_inv kv view pending blake2b utf8 db'
    \<and> kv_spec utf8 (view db') = snd (spec_put blake2b (kv_spec utf8 (view db)) v)"
proof -
  note inv = rocks_invD [OF assms(1)]
  obtain c content where save: "saveAsIPLD blake2b False v = (c, content)" by fastforce
  have wf: "wf_cid c" using saveAsIPLD_cid(1) [OF inv(2) _ save] assms(2) by (simp add: storable_def)
  note empty = saveAsIPLD_empty [OF save]
  show ?thesis
  proof (cases "isIdentity c")
    case True
    then show ?thesis using assms(1) empty by (simp add: rocks_put_def save spec_put_def)
  next
    case ni: False
    show ?thesis
    proof (cases "view db BlocksFamily (cid_Bytes c)")
      case (Some d)
      from block_node [OF inv(4) wf Some] obtain w where w: "saveAsIPLD blake2b False w = (c, d)"
        "sp_blocks (kv_spec utf8 (view db)) c = Some (cbor_norm w)" .
      with assms(3) save have norm: "cbor_norm w = cbor_norm v" by (simp add: no_collision_def)
      have "content = d"
        using norm_content [OF norm] saveAsIPLD_content(2) [OF save ni] saveAsIPLD_content(2) [OF w(1) ni] by simp
      moreover have "(sp_blocks (kv_spec utf8 (view db)))(c \<mapsto> cbor_norm v) = sp_blocks (kv_spec utf8 (view db))"
        using w(2) norm by (auto simp: fun_eq_iff)
      ultimately show ?thesis
        using assms(1) ni empty Some by (simp add: rocks_put_def save spec_put_def rocksdb_reads [OF inv(8)])
    next
      case None
      let ?ops = "addRefs [OpPut BlocksFamily (cid_Bytes c) content] TYPE_BLOCK (cid_Bytes c) v"
      obtain db' where "rdb_Write kv db ?ops = (Ok, db')" "view db' = apply_ops ?ops (view db)"
        using rocksdb_write [OF inv(8)] .
      moreover note rocks_put_new [OF inv(3) wf ni assms(2) save None]
      ultimately show ?thesis
        using inv(1,2,7) ni empty None
        by (simp add: rocks_put_def save spec_put_def rocksdb_reads [OF inv(8)] rocks_inv_def)
    qed
  qed
qed

lemma uses_of_set:
  assumes "proper_name n"
  shows "uses_of (spec_set sp n ref) =
    (uses_of sp - {n} \<times> UNIV) \<union> {n} \<times> {r. \<not> isIdentity r \<and>
       (case n of CallName c \<Rightarrow> r = ref \<or> r \<in> set (call_Args c) | _ \<Rightarrow> r = ref)}"
  using assms by (auto simp: uses_of_def spec_uses_def spec_set_def proper_name_def
      split: name.splits if_splits)

lemma uses_of_name:
  "(HeadName h, r) \<in> uses_of sp \<longleftrightarrow> \<not> isIdentity r \<and> sp_heads sp (head_Name h) = Some r"
  "(CallName c, r) \<in> uses_of sp \<longleftrightarrow> \<not> isIdentity r \<and>
     (\<exists>q. sp_calls sp (call_Name c) (call_Args c) = Some q \<and> (r = q \<or> r \<in> set (call_Args c)))"
  by (auto simp: uses_of_def spec_uses_def)

text \<open>The writes of \<^verbatim>\<open>set\<close> for a head, with the reference of the old value removed.\<close>

definition set_head_ops :: "kv_view \<Rightarrow> head \<Rightarrow> cid \<Rightarrow> write_op list" where
  "set_head_ops m h ref =
     (case m HeadsFamily (to_bytes (head_Name h)) of
        None \<Rightarrow> [] | Some d \<Rightarrow> deleteRef [] TYPE_HEAD (to_bytes (head_Name h)) d)
     @ [OpPut HeadsFamily (to_bytes (head_Name h)) (cid_Bytes ref)]
     @ put_refs (map (\<lambda>c. ref_key (HeadName h, c)) (real [ref]))"

definition set_call_ops :: "kv_view \<Rightarrow> call \<Rightarrow> cid \<Rightarrow> write_op list" where
  "set_call_ops m c ref =
     (case m CallsFamily (call_key c) of
        None \<Rightarrow> [] | Some d \<Rightarrow> deleteRef [] TYPE_CALL (call_key c) d)
     @ [OpPut CallsFamily (call_key c) (cid_Bytes ref)]
     @ put_refs (map (\<lambda>a. ref_key (CallName c, a)) (real (ref # call_Args c)))"

lemma set_txn_head:
  assumes "rocksdb_laws kv view"
  shows "set_txn kv utf8 (HeadName h) ref db = Inr (set_head_ops (view db) h ref)"
  using addRef_put_refs [of _ "HeadName h" ref]
  by (simp add: set_txn_def rocksdb_reads [OF assms] set_head_ops_def name_type_def name_key_def Let_def
      split: option.splits)

lemma set_txn_call:
  assumes "rocksdb_laws kv view" and "utf8 (call_Name c)"
  shows "set_txn kv utf8 (CallName c) ref db = Inr (set_call_ops (view db) c ref)"
  using addRef_put_refs [of _ "CallName c" ref] foldl_addRef [where n = "CallName c"]
  by (simp add: set_txn_def rocksdb_reads [OF assms(1)] set_call_ops_def name_type_def name_key_def Let_def
      makeKeyForCall_ok [of utf8 c, OF assms(2)] put_refs_def real_def split: option.splits)

lemma image_name_Times: "f ` ({n} \<times> X) = (\<lambda>c. f (n, c)) ` X"
  by auto

text \<open>The value a head or a call had before, as a list of at most one identifier.\<close>

lemma old_head:
  assumes "kv_heads_ok m"
  obtains olds where "(case m HeadsFamily (to_bytes (head_Name h)) of
        None \<Rightarrow> [] | Some d \<Rightarrow> deleteRef [] TYPE_HEAD (to_bytes (head_Name h)) d)
      = del_refs (map (\<lambda>c. ref_key (HeadName h, c)) olds)" and "\<forall>c \<in> set olds. wf_cid c"
    and "\<forall>r. sp_heads (kv_spec utf8 m) (head_Name h) = Some r \<longleftrightarrow> olds = [r]"
proof (cases "m HeadsFamily (to_bytes (head_Name h))")
  case None
  then show thesis by (intro that [of "[]"]) (simp_all add: del_refs_def kv_spec_simps)
next
  case (Some d)
  then obtain c where "wf_cid c" "d = cid_Bytes c" "cid_fromBytes d = Some c"
    by (rule heads_value [OF assms])
  with Some deleteRef_del_refs [of "[]" "HeadName h" c] show thesis
    by (intro that [of "[c]"]) (auto simp: kv_spec_simps name_type_def name_key_def)
qed

lemma old_call:
  assumes "kv_calls_ok utf8 m" and "wf_name utf8 (CallName c)"
  obtains olds where "(case m CallsFamily (call_key c) of
        None \<Rightarrow> [] | Some d \<Rightarrow> deleteRef [] TYPE_CALL (call_key c) d)
      = del_refs (map (\<lambda>a. ref_key (CallName c, a)) olds)" and "\<forall>c \<in> set olds. wf_cid c"
    and "\<forall>r. sp_calls (kv_spec utf8 m) (call_Name c) (call_Args c) = Some r \<longleftrightarrow> olds = [r]"
proof (cases "m CallsFamily (call_key c)")
  case None
  then show thesis by (intro that [of "[]"]) (simp_all add: del_refs_def kv_spec_simps)
next
  case (Some d)
  then obtain r where "wf_cid r" "d = cid_Bytes r" "cid_fromBytes d = Some r"
    by (rule calls_value [OF assms(1)])
  with Some assms(2) deleteRef_del_refs [of "[]" "CallName c" r] show thesis
    by (intro that [of "[r]"]) (auto simp: kv_spec_simps name_type_def name_key_def)
qed

lemma set_head_kv:
  fixes h :: head
  assumes inv: "kv_inv blake2b utf8 m" and ref: "wf_cid ref"
  defines "m' \<equiv> apply_ops (set_head_ops m h ref) m"
  shows "kv_inv blake2b utf8 m'" and "kv_spec utf8 m' = spec_set (kv_spec utf8 m) (HeadName h) ref"
proof -
  let ?n = "HeadName h" and ?k = "to_bytes (head_Name h)"
  from inv have heads: "kv_heads_ok m" by (simp add: kv_inv_def)
  obtain olds where old: "(case m HeadsFamily ?k of None \<Rightarrow> [] | Some d \<Rightarrow> deleteRef [] TYPE_HEAD ?k d)
      = del_refs (map (\<lambda>c. ref_key (?n, c)) olds)" and owf: "\<forall>c \<in> set olds. wf_cid c"
    and osp: "\<forall>r. sp_heads (kv_spec utf8 m) (head_Name h) = Some r \<longleftrightarrow> olds = [r]"
    by (rule old_head [OF heads, of h utf8])
  have m': "m' = apply_ops (put_refs (map (\<lambda>c. ref_key (?n, c)) (real [ref])))
      (apply_op (OpPut HeadsFamily ?k (cid_Bytes ref))
        (apply_ops (del_refs (map (\<lambda>c. ref_key (?n, c)) olds)) m))"
    by (simp add: m'_def set_head_ops_def old)
  have fams: "m' HeadsFamily = (m HeadsFamily)(?k \<mapsto> cid_Bytes ref)"
    "m' BlocksFamily = m BlocksFamily" "m' CallsFamily = m CallsFamily"
    by (simp_all add: m' apply_put_refs apply_del_refs)
  show spec: "kv_spec utf8 m' = spec_set (kv_spec utf8 m) ?n ref"
    using ref by (auto simp: spec_set_def kv_spec_def fams fun_eq_iff cid_fromBytes_wf)
  have "kv_refs_ok utf8 m'"
  proof (rule kv_refs_update [OF inv, where D = "{?n} \<times> set olds" and A = "{?n} \<times> set (real [ref])"])
    show "dom (m' RefsFamily) = (dom (m RefsFamily) - ref_key ` ({?n} \<times> set olds)) \<union> ref_key ` ({?n} \<times> set (real [ref]))"
      unfolding m' dom_refs_update apply_op.simps using dom_refs_update(2) [of "map (\<lambda>c. ref_key (?n, c)) olds" m]
      by (simp add: image_name_Times)
    show "uses_of (kv_spec utf8 m') = (uses_of (kv_spec utf8 m) - {?n} \<times> set olds) \<union> {?n} \<times> set (real [ref])"
      unfolding spec using osp
      by (subst uses_of_set) (auto simp: proper_name_def real_def uses_of_name)
  qed (use owf ref in \<open>auto simp: wf_ref_def wf_name_def real_def split: if_splits\<close>)
  moreover have "kv_heads_ok m'"
    using heads ref by (auto simp: kv_heads_ok_def fams)
  ultimately show "kv_inv blake2b utf8 m'"
    using inv by (simp add: kv_inv_def kv_blocks_ok_def kv_calls_ok_def fams)
qed

lemma kv_spec_calls_update:
  assumes "wf_name utf8 (CallName c)" and "m' CallsFamily = (m CallsFamily)(call_key c := x)"
    and "m' BlocksFamily = m BlocksFamily" and "m' HeadsFamily = m HeadsFamily"
  shows "kv_spec utf8 m' = (kv_spec utf8 m)\<lparr>sp_calls := (sp_calls (kv_spec utf8 m))(call_Name c :=
    (sp_calls (kv_spec utf8 m) (call_Name c))(call_Args c := (case x of None \<Rightarrow> None | Some d \<Rightarrow> cid_fromBytes d)))\<rparr>"
proof -
  have "sp_calls (kv_spec utf8 m') f args = ((sp_calls (kv_spec utf8 m))(call_Name c :=
    (sp_calls (kv_spec utf8 m) (call_Name c))(call_Args c := (case x of None \<Rightarrow> None | Some d \<Rightarrow> cid_fromBytes d)))) f args"
    for f args
  proof (cases "make_call f args = c")
    case True
    then have "f = call_Name c" "args = call_Args c" by (auto simp: make_call_def)
    then show ?thesis using assms(1,2) by (simp add: kv_spec_simps)
  next
    case False
    then have "call_key (make_call f args) \<noteq> call_key c" if "wf_name utf8 (CallName (make_call f args))"
      using call_key_inject [OF that assms(1)] by blast
    moreover have "\<not> (f = call_Name c \<and> args = call_Args c)" using False by auto
    ultimately show ?thesis by (auto simp: kv_spec_simps assms(2))
  qed
  then show ?thesis by (simp add: kv_spec_def fun_eq_iff assms(3,4))
qed

lemma set_call_kv:
  fixes c :: call
  assumes inv: "kv_inv blake2b utf8 m" and ref: "wf_cid ref" and wf: "wf_name utf8 (CallName c)"
  defines "m' \<equiv> apply_ops (set_call_ops m c ref) m"
  shows "kv_inv blake2b utf8 m'" and "kv_spec utf8 m' = spec_set (kv_spec utf8 m) (CallName c) ref"
proof -
  let ?n = "CallName c" and ?k = "call_key c"
  from inv have calls: "kv_calls_ok utf8 m" by (simp add: kv_inv_def)
  obtain olds where old: "(case m CallsFamily ?k of None \<Rightarrow> [] | Some d \<Rightarrow> deleteRef [] TYPE_CALL ?k d)
      = del_refs (map (\<lambda>c. ref_key (?n, c)) olds)" and owf: "\<forall>c \<in> set olds. wf_cid c"
    and osp: "\<forall>r. sp_calls (kv_spec utf8 m) (call_Name c) (call_Args c) = Some r \<longleftrightarrow> olds = [r]"
    by (rule old_call [OF calls wf])
  have m': "m' = apply_ops (put_refs (map (\<lambda>a. ref_key (?n, a)) (real (ref # call_Args c))))
      (apply_op (OpPut CallsFamily ?k (cid_Bytes ref))
        (apply_ops (del_refs (map (\<lambda>c. ref_key (?n, c)) olds)) m))"
    by (simp add: m'_def set_call_ops_def old)
  have fams: "m' CallsFamily = (m CallsFamily)(?k \<mapsto> cid_Bytes ref)"
    "m' BlocksFamily = m BlocksFamily" "m' HeadsFamily = m HeadsFamily"
    by (simp_all add: m' apply_put_refs apply_del_refs)
  show spec: "kv_spec utf8 m' = spec_set (kv_spec utf8 m) ?n ref"
    using kv_spec_calls_update [OF wf fams] ref by (simp add: spec_set_def cid_fromBytes_wf)
  have awf: "\<forall>a \<in> set (call_Args c). wf_cid a" using wf by (simp add: wf_name_def list_all_iff)
  have "kv_refs_ok utf8 m'"
  proof (rule kv_refs_update [OF inv, where D = "{?n} \<times> set olds" and A = "{?n} \<times> set (real (ref # call_Args c))"])
    show "dom (m' RefsFamily) = (dom (m RefsFamily) - ref_key ` ({?n} \<times> set olds))
        \<union> ref_key ` ({?n} \<times> set (real (ref # call_Args c)))"
      unfolding m' dom_refs_update apply_op.simps using dom_refs_update(2) [of "map (\<lambda>c. ref_key (?n, c)) olds" m]
      by (simp add: image_name_Times)
    show "uses_of (kv_spec utf8 m') = (uses_of (kv_spec utf8 m) - {?n} \<times> set olds)
        \<union> {?n} \<times> set (real (ref # call_Args c))"
      unfolding spec using osp
      by (subst uses_of_set) (auto simp: proper_name_def real_def uses_of_name)
  qed (use owf ref wf awf in \<open>auto simp: wf_ref_def real_def split: if_splits\<close>)
  moreover have "kv_calls_ok utf8 m'"
    using calls ref wf by (auto simp: kv_calls_ok_def fams)
  ultimately show "kv_inv blake2b utf8 m'"
    using inv by (simp add: kv_inv_def kv_blocks_ok_def kv_heads_ok_def fams)
qed

lemma rocks_txn_ok:
  assumes "rocks_inv kv view pending blake2b utf8 db"
    and "\<And>d. view d = view db \<Longrightarrow> body d = Inr ops"
    and "kv_inv blake2b utf8 (apply_ops ops (view db))"
  shows "\<exists>db'. run_txn kv body db = Inr db' \<and> rocks_inv kv view pending blake2b utf8 db'
    \<and> kv_spec utf8 (view db') = kv_spec utf8 (apply_ops ops (view db))"
  using run_txn_ok [of kv view pending db body ops] assms by (auto simp: rocks_inv_def)

lemma rocks_set_ok:
  assumes "rocks_inv kv view pending blake2b utf8 db" and "wf_name utf8 n" and "proper_name n" and "wf_cid ref"
  shows "\<exists>db'. rocks_set kv utf8 db n ref = Inr db' \<and> rocks_inv kv view pending blake2b utf8 db'
    \<and> kv_spec utf8 (view db') = spec_set (kv_spec utf8 (view db)) n ref"
proof (cases n)
  case (HeadName h)
  note inv = rocks_invD [OF assms(1)]
  have "set_txn kv utf8 n ref d = Inr (set_head_ops (view db) h ref)" if "view d = view db" for d
    using that by (simp add: HeadName set_txn_head [OF inv(8)])
  from rocks_txn_ok [OF assms(1) this set_head_kv(1) [OF inv(3) assms(4)]] set_head_kv(2) [OF inv(3) assms(4)]
  show ?thesis by (simp add: HeadName rocks_set_def)
next
  case (CallName c)
  note inv = rocks_invD [OF assms(1)]
  have u: "utf8 (call_Name c)" using assms(2) CallName by (simp add: wf_name_def)
  have "set_txn kv utf8 n ref d = Inr (set_call_ops (view db) c ref)" if "view d = view db" for d
    using that by (simp add: CallName set_txn_call [of kv view utf8, OF inv(8) u])
  from rocks_txn_ok [OF assms(1) this set_call_kv(1) [OF inv(3) assms(4)]] set_call_kv(2) [OF inv(3) assms(4)]
    assms(2) show ?thesis by (simp add: CallName rocks_set_def)
qed (use assms(3) in \<open>simp add: proper_name_def\<close>)

definition head_delete_ops :: "kv_view \<Rightarrow> head \<Rightarrow> write_op list" where
  "head_delete_ops m h =
     (case m HeadsFamily (to_bytes (head_Name h)) of
        None \<Rightarrow> [] | Some d \<Rightarrow> deleteRef [] TYPE_HEAD (to_bytes (head_Name h)) d)
     @ [OpDelete HeadsFamily (to_bytes (head_Name h))]"

lemma head_delete_txn_ops:
  "rocksdb_laws kv view \<Longrightarrow> head_delete_txn kv h db = Inr (head_delete_ops (view db) h)"
  by (simp add: head_delete_txn_def rocksdb_reads head_delete_ops_def split: option.splits)

lemma head_delete_kv:
  fixes h :: head
  assumes inv: "kv_inv blake2b utf8 m"
  defines "m' \<equiv> apply_ops (head_delete_ops m h) m"
  shows "kv_inv blake2b utf8 m'" and "kv_spec utf8 m' = spec_head_delete (kv_spec utf8 m) h"
proof -
  let ?n = "HeadName h" and ?k = "to_bytes (head_Name h)"
  from inv have heads: "kv_heads_ok m" by (simp add: kv_inv_def)
  obtain olds where old: "(case m HeadsFamily ?k of None \<Rightarrow> [] | Some d \<Rightarrow> deleteRef [] TYPE_HEAD ?k d)
      = del_refs (map (\<lambda>c. ref_key (?n, c)) olds)" and owf: "\<forall>c \<in> set olds. wf_cid c"
    and osp: "\<forall>r. sp_heads (kv_spec utf8 m) (head_Name h) = Some r \<longleftrightarrow> olds = [r]"
    by (rule old_head [OF heads, of h utf8])
  have m': "m' = apply_op (OpDelete HeadsFamily ?k) (apply_ops (del_refs (map (\<lambda>c. ref_key (?n, c)) olds)) m)"
    by (simp add: m'_def head_delete_ops_def old)
  have fams: "m' HeadsFamily = (m HeadsFamily)(?k := None)"
    "m' BlocksFamily = m BlocksFamily" "m' CallsFamily = m CallsFamily"
    by (simp_all add: m' apply_del_refs)
  show spec: "kv_spec utf8 m' = spec_head_delete (kv_spec utf8 m) h"
    by (auto simp: spec_head_delete_def kv_spec_def fams fun_eq_iff)
  have "kv_refs_ok utf8 m'"
  proof (rule kv_refs_update [OF inv, where D = "{?n} \<times> set olds" and A = "{}"])
    show "dom (m' RefsFamily) = (dom (m RefsFamily) - ref_key ` ({?n} \<times> set olds)) \<union> ref_key ` {}"
      unfolding m' using dom_refs_update(2) [of "map (\<lambda>c. ref_key (?n, c)) olds" m]
      by (simp add: image_name_Times)
    show "uses_of (kv_spec utf8 m') = (uses_of (kv_spec utf8 m) - {?n} \<times> set olds) \<union> {}"
      unfolding spec using osp
      by (auto simp: uses_of_def spec_uses_def spec_head_delete_def split: name.splits if_splits)
  qed (use owf in \<open>auto simp: wf_ref_def wf_name_def\<close>)
  then show "kv_inv blake2b utf8 m'"
    using inv by (auto simp: kv_inv_def kv_blocks_ok_def kv_calls_ok_def kv_heads_ok_def fams split: if_splits)
qed

lemma rocks_head_delete_ok:
  assumes "rocks_inv kv view pending blake2b utf8 db"
  shows "\<exists>db'. rocks_head_delete kv db h = Inr db' \<and> rocks_inv kv view pending blake2b utf8 db'
    \<and> kv_spec utf8 (view db') = spec_head_delete (kv_spec utf8 (view db)) h"
proof -
  note inv = rocks_invD [OF assms]
  have "head_delete_txn kv h d = Inr (head_delete_ops (view db) h)" if "view d = view db" for d
    using that by (simp add: head_delete_txn_ops [OF inv(8)])
  from rocks_txn_ok [OF assms this head_delete_kv(1) [OF inv(3)]] head_delete_kv(2) [OF inv(3)]
  show ?thesis by (simp add: rocks_head_delete_def)
qed

text \<open>One turn of \<^verbatim>\<open>call_invalidate\<close> removes one call with its references.\<close>

definition spec_call_delete :: "spec \<Rightarrow> call \<Rightarrow> spec" where
  "spec_call_delete sp c = sp\<lparr>sp_calls := (sp_calls sp)(call_Name c := (sp_calls sp (call_Name c))(call_Args c := None))\<rparr>"

definition invalidate_ops :: "call \<Rightarrow> cid \<Rightarrow> write_op list" where
  "invalidate_ops c r = [OpDelete CallsFamily (call_key c)]
     @ del_refs (map (\<lambda>a. ref_key (CallName c, a)) (r # call_Args c))"

lemma invalidate_txn_ops:
  assumes "wf_name utf8 (CallName c)"
  shows "invalidate_txn (cbor (String (call_Name c))) (call_key c, cid_Bytes r) db = Inr (invalidate_ops c r)"
proof -
  have "drop (length (cbor (String (call_Name c)))) (call_key c) = concat (map cid_Bytes (call_Args c))"
    by (simp add: call_key_def del: cbor.simps)
  then show ?thesis
    using assms foldl_deleteRef [where n = "CallName c"] deleteRef_del_refs [of _ "CallName c" r]
    by (simp add: invalidate_txn_def load_args_concat wf_name_def invalidate_ops_def name_type_def
        name_key_def del_refs_def del: cbor.simps)
qed

lemma invalidate_kv:
  fixes c :: call
  assumes inv: "kv_inv blake2b utf8 m" and wf: "wf_name utf8 (CallName c)"
    and entry: "m CallsFamily (call_key c) = Some (cid_Bytes r)" and r: "wf_cid r"
  defines "m' \<equiv> apply_ops (invalidate_ops c r) m"
  shows "kv_inv blake2b utf8 m'" and "kv_spec utf8 m' = spec_call_delete (kv_spec utf8 m) c"
    and "m' CallsFamily = (m CallsFamily)(call_key c := None)"
proof -
  let ?n = "CallName c"
  have m': "m' = apply_ops (del_refs (map (\<lambda>a. ref_key (?n, a)) (r # call_Args c)))
      (m(CallsFamily := (m CallsFamily)(call_key c := None)))"
    by (simp add: m'_def invalidate_ops_def)
  show cf: "m' CallsFamily = (m CallsFamily)(call_key c := None)" by (simp add: m' apply_del_refs)
  have fams: "m' BlocksFamily = m BlocksFamily" "m' HeadsFamily = m HeadsFamily"
    by (simp_all add: m' apply_del_refs)
  show spec: "kv_spec utf8 m' = spec_call_delete (kv_spec utf8 m) c"
    using kv_spec_calls_update [OF wf cf fams] by (simp add: spec_call_delete_def)
  have awf: "\<forall>a \<in> set (call_Args c). wf_cid a" using wf by (simp add: wf_name_def list_all_iff)
  have now: "sp_calls (kv_spec utf8 m) (call_Name c) (call_Args c) = Some r"
    using wf entry r by (simp add: kv_spec_simps cid_fromBytes_wf)
  have "kv_refs_ok utf8 m'"
  proof (rule kv_refs_update [OF inv, where D = "{?n} \<times> set (r # call_Args c)" and A = "{}"])
    show "dom (m' RefsFamily) = (dom (m RefsFamily) - ref_key ` ({?n} \<times> set (r # call_Args c))) \<union> ref_key ` {}"
      unfolding m' dom_refs_update by (simp add: image_name_Times)
    show "uses_of (kv_spec utf8 m') = (uses_of (kv_spec utf8 m) - {?n} \<times> set (r # call_Args c)) \<union> {}"
      unfolding spec using now
      by (auto simp: uses_of_def spec_uses_def spec_call_delete_def split: name.splits if_splits)
  qed (use awf r wf in \<open>auto simp: wf_ref_def\<close>)
  then show "kv_inv blake2b utf8 m'"
    using inv by (auto simp: kv_inv_def kv_blocks_ok_def kv_calls_ok_def kv_heads_ok_def fams cf split: if_splits)
qed

end
