(* ===== verification/RocksDB_Lists.thy ===== *)
theory RocksDB_Lists
  imports RocksDB
begin

section \<open>RocksDBStore: iteration and the listing operations\<close>

text \<open>
  The operations of \<^verbatim>\<open>RocksDB.cpp\<close> that walk over the sorted keys of a column family: what
  the iterator loops of \<^verbatim>\<open>list_names_using\<close>, \<^verbatim>\<open>list_funcs\<close>, \<^verbatim>\<open>eachHead\<close>, \<^verbatim>\<open>eachCall\<close> and
  \<^verbatim>\<open>call_invalidate\<close> visit.
\<close>

subsection \<open>Iterating over the keys with a prefix\<close>

abbreviation has_prefix :: "bytes \<Rightarrow> bytes \<Rightarrow> bool" where
  "has_prefix P k \<equiv> take (length P) k = P"

lemma has_prefix_iff: "has_prefix P k \<longleftrightarrow> (\<exists>t. k = P @ t)"
  by (metis append_eq_conv_conj append_take_drop_id)

lemma prefix_not_less: "has_prefix P k \<Longrightarrow> \<not> k < P"
proof (induction P arbitrary: k)
  case (Cons p P)
  then obtain t where "k = p # t" and "has_prefix P t" by (cases k) auto
  with Cons.IH [of t] show ?case by simp
qed simp

lemma between_prefix: "P \<le> k \<Longrightarrow> k \<le> k' \<Longrightarrow> has_prefix P k' \<Longrightarrow> has_prefix P k"
proof (induction P arbitrary: k k')
  case (Cons p P)
  from Cons.prems(3) obtain t' where k': "k' = p # t'" "has_prefix P t'" by (cases k') auto
  from Cons.prems(1) obtain x t where k: "k = x # t" by (cases k) auto
  from Cons.prems(1,2) k k' have "x = p" "P \<le> t" "t \<le> t'" by auto
  with Cons.IH [of t t'] k k'(2) show ?case by simp
qed simp

lemma sorted_prefix_block:
  fixes es :: "(bytes \<times> bytes) list"
  assumes "sorted_wrt (<) (map fst es)" and "\<And>e. e \<in> set es \<Longrightarrow> P \<le> fst e"
  shows "takeWhile (\<lambda>e. has_prefix P (fst e)) es = filter (\<lambda>e. has_prefix P (fst e)) es"
    and "dropWhile (\<lambda>e. has_prefix P (fst e)) es = filter (\<lambda>e. \<not> has_prefix P (fst e)) es"
proof -
  have "takeWhile (\<lambda>e. has_prefix P (fst e)) es = filter (\<lambda>e. has_prefix P (fst e)) es \<and>
    dropWhile (\<lambda>e. has_prefix P (fst e)) es = filter (\<lambda>e. \<not> has_prefix P (fst e)) es"
    using assms
  proof (induction es)
    case (Cons e es)
    show ?case
    proof (cases "has_prefix P (fst e)")
      case True
      with Cons show ?thesis by (simp del: take_all_iff)
    next
      case False
      have "\<not> has_prefix P (fst e')" if "e' \<in> set es" for e'
      proof
        assume "has_prefix P (fst e')"
        moreover have "P \<le> fst e" by (rule Cons.prems(2)) simp
        moreover have "fst e \<le> fst e'" using Cons.prems(1) that by (simp add: less_imp_le)
        ultimately show False using between_prefix False by blast
      qed
      with False show ?thesis by (simp add: filter_empty_conv filter_id_conv)
    qed
  qed simp
  then show "takeWhile (\<lambda>e. has_prefix P (fst e)) es = filter (\<lambda>e. has_prefix P (fst e)) es"
    and "dropWhile (\<lambda>e. has_prefix P (fst e)) es = filter (\<lambda>e. \<not> has_prefix P (fst e)) es" by blast+
qed

lemma seek_filter:
  assumes "sorted_wrt (<) (map fst es)"
  shows "seek P es = filter (\<lambda>e. P \<le> fst e) es"
  using assms
proof (induction es)
  case (Cons e es)
  show ?case
  proof (cases "fst e < P")
    case True
    with Cons show ?thesis by (simp add: seek_def)
  next
    case False
    then have "P \<le> fst e" by simp
    with Cons.prems have "\<forall>e' \<in> set es. P \<le> fst e'" by (auto intro: order_trans less_imp_le)
    with False show ?thesis by (simp add: seek_def filter_id_conv)
  qed
qed (simp add: seek_def)

lemma takeWhile_seek:
  assumes "sorted_wrt (<) (map fst es)"
  shows "takeWhile (\<lambda>e. has_prefix P (fst e)) (seek P es) = filter (\<lambda>e. has_prefix P (fst e)) es"
proof -
  have "sorted_wrt (<) (map fst (filter (\<lambda>e. P \<le> fst e) es))"
    using assms by (simp add: sorted_wrt_map sorted_wrt_filter)
  then have "takeWhile (\<lambda>e. has_prefix P (fst e)) (seek P es)
      = filter (\<lambda>e. has_prefix P (fst e)) (filter (\<lambda>e. P \<le> fst e) es)"
    unfolding seek_filter [OF assms] by (rule sorted_prefix_block) simp
  also have "\<dots> = filter (\<lambda>e. has_prefix P (fst e)) es"
    unfolding filter_filter using prefix_not_less by (intro filter_cong) (auto simp: not_less)
  finally show ?thesis .
qed

lemma users_loop_sum_map:
  "users_loop utf8 P es = sum_map (\<lambda>e. name_of_ref utf8 (drop (length P) (fst e)))
     (takeWhile (\<lambda>e. has_prefix P (fst e)) es)"
  by (induction es) auto

lemma calls_loop_sum_map:
  "calls_loop f P es = sum_map (\<lambda>e. then_do (load_args (drop (length P) (fst e))) (\<lambda>args. Inr (make_call f args)))
     (takeWhile (\<lambda>e. has_prefix P (fst e)) es)"
  by (induction es) auto

subsection \<open>Lists\<close>

lemma rocksdb_iterate:
  assumes "rocksdb_ok kv view pending"
  obtains es where "rdb_Iterate kv db f = (es, Ok)" and "sorted_wrt (<) (map fst es)"
    and "map_of es = view db f" and "distinct (map fst es)"
proof -
  from assms obtain es where "rdb_Iterate kv db f = (es, Ok)" "sorted_wrt (<) (map fst es)" "map_of es = view db f"
    unfolding rocksdb_ok_def rocksdb_laws_def by blast
  moreover from this(2) have "distinct (map fst es)" by (simp add: strict_sorted_iff)
  ultimately show thesis by (rule that)
qed

lemma entry_iff: "distinct (map fst es) \<Longrightarrow> map_of es = m \<Longrightarrow> (k, d) \<in> set es \<longleftrightarrow> m k = Some d"
  by (metis map_of_eq_Some_iff)

lemma keys_iff: "map_of es = m \<Longrightarrow> fst ` set es = dom m"
  by (metis dom_map_of_conv_image_fst)

lemma ref_key_prefix:
  assumes "wf_cid ref" and "wf_ref utf8 (n, r)"
  shows "has_prefix (cid_Bytes ref) (ref_key (n, r)) \<longleftrightarrow> r = ref"
proof
  assume "has_prefix (cid_Bytes ref) (ref_key (n, r))"
  then obtain t where "cid_Bytes r @ name_type n # name_key n = cid_Bytes ref @ t"
    unfolding has_prefix_iff by (auto simp: ref_key_def)
  with assms show "r = ref"
    using cids.append_inject [of r ref "name_type n # name_key n" t] by (simp add: wf_ref_def)
qed (simp add: ref_key_def)

lemma rocks_users_ok:
  assumes "rocks_inv kv view pending blake2b utf8 db" and "wf_cid ref" and "\<not> isIdentity ref"
  shows "\<exists>ns. rocks_list_names_using kv utf8 db ref = Inr ns
    \<and> (\<forall>n. n \<in> set ns \<longleftrightarrow> spec_uses (kv_spec utf8 (view db)) n ref)"
proof -
  note inv = rocks_invD [OF assms(1)]
  let ?U = "uses_of (kv_spec utf8 (view db))" and ?P = "cid_Bytes ref"
  obtain es where es: "rdb_Iterate kv db RefsFamily = (es, Ok)" "sorted_wrt (<) (map fst es)"
    "map_of es = view db RefsFamily" using rocksdb_iterate [OF inv(1)] by blast
  have keys: "fst ` set es = ref_key ` ?U"
    using keys_iff [OF es(3)] inv(3) by (simp add: kv_inv_def kv_refs_ok_def)
  let ?name = "\<lambda>e. SOME n. name_of_ref utf8 (drop (length ?P) (fst e)) = Inr n"
  have step: "\<exists>n. fst e = ref_key (n, ref) \<and> (n, ref) \<in> ?U \<and> name_of_ref utf8 (drop (length ?P) (fst e)) = Inr n"
    if "e \<in> set (filter (\<lambda>e. has_prefix ?P (fst e)) es)" for e
  proof -
    from that have e: "e \<in> set es" "has_prefix ?P (fst e)" by simp_all
    from e(1) keys have "fst e \<in> ref_key ` ?U" by blast
    then obtain x where x: "fst e = ref_key x" "x \<in> ?U" by blast
    obtain n r where "x = (n, r)" by fastforce
    with e(2) x have nr: "fst e = ref_key (n, r)" "(n, r) \<in> ?U" "has_prefix ?P (fst e)" by simp_all
    from uses_wf [OF inv(3) nr(2)] have wf: "wf_ref utf8 (n, r)" .
    from nr(3) have "r = ref" unfolding nr(1) ref_key_prefix [OF assms(2) wf] .
    moreover from wf have "name_of_ref utf8 (name_type n # name_key n) = Inr n"
      by (intro name_of_ref_key) (simp add: wf_ref_def)
    ultimately show ?thesis using nr(1,2) by (intro exI [of _ n]) (simp add: ref_key_def)
  qed
  have "sum_map (\<lambda>e. name_of_ref utf8 (drop (length ?P) (fst e))) (filter (\<lambda>e. has_prefix ?P (fst e)) es)
      = Inr (map ?name (filter (\<lambda>e. has_prefix ?P (fst e)) es))"
  proof (rule sum_map_Inr)
    fix e
    assume "e \<in> set (filter (\<lambda>e. has_prefix ?P (fst e)) es)"
    from step [OF this] show "name_of_ref utf8 (drop (length ?P) (fst e)) = Inr (?name e)"
      by (metis (mono_tags, lifting) someI)
  qed
  then have "rocks_list_names_using kv utf8 db ref = Inr (map ?name (filter (\<lambda>e. has_prefix ?P (fst e)) es))"
    by (simp add: rocks_list_names_using_def Let_def es(1) users_loop_sum_map takeWhile_seek [OF es(2)])
  moreover have "n \<in> set (map ?name (filter (\<lambda>e. has_prefix ?P (fst e)) es)) \<longleftrightarrow> (n, ref) \<in> ?U" for n
  proof
    assume "n \<in> set (map ?name (filter (\<lambda>e. has_prefix ?P (fst e)) es))"
    then obtain e where e: "e \<in> set (filter (\<lambda>e. has_prefix ?P (fst e)) es)" "n = ?name e" by auto
    from step [OF e(1)] obtain n' where "(n', ref) \<in> ?U"
      "name_of_ref utf8 (drop (length ?P) (fst e)) = Inr n'" by blast
    with e(2) show "(n, ref) \<in> ?U" by simp
  next
    assume U: "(n, ref) \<in> ?U"
    then obtain e where "e \<in> set es" "fst e = ref_key (n, ref)" using keys by (metis imageE image_eqI)
    then have e: "e \<in> set (filter (\<lambda>e. has_prefix ?P (fst e)) es)" by (simp add: ref_key_def)
    from step [OF e] obtain n' where "fst e = ref_key (n', ref)" "(n', ref) \<in> ?U"
      "name_of_ref utf8 (drop (length ?P) (fst e)) = Inr n'" by blast
    moreover from this(1,2) \<open>fst e = ref_key (n, ref)\<close> U have "n' = n"
      using inj_onD [OF inj_on_ref_key [of utf8], of "(n', ref)" "(n, ref)"] uses_wf [OF inv(3)] by auto
    ultimately have "?name e = n" by simp
    with e show "n \<in> set (map ?name (filter (\<lambda>e. has_prefix ?P (fst e)) es))"
      by (metis (no_types, lifting) image_eqI list.set_map)
  qed
  moreover have "(n, ref) \<in> ?U \<longleftrightarrow> spec_uses (kv_spec utf8 (view db)) n ref" for n
    using assms(3) by (simp add: uses_of_def)
  ultimately show ?thesis by blast
qed

lemma head_key: "h = make_head (of_bytes k) \<longleftrightarrow> k = to_bytes (head_Name h)"
  by (auto simp: make_head_def)

lemma rocks_heads_ok:
  assumes "rocks_inv kv view pending blake2b utf8 db"
  shows "\<exists>hs. rocks_eachHead kv db = Inr hs \<and> distinct hs
    \<and> set hs = {h. sp_heads (kv_spec utf8 (view db)) (head_Name h) \<noteq> None}"
proof -
  note inv = rocks_invD [OF assms]
  obtain es where es: "rdb_Iterate kv db HeadsFamily = (es, Ok)" "map_of es = view db HeadsFamily"
    "distinct (map fst es)" using rocksdb_iterate [OF inv(1)] by blast
  let ?hs = "map (\<lambda>e. make_head (of_bytes (fst e))) es"
  have "map (\<lambda>h. to_bytes (head_Name h)) ?hs = map fst es" by (simp add: make_head_def comp_def)
  with es(3) have "distinct ?hs" by (metis distinct_map)
  moreover have "set ?hs = {h. sp_heads (kv_spec utf8 (view db)) (head_Name h) \<noteq> None}"
  proof -
    have "h \<in> set ?hs \<longleftrightarrow> to_bytes (head_Name h) \<in> fst ` set es" for h
      by (simp add: image_iff head_key) (metis to_bytes_inject)
    moreover have "to_bytes s \<in> dom (view db HeadsFamily) \<longleftrightarrow> sp_heads (kv_spec utf8 (view db)) s \<noteq> None" for s
      by (auto simp: kv_spec_simps split: option.splits elim: heads_value [OF inv(5)])
    ultimately show ?thesis unfolding keys_iff [OF es(2)] by blast
  qed
  ultimately show ?thesis by (simp add: rocks_eachHead_def es(1))
qed

lemma call_key_prefix:
  assumes "utf8 f" "length f < 2 ^ 64" and "wf_name utf8 (CallName c)"
  shows "has_prefix (cbor (String f)) (call_key c) \<longleftrightarrow> call_Name c = f"
proof
  assume "has_prefix (cbor (String f)) (call_key c)"
  then obtain t where "cbor (String (call_Name c)) @ concat (map cid_Bytes (call_Args c)) = cbor (String f) @ t"
    unfolding has_prefix_iff by (auto simp: call_key_def simp del: cbor.simps)
  from name_prefix_inject [of utf8, OF _ _ assms(1,2) this] assms(3) show "call_Name c = f" by (simp add: wf_name_def)
qed (simp add: call_key_def del: cbor.simps)

lemma call_key_args:
  "wf_name utf8 (CallName c) \<Longrightarrow>
   load_args (drop (length (cbor (String (call_Name c)))) (call_key c)) = Inr (call_Args c)"
  by (simp add: call_key_def wf_name_def load_args_concat del: cbor.simps)

text \<open>The calls behind the entries of the family "calls".\<close>

definition entry_call :: "(string \<Rightarrow> bool) \<Rightarrow> bytes \<times> bytes \<Rightarrow> call" where
  "entry_call utf8 e = (SOME c. wf_name utf8 (CallName c) \<and> fst e = call_key c)"

lemma entry_call:
  assumes "kv_calls_ok utf8 m" and "map_of es = m CallsFamily" and "distinct (map fst es)" and "e \<in> set es"
  shows "wf_name utf8 (CallName (entry_call utf8 e))" and "fst e = call_key (entry_call utf8 e)"
    and "\<exists>r. wf_cid r \<and> snd e = cid_Bytes r"
proof -
  have "m CallsFamily (fst e) = Some (snd e)"
    using entry_iff [OF assms(3,2), of "fst e" "snd e"] assms(4) by simp
  then obtain c r where c: "wf_name utf8 (CallName c) \<and> fst e = call_key c" and r: "wf_cid r" "snd e = cid_Bytes r"
    by (rule calls_value [OF assms(1)]) blast
  from someI [of "\<lambda>c. wf_name utf8 (CallName c) \<and> fst e = call_key c", OF c]
  show "wf_name utf8 (CallName (entry_call utf8 e))" and "fst e = call_key (entry_call utf8 e)"
    unfolding entry_call_def by blast+
  from r show "\<exists>r. wf_cid r \<and> snd e = cid_Bytes r" by blast
qed

lemma calls_defined:
  assumes "kv_calls_ok utf8 m" and "map_of es = m CallsFamily" and "distinct (map fst es)"
  shows "entry_call utf8 ` set es = {c. sp_calls (kv_spec utf8 m) (call_Name c) (call_Args c) \<noteq> None}"
proof -
  note ec = entry_call [OF assms]
  have "c \<in> entry_call utf8 ` set es \<longleftrightarrow> wf_name utf8 (CallName c) \<and> call_key c \<in> dom (m CallsFamily)" for c
  proof
    assume "c \<in> entry_call utf8 ` set es"
    then obtain e where e: "e \<in> set es" "c = entry_call utf8 e" by blast
    from ec(2) [OF e(1)] e have "call_key c \<in> fst ` set es" by (metis imageI)
    with ec(1) [OF e(1)] e(2) show "wf_name utf8 (CallName c) \<and> call_key c \<in> dom (m CallsFamily)"
      by (simp add: keys_iff [OF assms(2)])
  next
    assume c: "wf_name utf8 (CallName c) \<and> call_key c \<in> dom (m CallsFamily)"
    then obtain e where e: "e \<in> set es" "fst e = call_key c"
      unfolding keys_iff [OF assms(2), symmetric] by (metis imageE)
    from ec(1,2) [OF e(1)] e(2) c have "entry_call utf8 e = c" by (metis call_key_inject)
    with e(1) show "c \<in> entry_call utf8 ` set es" by blast
  qed
  moreover have "wf_name utf8 (CallName c) \<and> call_key c \<in> dom (m CallsFamily)
      \<longleftrightarrow> sp_calls (kv_spec utf8 m) (call_Name c) (call_Args c) \<noteq> None" for c
    by (auto simp: kv_spec_simps split: option.splits elim: calls_value [OF assms(1)])
  ultimately show ?thesis by blast
qed

lemma prefix_entries:
  assumes "kv_calls_ok utf8 m" and "map_of es = m CallsFamily" and "distinct (map fst es)"
    and "utf8 f" "length f < 2 ^ 64"
  shows "filter (\<lambda>e. has_prefix (cbor (String f)) (fst e)) es = filter (\<lambda>e. call_Name (entry_call utf8 e) = f) es"
proof (rule filter_cong)
  fix e
  assume "e \<in> set es"
  note ec = entry_call [OF assms(1-3) this]
  from call_key_prefix [of utf8, OF assms(4,5) ec(1)]
  show "has_prefix (cbor (String f)) (fst e) \<longleftrightarrow> call_Name (entry_call utf8 e) = f"
    unfolding ec(2) [symmetric] .
qed simp

lemma distinct_entry_calls:
  assumes "kv_calls_ok utf8 m" and "map_of es = m CallsFamily" and "distinct (map fst es)"
  shows "distinct (map (entry_call utf8) es)"
proof -
  have "map call_key (map (entry_call utf8) es) = map fst es"
    using entry_call(2) [OF assms] by simp
  then show ?thesis using assms(3) by (metis distinct_map)
qed

lemma rocks_calls_ok:
  assumes "rocks_inv kv view pending blake2b utf8 db" and "utf8 f" and "length f < 2 ^ 64"
  shows "\<exists>cs. rocks_eachCall kv utf8 db f = Inr cs \<and> distinct cs
    \<and> set cs = {c. call_Name c = f \<and> sp_calls (kv_spec utf8 (view db)) f (call_Args c) \<noteq> None}"
proof -
  note inv = rocks_invD [OF assms(1)]
  obtain es where es: "rdb_Iterate kv db CallsFamily = (es, Ok)" "sorted_wrt (<) (map fst es)"
    "map_of es = view db CallsFamily" "distinct (map fst es)" using rocksdb_iterate [OF inv(1)] by blast
  note ec = entry_call [OF inv(6) es(3,4)]
  let ?es = "filter (\<lambda>e. call_Name (entry_call utf8 e) = f) es" and ?P = "cbor (String f)"
  have "sum_map (\<lambda>e. then_do (load_args (drop (length ?P) (fst e))) (\<lambda>args. Inr (make_call f args))) ?es
      = Inr (map (entry_call utf8) ?es)"
  proof (rule sum_map_Inr)
    fix e
    assume "e \<in> set ?es"
    then have e: "e \<in> set es" "call_Name (entry_call utf8 e) = f" by simp_all
    from call_key_args [OF ec(1) [OF e(1)]] ec(2) [OF e(1)] e(2)
    have "load_args (drop (length ?P) (fst e)) = Inr (call_Args (entry_call utf8 e))" by simp
    moreover have "make_call f (call_Args (entry_call utf8 e)) = entry_call utf8 e"
      using e(2) make_call_fields [of "entry_call utf8 e"] by simp
    ultimately show "then_do (load_args (drop (length ?P) (fst e))) (\<lambda>args. Inr (make_call f args)) = Inr (entry_call utf8 e)"
      by simp
  qed
  then have "rocks_eachCall kv utf8 db f = Inr (map (entry_call utf8) ?es)"
    by (simp add: rocks_eachCall_def node_of_string_def assms(2) es(1) saveAsCBOR_cbor calls_loop_sum_map
        takeWhile_seek [OF es(2)] prefix_entries [of utf8, OF inv(6) es(3,4) assms(2,3)] Let_def del: cbor.simps)
  moreover have "distinct (map (entry_call utf8) ?es)"
    using distinct_entry_calls [OF inv(6) es(3,4)] by (simp add: distinct_map inj_on_def)
  moreover have "set (map (entry_call utf8) ?es)
      = {c. call_Name c = f \<and> sp_calls (kv_spec utf8 (view db)) f (call_Args c) \<noteq> None}"
    using calls_defined [OF inv(6) es(3,4)] by auto
  ultimately show ?thesis by blast
qed

text \<open>
  \<^verbatim>\<open>list_funcs\<close> skips all calls of a function by seeking the key after its prefix. The
  prefix never ends in a byte 0xff, which legal UTF-8 text does not have.
\<close>

lemma next_key_last:
  assumes "b \<noteq> 0xff"
  shows "next_key (Q @ [b]) = Q @ [b + 1]"
proof -
  have "b + 1 \<noteq> 0"
  proof
    assume "b + 1 = 0"
    then have "b = -1" by (simp add: eq_neg_iff_add_eq_0)
    with assms show False by simp
  qed
  then show ?thesis by (simp add: next_key_def)
qed

lemma less_next_key:
  fixes b :: u8
  assumes "b \<noteq> 0xff"
  shows "k < Q @ [b + 1] \<longleftrightarrow> k < Q @ [b] \<or> has_prefix (Q @ [b]) k"
proof (induction Q arbitrary: k)
  case Nil
  have "x < b + 1 \<longleftrightarrow> x < b \<or> x = b" for x :: u8
  proof -
    have "unat b \<noteq> 255" using assms by (simp add: word_unat_eq_iff)
    with unat_u8_less [of b] have "unat (b + 1) = unat b + 1"
      by (simp add: unat_word_ariths)
    then show ?thesis by (auto simp: word_less_nat_alt word_unat_eq_iff)
  qed
  then show ?case by (cases k) auto
next
  case (Cons q Q)
  then show ?case by (cases k) auto
qed

lemma name_prefix_last:
  assumes "utf8 s" and "\<forall>s. utf8 s \<longrightarrow> CHR 0xFF \<notin> set s"
  obtains Q b where "cbor (String s) = Q @ [b]" and "b \<noteq> 0xff"
proof (cases s rule: rev_cases)
  case Nil
  have "cbor (String []) = [] @ [0x60]" by code_simp
  with Nil show thesis by (intro that [of "[]" "0x60"]) simp_all
next
  case (snoc t c)
  from assms snoc have "c \<noteq> CHR 0xFF" by auto
  have "byte_of_char c \<noteq> 0xff"
  proof
    assume "byte_of_char c = 0xff"
    then have "byte_of_char c = byte_of_char CHR 0xFF" by (simp add: byte_of_char_def)
    then have "c = CHR 0xFF" by (metis char_of_byte_of_char)
    with \<open>c \<noteq> CHR 0xFF\<close> show False ..
  qed
  moreover have "cbor (String s) = (head_bytes 3 (of_nat (length s)) 0 @ to_bytes t) @ [byte_of_char c]"
    by (simp add: snoc to_bytes_def)
  ultimately show thesis by (rule that [rotated])
qed

lemma seek_next_key:
  assumes "sorted_wrt (<) (map fst (pre @ e # rest))" and "has_prefix P (fst e)"
    and "P = Q @ [b]" and "b \<noteq> 0xff"
  shows "seek (next_key P) (pre @ e # rest) = filter (\<lambda>x. \<not> has_prefix P (fst x)) (e # rest)"
proof -
  let ?es = "pre @ e # rest"
  have less: "k < next_key P \<longleftrightarrow> k < P \<or> has_prefix P k" for k
    unfolding assms(3) next_key_last [OF assms(4)] by (rule less_next_key [OF assms(4)])
  have "seek (next_key P) ?es = filter (\<lambda>x. \<not> (fst x < P \<or> has_prefix P (fst x))) ?es"
    unfolding seek_filter [OF assms(1)] less [symmetric] by (rule filter_cong) auto
  also have "\<dots> = filter (\<lambda>x. \<not> has_prefix P (fst x)) (e # rest)"
  proof -
    have "fst x < P \<or> has_prefix P (fst x)" if "x \<in> set pre" for x
    proof -
      have "fst x < fst e" using assms(1) that by (simp add: sorted_wrt_append)
      then show ?thesis using between_prefix [of P "fst x" "fst e"] assms(2) by (meson less_imp_le not_less)
    qed
    then have "filter (\<lambda>x. \<not> (fst x < P \<or> has_prefix P (fst x))) pre = []"
      by (simp add: filter_empty_conv)
    moreover have "\<not> fst x < P" if "x \<in> set (e # rest)" for x
    proof -
      have "fst e \<le> fst x" using assms(1) that by (auto simp: sorted_wrt_append less_imp_le)
      moreover have "P \<le> fst e" using prefix_not_less [OF assms(2)] by simp
      ultimately show ?thesis by simp
    qed
    then have "filter (\<lambda>x. \<not> (fst x < P \<or> has_prefix P (fst x))) (e # rest)
        = filter (\<lambda>x. \<not> has_prefix P (fst x)) (e # rest)"
      by (intro filter_cong) auto
    ultimately show ?thesis by simp
  qed
  finally show ?thesis .
qed

lemma image_others:
  "g e \<notin> g ` {x \<in> A. g x \<noteq> g e}"
  "e \<in> A \<Longrightarrow> insert (g e) (g ` {x \<in> A. g x \<noteq> g e}) = g ` A"
  by auto

lemma funcs_loop_ok:
  assumes "kv_calls_ok utf8 m" and "map_of es = m CallsFamily" and "distinct (map fst es)"
    and "sorted_wrt (<) (map fst es)" and "\<forall>s. utf8 s \<longrightarrow> CHR 0xFF \<notin> set s"
  shows "es = pre @ pos \<Longrightarrow>
    \<exists>fs. funcs_loop utf8 es pos acc = Some (Inr (acc @ fs)) \<and> distinct fs
       \<and> set fs = call_Name ` entry_call utf8 ` set pos"
proof (induction "length pos" arbitrary: pre pos acc rule: less_induct)
  case less
  show ?case
  proof (cases pos)
    case Nil
    then show ?thesis by (subst funcs_loop.simps) simp
  next
    case (Cons e rest)
    with less.prems have "e \<in> set es" by simp
    note ec = entry_call [OF assms(1-3) this]
    let ?c = "entry_call utf8 e"
    let ?f = "call_Name ?c" and ?P = "cbor (String (call_Name ?c))"
    from ec(1) have u: "utf8 ?f" "length ?f < 2 ^ 64" by (simp_all add: wf_name_def)
    have load: "loadFromCBORSequence utf8 (fst e) = Inr (String ?f, concat (map cid_Bytes (call_Args ?c)))"
      unfolding ec(2) call_key_def
      using loadFromCBORSequence_saved [of utf8 "String ?f" "concat (map cid_Bytes (call_Args ?c))"] u
      by (simp del: cbor.simps)
    have P: "has_prefix ?P (fst e)" unfolding ec(2) by (simp add: call_key_def del: cbor.simps)
    obtain Q b where Qb: "?P = Q @ [b]" "b \<noteq> 0xff" using name_prefix_last [OF u(1) assms(5)] .
    have tk: "take (length (fst e) - length (concat (map cid_Bytes (call_Args ?c)))) (fst e) = ?P"
      unfolding ec(2) call_key_def by (simp del: cbor.simps)
    define pos' where "pos' = filter (\<lambda>x. \<not> has_prefix ?P (fst x)) (e # rest)"
    have sk: "seek (next_key ?P) es = pos'"
      unfolding pos'_def using seek_next_key [OF _ P Qb] assms(4) less.prems Cons by simp
    then obtain pre' where suffix: "es = pre' @ pos'"
      unfolding seek_def by (metis takeWhile_dropWhile_id)
    have "length pos' < length pos"
      using P unfolding pos'_def Cons by (simp add: le_imp_less_Suc)
    from less.hyps [OF this suffix, of "acc @ [?f]"] obtain fs where fs: "funcs_loop utf8 es pos' (acc @ [?f]) = Some (Inr ((acc @ [?f]) @ fs))"
      "distinct fs" "set fs = call_Name ` entry_call utf8 ` set pos'" by blast
    have pc: "has_prefix ?P (fst x) \<longleftrightarrow> call_Name (entry_call utf8 x) = ?f" if "x \<in> set pos" for x
    proof -
      have "x \<in> set es" using that less.prems by simp
      note xc = entry_call [OF assms(1-3) this]
      from call_key_prefix [of utf8, OF u xc(1)] show ?thesis unfolding xc(2) [symmetric] .
    qed
    have step: "funcs_loop utf8 es pos acc = funcs_loop utf8 es pos' (acc @ [?f])"
      by (subst funcs_loop.simps) (simp add: Cons load cantFail_def as_string_def tk sk Let_def del: cbor.simps)
    have "set pos' = {x \<in> set pos. \<not> has_prefix ?P (fst x)}"
      unfolding pos'_def Cons set_filter by (rule refl)
    also have "\<dots> = {x \<in> set pos. call_Name (entry_call utf8 x) \<noteq> ?f}" using pc by blast
    finally have pos': "set pos' = {x \<in> set pos. call_Name (entry_call utf8 x) \<noteq> ?f}" .
    have "?f \<notin> set fs"
      unfolding fs(3) pos' image_image by (rule image_others(1) [of "\<lambda>x. call_Name (entry_call utf8 x)"])
    moreover have "e \<in> set pos" by (simp add: Cons)
    then have "insert ?f (set fs) = call_Name ` entry_call utf8 ` set pos"
      unfolding fs(3) pos' image_image by (rule image_others(2) [of _ _ "\<lambda>x. call_Name (entry_call utf8 x)"])
    ultimately have "distinct (?f # fs)" "set (?f # fs) = call_Name ` entry_call utf8 ` set pos"
      using fs(2) by simp_all
    with fs(1) step show ?thesis by (intro exI [of _ "?f # fs"]) simp
  qed
qed

lemma rocks_funcs_ok:
  assumes "rocks_inv kv view pending blake2b utf8 db"
  shows "\<exists>fs. rocks_list_funcs kv utf8 db = Inr fs \<and> distinct fs
    \<and> set fs = {f. \<exists>args. sp_calls (kv_spec utf8 (view db)) f args \<noteq> None}"
proof -
  note inv = rocks_invD [OF assms]
  obtain es where es: "rdb_Iterate kv db CallsFamily = (es, Ok)" "sorted_wrt (<) (map fst es)"
    "map_of es = view db CallsFamily" "distinct (map fst es)" using rocksdb_iterate [OF inv(1)] by blast
  from funcs_loop_ok [of utf8, OF inv(6) es(3,4,2) inv(7), of "[]" es "[]"]
  obtain fs where fs: "funcs_loop utf8 es es [] = Some (Inr fs)" "distinct fs"
    "set fs = call_Name ` entry_call utf8 ` set es" by auto
  have "call_Name ` {c :: call. sp_calls (kv_spec utf8 (view db)) (call_Name c) (call_Args c) \<noteq> None}
      = {f. \<exists>args. sp_calls (kv_spec utf8 (view db)) f args \<noteq> None}"
  proof (intro equalityI subsetI)
    fix f
    assume "f \<in> {f. \<exists>args. sp_calls (kv_spec utf8 (view db)) f args \<noteq> None}"
    then obtain args where "sp_calls (kv_spec utf8 (view db)) f args \<noteq> None" by blast
    then have "make_call f args \<in> {c :: call. sp_calls (kv_spec utf8 (view db)) (call_Name c) (call_Args c) \<noteq> None}"
      by (simp add: make_call_def)
    from imageI [OF this, of call_Name]
    show "f \<in> call_Name ` {c :: call. sp_calls (kv_spec utf8 (view db)) (call_Name c) (call_Args c) \<noteq> None}"
      by (simp add: make_call_def)
  next
    fix f
    assume "f \<in> call_Name ` {c :: call. sp_calls (kv_spec utf8 (view db)) (call_Name c) (call_Args c) \<noteq> None}"
    then show "f \<in> {f. \<exists>args. sp_calls (kv_spec utf8 (view db)) f args \<noteq> None}" by blast
  qed
  with fs show ?thesis
    unfolding calls_defined [OF inv(6) es(3,4)] by (auto simp: rocks_list_funcs_def es(1))
qed

lemma foldl_spec_call_delete:
  "foldl spec_call_delete sp cs = sp\<lparr>sp_calls := \<lambda>f args. if make_call f args \<in> set cs then None else sp_calls sp f args\<rparr>"
proof (induction cs arbitrary: sp)
  case (Cons c cs)
  have "make_call f args = c \<longleftrightarrow> f = call_Name c \<and> args = call_Args c" for f args
    by (auto simp: make_call_def)
  then show ?case
    unfolding foldl_Cons Cons.IH by (auto simp: spec_call_delete_def fun_eq_iff)
qed simp

lemma invalidate_loop_ok:
  assumes "more_es = [] \<or> \<not> has_prefix (cbor (String f)) (fst (hd more_es))"
  shows "rocks_inv kv view pending blake2b utf8 db \<Longrightarrow> distinct (map fst bl) \<Longrightarrow>
    (\<And>e. e \<in> set bl \<Longrightarrow> view db CallsFamily (fst e) = Some (snd e) \<and> wf_name utf8 (CallName (entry_call utf8 e))
       \<and> fst e = call_key (entry_call utf8 e) \<and> call_Name (entry_call utf8 e) = f \<and> (\<exists>r. wf_cid r \<and> snd e = cid_Bytes r)) \<Longrightarrow>
    \<exists>db'. invalidate_loop kv (cbor (String f)) (bl @ more_es) db = Inr db' \<and> rocks_inv kv view pending blake2b utf8 db'
       \<and> kv_spec utf8 (view db') = foldl spec_call_delete (kv_spec utf8 (view db)) (map (entry_call utf8) bl)"
proof (induction bl arbitrary: db)
  case Nil
  then show ?case using assms by (cases more_es) (auto simp del: cbor.simps)
next
  case (Cons e bl)
  note inv = rocks_invD [OF Cons.prems(1)]
  let ?c = "entry_call utf8 e" and ?P = "cbor (String f)"
  have "e \<in> set (e # bl)" by simp
  from Cons.prems(3) [OF this] obtain r where e: "view db CallsFamily (fst e) = Some (snd e)"
    "wf_name utf8 (CallName ?c)" "fst e = call_key ?c" "call_Name ?c = f" "wf_cid r" "snd e = cid_Bytes r"
    by blast
  have entry: "view db CallsFamily (call_key ?c) = Some (cid_Bytes r)" using e(1,3,6) by simp
  have "e = (call_key ?c, cid_Bytes r)" using e(3,6) by (metis prod.collapse)
  with invalidate_txn_ops [OF e(2), of r] e(4)
  have body: "invalidate_txn ?P e d = Inr (invalidate_ops ?c r)" for d by (metis)
  note ik = invalidate_kv [OF inv(3) e(2) entry e(5)]
  from run_txn_ok [of kv view pending db "invalidate_txn ?P e", OF inv(1) body] obtain db'
    where db': "run_txn kv (invalidate_txn ?P e) db = Inr db'" "view db' = apply_ops (invalidate_ops ?c r) (view db)"
    by blast
  have inv': "rocks_inv kv view pending blake2b utf8 db'"
    using ik(1) inv(1,2,7) by (simp add: rocks_inv_def db'(2))
  have keep: "view db' CallsFamily (fst x) = view db CallsFamily (fst x)" if "x \<in> set bl" for x
  proof -
    have "fst x \<noteq> call_key ?c" using Cons.prems(2) that e(3) by (auto simp: rev_image_eqI)
    then show ?thesis by (simp add: db'(2) ik(3))
  qed
  have "\<exists>db''. invalidate_loop kv ?P (bl @ more_es) db' = Inr db'' \<and> rocks_inv kv view pending blake2b utf8 db''
       \<and> kv_spec utf8 (view db'') = foldl spec_call_delete (kv_spec utf8 (view db')) (map (entry_call utf8) bl)"
  proof (rule Cons.IH [OF inv'])
    fix x
    assume x: "x \<in> set bl"
    then have "x \<in> set (e # bl)" by simp
    from Cons.prems(3) [OF this] keep [OF x]
    show "view db' CallsFamily (fst x) = Some (snd x) \<and> wf_name utf8 (CallName (entry_call utf8 x))
       \<and> fst x = call_key (entry_call utf8 x) \<and> call_Name (entry_call utf8 x) = f \<and> (\<exists>r. wf_cid r \<and> snd x = cid_Bytes r)"
      by metis
  qed (use Cons.prems(2) in simp)
  moreover have "has_prefix ?P (fst e)" using e(3,4) by (simp add: call_key_def del: cbor.simps)
  ultimately show ?case using db' ik(2) by (simp del: cbor.simps)
qed

lemma rocks_call_invalidate_ok:
  assumes "rocks_inv kv view pending blake2b utf8 db" and "utf8 f" and "length f < 2 ^ 64"
  shows "\<exists>db'. rocks_call_invalidate kv utf8 db f = Inr db' \<and> rocks_inv kv view pending blake2b utf8 db'
    \<and> kv_spec utf8 (view db') = spec_call_invalidate (kv_spec utf8 (view db)) f"
proof -
  note inv = rocks_invD [OF assms(1)]
  let ?P = "cbor (String f)" and ?sp = "kv_spec utf8 (view db)"
  obtain es where es: "rdb_Iterate kv db CallsFamily = (es, Ok)" "sorted_wrt (<) (map fst es)"
    "map_of es = view db CallsFamily" "distinct (map fst es)" using rocksdb_iterate [OF inv(1)] by blast
  let ?Q = "\<lambda>e. has_prefix ?P (fst e)"
  define bl where "bl = filter (\<lambda>e. call_Name (entry_call utf8 e) = f) es"
  define more_es where "more_es = dropWhile ?Q (seek ?P es)"
  have split: "seek ?P es = bl @ more_es"
    unfolding bl_def more_es_def prefix_entries [of utf8, OF inv(6) es(3,4) assms(2,3), symmetric] takeWhile_seek [OF es(2), symmetric]
    by (rule takeWhile_dropWhile_id [symmetric])
  have "more_es = [] \<or> \<not> ?Q (hd more_es)" unfolding more_es_def using hd_dropWhile by blast
  moreover have "distinct (map fst bl)" using es(4) by (simp add: bl_def distinct_map inj_on_def)
  moreover have "view db CallsFamily (fst e) = Some (snd e) \<and> wf_name utf8 (CallName (entry_call utf8 e))
       \<and> fst e = call_key (entry_call utf8 e) \<and> call_Name (entry_call utf8 e) = f \<and> (\<exists>r. wf_cid r \<and> snd e = cid_Bytes r)"
    if "e \<in> set bl" for e
  proof -
    from that have e: "e \<in> set es" "call_Name (entry_call utf8 e) = f" by (simp_all add: bl_def)
    have "view db CallsFamily (fst e) = Some (snd e)"
      using entry_iff [OF es(4,3), of "fst e" "snd e"] e(1) by simp
    with e entry_call [OF inv(6) es(3,4) e(1)] show ?thesis by blast
  qed
  ultimately obtain db' where db': "invalidate_loop kv ?P (bl @ more_es) db = Inr db'"
      "rocks_inv kv view pending blake2b utf8 db'" "kv_spec utf8 (view db') = foldl spec_call_delete ?sp (map (entry_call utf8) bl)"
    using invalidate_loop_ok [OF _ assms(1)] by blast
  have "set (map (entry_call utf8) bl) = {c. call_Name c = f \<and> sp_calls ?sp (call_Name c) (call_Args c) \<noteq> None}"
    using calls_defined [OF inv(6) es(3,4)] by (auto simp: bl_def)
  then have "make_call g args \<in> set (map (entry_call utf8) bl) \<longleftrightarrow> g = f \<and> sp_calls ?sp g args \<noteq> None" for g args
    by (auto simp: make_call_def)
  then have "foldl spec_call_delete ?sp (map (entry_call utf8) bl) = spec_call_invalidate ?sp f"
    by (auto simp: foldl_spec_call_delete spec_call_invalidate_def fun_eq_iff simp del: set_map)
  with db' show ?thesis
    by (simp add: rocks_call_invalidate_def node_of_string_def assms(2) saveAsCBOR_cbor es(1) split Let_def del: cbor.simps)
qed

end
