(* ===== verification/RocksDB_Store.thy ===== *)
theory RocksDB_Store
  imports RocksDB_Lists
begin

section \<open>RocksDBStore as a store\<close>

text \<open>
  The contract of a store, interpreted on the operations of \<^verbatim>\<open>RocksDB.cpp\<close>; a database kept
  as a log of writes that satisfies what the code relies on; and the properties of the
  RocksDB store.
\<close>

subsection \<open>RocksDBStore implements the contract of a store\<close>

lemma rocks_store_simps [simp]:
  "st_getOptional (rocks_store kv blake2b utf8) = rocks_getOptional kv utf8"
  "st_resolveOptional (rocks_store kv blake2b utf8) = rocks_resolveOptional kv utf8"
  "st_put (rocks_store kv blake2b utf8) = rocks_put kv blake2b"
  "st_set (rocks_store kv blake2b utf8) = rocks_set kv utf8"
  "st_list_names_using (rocks_store kv blake2b utf8) = rocks_list_names_using kv utf8"
  "st_list_funcs (rocks_store kv blake2b utf8) = rocks_list_funcs kv utf8"
  "st_eachHead (rocks_store kv blake2b utf8) = rocks_eachHead kv"
  "st_eachCall (rocks_store kv blake2b utf8) = rocks_eachCall kv utf8"
  "st_head_delete (rocks_store kv blake2b utf8) = rocks_head_delete kv"
  "st_call_invalidate (rocks_store kv blake2b utf8) = rocks_call_invalidate kv utf8"
  by (simp_all add: rocks_store_def)

interpretation rocks: store_impl "rocks_store kv blake2b utf8" blake2b utf8
  "rocks_inv kv view pending blake2b utf8" "\<lambda>db. kv_spec utf8 (view db)"
  for kv :: "'db rocksdb" and view pending blake2b utf8
proof (unfold_locales, unfold rocks_store_simps, goal_cases)
  case (1 s bs)
  then show ?case by (simp add: rocks_invD(2))
next
  case (2 s c)
  then show ?case by (rule rocks_get)
next
  case (3 s n)
  then show ?case by (rule rocks_resolve)
next
  case (4 s v)
  then show ?case by (rule rocks_put_ok)
next
  case (5 s n ref)
  then show ?case by (rule rocks_set_ok)
next
  case (6 s c ref)
  show ?case by (simp add: rocks_set_def run_txn_def txn_loop.simps set_txn_def)
next
  case (7 s ref)
  then show ?case by (rule rocks_users_ok)
next
  case (8 s)
  then show ?case by (rule rocks_funcs_ok)
next
  case (9 s)
  then show ?case by (rule rocks_heads_ok)
next
  case (10 s f)
  then show ?case by (rule rocks_calls_ok)
next
  case (11 s h)
  then show ?case by (rule rocks_head_delete_ok)
next
  case (12 s f)
  then show ?case by (rule rocks_call_invalidate_ok)
qed

text \<open>
  A database that keeps its log of writes and refuses a number of commits first; it shows
  that the assumptions about RocksDB can hold.
\<close>

type_synonym log_db = "nat \<times> write_op list"

definition log_view :: "log_db \<Rightarrow> kv_view" where
  "log_view db = apply_ops (snd db) (\<lambda>_ _. None)"

fun op_key :: "write_op \<Rightarrow> bytes" where
  "op_key (OpPut f k v) = k"
| "op_key (OpDelete f k) = k"

definition log_entries :: "log_db \<Rightarrow> family \<Rightarrow> (bytes \<times> bytes) list" where
  "log_entries db f =
     map (\<lambda>k. (k, the (log_view db f k)))
       (filter (\<lambda>k. log_view db f k \<noteq> None) (sort (remdups (map op_key (snd db)))))"

definition log_get :: "log_db \<Rightarrow> family \<Rightarrow> bytes \<Rightarrow> status \<times> bytes" where
  "log_get db f k = (case log_view db f k of None \<Rightarrow> (NotFound, []) | Some v \<Rightarrow> (Ok, v))"

definition log_rocksdb :: "log_db rocksdb" where
  "log_rocksdb = \<lparr>
     rdb_Open = \<lambda>path create. (Ok, (1, [])),
     rdb_Get = log_get,
     rdb_GetForUpdate = log_get,
     rdb_Write = \<lambda>db ops. (Ok, (fst db, snd db @ ops)),
     rdb_Commit = \<lambda>db ops. (if fst db = 0 then (Ok, (0, snd db @ ops)) else (Busy, (fst db - 1, snd db))),
     rdb_Iterate = \<lambda>db f. (log_entries db f, Ok)\<rparr>"

lemma apply_ops_keys:
  assumes "apply_ops ops m f k \<noteq> m f k"
  shows "k \<in> op_key ` set ops"
  using assms
proof (induction ops arbitrary: m)
  case (Cons op ops)
  show ?case
  proof (cases "apply_ops ops (apply_op op m) f k = apply_op op m f k")
    case True
    with Cons.prems have "apply_op op m f k \<noteq> m f k" by simp
    then have "k = op_key op" by (cases op) (auto split: if_splits)
    then show ?thesis by simp
  next
    case False
    from Cons.IH [OF this] show ?thesis by simp
  qed
qed simp

lemma log_rocksdb_ok: "rocksdb_ok log_rocksdb log_view fst"
proof -
  have "sorted_wrt (<) (map fst (log_entries db f)) \<and> map_of (log_entries db f) = log_view db f" for db f
  proof
    let ?ks = "filter (\<lambda>k. log_view db f k \<noteq> None) (sort (remdups (map op_key (snd db))))"
    have "sorted ?ks \<and> distinct ?ks" by (simp add: sorted_filter [of "\<lambda>x. x", simplified])
    then show "sorted_wrt (<) (map fst (log_entries db f))"
      by (simp add: log_entries_def comp_def strict_sorted_iff)
    have "log_view db f k = None" if "k \<notin> set ?ks" for k
    proof (rule ccontr)
      assume some: "log_view db f k \<noteq> None"
      then have "k \<in> op_key ` set (snd db)"
        unfolding log_view_def by (rule apply_ops_keys)
      with some that show False by simp
    qed
    then have none: "k \<notin> set ?ks \<longrightarrow> log_view db f k = None" for k by blast
    show "map_of (log_entries db f) = log_view db f"
    proof (rule ext)
      fix k
      show "map_of (log_entries db f) k = log_view db f k"
      proof (cases "k \<in> set ?ks")
        case True
        then have "log_view db f k \<noteq> None" by simp
        with True show ?thesis
          unfolding log_entries_def map_of_map_restrict restrict_map_def by (simp del: set_filter)
      next
        case False
        with none [of k] show ?thesis
          unfolding log_entries_def map_of_map_restrict restrict_map_def by (simp del: set_filter)
      qed
    qed
  qed
  then show ?thesis
    unfolding rocksdb_ok_def rocksdb_laws_def no_contention_def log_rocksdb_def
    by (simp add: log_get_def log_view_def)
qed

definition plain_utf8 :: "string \<Rightarrow> bool" where
  "plain_utf8 s \<longleftrightarrow> CHR 0xFF \<notin> set s"

lemma log_rocks_inv: "rocks_inv log_rocksdb log_view fst (\<lambda>_. replicate 32 0) plain_utf8 (n, [])"
proof -
  have "uses_of (kv_spec plain_utf8 (log_view (n, []))) = {}"
    by (auto simp: uses_of_def spec_uses_def kv_spec_def log_view_def split: name.splits)
  then show ?thesis
    by (simp add: rocks_inv_def log_rocksdb_ok plain_utf8_def kv_inv_def kv_blocks_ok_def kv_heads_ok_def
        kv_calls_ok_def kv_refs_ok_def log_view_def)
qed

subsection \<open>Properties\<close>

text \<open>
  C31: Every operation of the RocksDB store that changes the database returns and does to the
  blocks, heads and calls what the operation promises, and keeps the invariant, in
  particular that the family of references has exactly one entry per reference, also when a
  head or a call is set again, deleted or invalidated.
\<close>

theorem rocks_refines:
  assumes "rocks_inv kv view pending blake2b utf8 db"
  defines "sp \<equiv> kv_spec utf8 (view db)"
  shows "(\<forall>v. storable utf8 v \<and> no_collision blake2b sp v \<longrightarrow>
       (\<exists>db'. rocks_put kv blake2b db v = Inr (fst (spec_put blake2b sp v), db')
          \<and> rocks_inv kv view pending blake2b utf8 db' \<and> kv_spec utf8 (view db') = snd (spec_put blake2b sp v)))
   \<and> (\<forall>n ref. wf_name utf8 n \<and> proper_name n \<and> wf_cid ref \<longrightarrow>
       (\<exists>db'. rocks_set kv utf8 db n ref = Inr db'
          \<and> rocks_inv kv view pending blake2b utf8 db' \<and> kv_spec utf8 (view db') = spec_set sp n ref))
   \<and> (\<forall>h. \<exists>db'. rocks_head_delete kv db h = Inr db'
          \<and> rocks_inv kv view pending blake2b utf8 db' \<and> kv_spec utf8 (view db') = spec_head_delete sp h)
   \<and> (\<forall>f. utf8 f \<and> length f < 2 ^ 64 \<longrightarrow>
       (\<exists>db'. rocks_call_invalidate kv utf8 db f = Inr db'
          \<and> rocks_inv kv view pending blake2b utf8 db' \<and> kv_spec utf8 (view db') = spec_call_invalidate sp f))"
  unfolding sp_def
  using rocks_put_ok [OF assms(1)] rocks_set_ok [OF assms(1)] rocks_head_delete_ok [OF assms(1)]
    rocks_call_invalidate_ok [OF assms(1)]
  by blast

theorem rocks_refines_witness:
  "\<exists>db'. rocks_set log_rocksdb plain_utf8 (2, []) (HeadName (make_head ''h'')) (make_cid Raw Identity [7]) = Inr db'
     \<and> rocks_inv log_rocksdb log_view fst (\<lambda>_. replicate 32 0) plain_utf8 db'"
proof -
  have "wf_cid (make_cid Raw Identity [7])"
    by (simp add: wf_make_cid content_supported_def hash_supported_def)
  moreover have "wf_name plain_utf8 (HeadName (make_head ''h''))" "proper_name (HeadName (make_head ''h''))"
    by (simp_all add: wf_name_def proper_name_def)
  ultimately show ?thesis using rocks_refines [OF log_rocks_inv [of 2]] by blast
qed

text \<open>
  C32: Every read of the RocksDB store answers from the blocks, heads and calls: \<^verbatim>\<open>get\<close> and
  \<^verbatim>\<open>resolve\<close> give what is stored, \<^verbatim>\<open>list_names_using\<close> lists exactly the users of a node,
  \<^verbatim>\<open>list_funcs\<close> exactly the functions with a stored call, each once, and the iterations
  visit every head and every call of a function exactly once.
\<close>

theorem rocks_reads_refine:
  assumes "rocks_inv kv view pending blake2b utf8 db"
  defines "sp \<equiv> kv_spec utf8 (view db)"
  shows "(\<forall>c. wf_cid c \<longrightarrow> rocks_getOptional kv utf8 db c = spec_get utf8 sp c)
   \<and> (\<forall>n. wf_name utf8 n \<longrightarrow> rocks_resolveOptional kv utf8 db n = Inr (spec_resolve sp n))
   \<and> (\<forall>ref. wf_cid ref \<and> \<not> isIdentity ref \<longrightarrow>
       (\<exists>ns. rocks_list_names_using kv utf8 db ref = Inr ns \<and> (\<forall>n. n \<in> set ns \<longleftrightarrow> spec_uses sp n ref)))
   \<and> (\<exists>fs. rocks_list_funcs kv utf8 db = Inr fs \<and> distinct fs \<and> set fs = {f. \<exists>args. sp_calls sp f args \<noteq> None})
   \<and> (\<exists>hs. rocks_eachHead kv db = Inr hs \<and> distinct hs \<and> set hs = {h. sp_heads sp (head_Name h) \<noteq> None})
   \<and> (\<forall>f. utf8 f \<and> length f < 2 ^ 64 \<longrightarrow>
       (\<exists>cs. rocks_eachCall kv utf8 db f = Inr cs \<and> distinct cs
          \<and> set cs = {c. call_Name c = f \<and> sp_calls sp f (call_Args c) \<noteq> None}))"
proof (intro conjI allI impI, goal_cases)
  case (1 c)
  then show ?case unfolding sp_def by (rule rocks_get [OF assms(1)])
next
  case (2 n)
  then show ?case unfolding sp_def by (rule rocks_resolve [OF assms(1)])
next
  case (3 ref)
  then show ?case unfolding sp_def using rocks_users_ok [OF assms(1)] by blast
next
  case 4
  show ?case unfolding sp_def by (rule rocks_funcs_ok [OF assms(1)])
next
  case 5
  show ?case unfolding sp_def by (rule rocks_heads_ok [OF assms(1)])
next
  case (6 f)
  then show ?case unfolding sp_def using rocks_calls_ok [OF assms(1)] by blast
qed

theorem rocks_reads_refine_witness:
  "\<exists>fs. rocks_list_funcs log_rocksdb plain_utf8 (0, []) = Inr fs \<and> fs = []"
proof -
  from rocks_reads_refine [OF log_rocks_inv [of 0], THEN conjunct2, THEN conjunct2, THEN conjunct2, THEN conjunct1]
  obtain fs where fs: "rocks_list_funcs log_rocksdb plain_utf8 (0, []) = Inr fs"
    "set fs = {f. \<exists>args. sp_calls (kv_spec plain_utf8 (log_view (0, []))) f args \<noteq> None}"
    by blast
  then have "set fs = {}" by (simp add: kv_spec_def log_view_def)
  with fs(1) show ?thesis by simp
qed

text \<open>
  C33: What is put into the RocksDB store can be read back under the returned identifier,
  through the database or through the identity identifier of a small node.
\<close>

theorem rocks_put_get:
  assumes "rocks_inv kv view pending blake2b utf8 db" and "storable utf8 v"
    and "no_collision blake2b (kv_spec utf8 (view db)) v"
  shows "\<exists>db'. rocks_put kv blake2b db v = Inr (fst (saveAsIPLD blake2b False v), db')
    \<and> rocks_inv kv view pending blake2b utf8 db'
    \<and> rocks_getOptional kv utf8 db' (fst (saveAsIPLD blake2b False v)) = Inr (Some (cbor_norm v))"
  using rocks.put_get [OF assms] by simp

theorem rocks_put_get_witness:
  "\<exists>db'. rocks_put log_rocksdb (\<lambda>_. replicate 32 0) (0, []) (Bytes (replicate 40 1))
       = Inr (fst (saveAsIPLD (\<lambda>_. replicate 32 0) False (Bytes (replicate 40 1))), db')
    \<and> rocks_getOptional log_rocksdb plain_utf8 db'
        (fst (saveAsIPLD (\<lambda>_. replicate 32 0) False (Bytes (replicate 40 1)))) = Inr (Some (Bytes (replicate 40 1)))"
proof -
  have "storable plain_utf8 (Bytes (replicate 40 1))" by (simp add: storable_def content_size_def)
  moreover have "no_collision (\<lambda>_. replicate 32 0) (kv_spec plain_utf8 (log_view (0, []))) (Bytes (replicate 40 1))"
    by (simp add: no_collision_def kv_spec_def log_view_def Let_def)
  ultimately obtain db' where
    "rocks_put log_rocksdb (\<lambda>_. replicate 32 0) (0, []) (Bytes (replicate 40 1))
       = Inr (fst (saveAsIPLD (\<lambda>_. replicate 32 0) False (Bytes (replicate 40 1))), db')"
    "rocks_getOptional log_rocksdb plain_utf8 db'
        (fst (saveAsIPLD (\<lambda>_. replicate 32 0) False (Bytes (replicate 40 1))))
       = Inr (Some (cbor_norm (Bytes (replicate 40 1))))"
    using rocks_put_get [OF log_rocks_inv [of 0]] by blast
  then show ?thesis by (intro exI conjI) (assumption, simp only: cbor_norm.simps)
qed

subsection \<open>Other clients\<close>

lemma run_txn_contended:
  assumes "rocksdb_laws kv view" and "\<And>d. body d = Inr (ops (view d))"
  shows "run_txn kv body db = Inr db' \<longleftrightarrow> (\<exists>d. (refused kv body)\<^sup>*\<^sup>* db d \<and> rdb_Commit kv d (ops (view d)) = (Ok, db'))"
    and "run_txn kv body db = Inl e \<Longrightarrow> e = Diverges \<and> (\<exists>d. ((refused kv body) ^^ k) db d)"
proof -
  have last: "last_attempt kv body d r \<longleftrightarrow> (\<exists>d'. r = Inr (Ok, d') \<and> rdb_Commit kv d (ops (view d)) = (Ok, d'))" for d r
  proof -
    obtain st d' where "rdb_Commit kv d (ops (view d)) = (st, d')" "st = Ok \<or> st = Busy \<or> st = TryAgain"
      using rocksdb_commit [OF assms(1)] by metis
    then show ?thesis by (auto simp: last_attempt_def assms(2))
  qed
  have some: "txn_loop kv body db = Some r \<longleftrightarrow>
      (\<exists>d d'. (refused kv body)\<^sup>*\<^sup>* db d \<and> r = Inr (Ok, d') \<and> rdb_Commit kv d (ops (view d)) = (Ok, d'))" for r
    unfolding txn_loop_Some last by blast
  show "run_txn kv body db = Inr db' \<longleftrightarrow> (\<exists>d. (refused kv body)\<^sup>*\<^sup>* db d \<and> rdb_Commit kv d (ops (view d)) = (Ok, db'))"
  proof (cases "txn_loop kv body db")
    case None
    then show ?thesis using some [of "Inr (Ok, db')"] by (auto simp: run_txn_def)
  next
    case (Some r)
    with some [of r] obtain d' where d': "r = Inr (Ok, d')" by blast
    show ?thesis using some [of "Inr (Ok, db')"] Some by (auto simp: run_txn_def d')
  qed
  show "e = Diverges \<and> (\<exists>d. ((refused kv body) ^^ k) db d)" if "run_txn kv body db = Inl e"
  proof (cases "txn_loop kv body db")
    case None
    then show ?thesis using that txn_loop_None [of kv body db k] by (auto simp: run_txn_def)
  next
    case (Some r)
    with some [of r] obtain d' where "r = Inr (Ok, d')" by blast
    then show ?thesis using that Some by (simp add: run_txn_def)
  qed
qed

lemma set_ops_kv:
  assumes "rocksdb_laws kv view" and "wf_name utf8 n" and "proper_name n" and "wf_cid ref"
  obtains ops where "\<And>d. set_txn kv utf8 n ref d = Inr (ops (view d))"
    "\<And>m. kv_inv blake2b utf8 m \<Longrightarrow> kv_inv blake2b utf8 (apply_ops (ops m) m)
        \<and> kv_spec utf8 (apply_ops (ops m) m) = spec_set (kv_spec utf8 m) n ref"
proof (cases n)
  case (HeadName h)
  show thesis
    by (rule that [of "\<lambda>m. set_head_ops m h ref"])
      (simp_all add: HeadName set_txn_head [OF assms(1)] set_head_kv [OF _ assms(4)])
next
  case (CallName c)
  have u: "utf8 (call_Name c)" and wf: "wf_name utf8 (CallName c)" using assms(2) CallName by (simp_all add: wf_name_def)
  show thesis
    by (rule that [of "\<lambda>m. set_call_ops m c ref"])
      (simp_all add: CallName set_txn_call [of kv view utf8, OF assms(1) u] set_call_kv [OF _ assms(4) wf])
qed (use assms(3) in \<open>simp add: proper_name_def\<close>)

text \<open>
  C34: \<^verbatim>\<open>set\<close> while other clients write. Of RocksDB only the documented laws are used, and a
  refused commit may find any change of the database, as long as the others keep the format
  of the store. \<^verbatim>\<open>set\<close> returns if and only if one of its attempts is accepted; it has then
  done exactly the abstract operation on the contents the others had left at that moment
  (the value and the references to remove are read afresh in every attempt, so the reference
  index is right again); and the only way not to return is to be refused for ever.
\<close>

theorem set_under_contention:
  assumes "rocksdb_laws kv view" and "wf_name utf8 n" and "proper_name n" and "wf_cid ref"
    and "\<forall>d. (refused kv (set_txn kv utf8 n ref))\<^sup>*\<^sup>* db d \<longrightarrow> kv_inv blake2b utf8 (view d)"
  shows "(\<forall>db'. rocks_set kv utf8 db n ref = Inr db' \<longleftrightarrow>
            (\<exists>d ops. (refused kv (set_txn kv utf8 n ref))\<^sup>*\<^sup>* db d
               \<and> set_txn kv utf8 n ref d = Inr ops \<and> rdb_Commit kv d ops = (Ok, db')))
       \<and> (\<forall>d ops db'. (refused kv (set_txn kv utf8 n ref))\<^sup>*\<^sup>* db d
              \<and> set_txn kv utf8 n ref d = Inr ops \<and> rdb_Commit kv d ops = (Ok, db') \<longrightarrow>
            kv_inv blake2b utf8 (view db') \<and> kv_spec utf8 (view db') = spec_set (kv_spec utf8 (view d)) n ref)
       \<and> (\<forall>e. rocks_set kv utf8 db n ref = Inl e \<longrightarrow>
            e = Diverges \<and> (\<forall>k. \<exists>d. (refused kv (set_txn kv utf8 n ref) ^^ k) db d))"
proof (intro conjI allI impI)
  obtain ops where ops: "\<And>d. set_txn kv utf8 n ref d = Inr (ops (view d))"
    and kv: "\<And>m. kv_inv blake2b utf8 m \<Longrightarrow> kv_inv blake2b utf8 (apply_ops (ops m) m)
        \<and> kv_spec utf8 (apply_ops (ops m) m) = spec_set (kv_spec utf8 m) n ref"
    using set_ops_kv [OF assms(1-4)] by blast
  note run = run_txn_contended [of kv view "set_txn kv utf8 n ref" ops db, OF assms(1) ops]
  show "rocks_set kv utf8 db n ref = Inr db' \<longleftrightarrow> (\<exists>d ops. (refused kv (set_txn kv utf8 n ref))\<^sup>*\<^sup>* db d
      \<and> set_txn kv utf8 n ref d = Inr ops \<and> rdb_Commit kv d ops = (Ok, db'))" for db'
    unfolding rocks_set_def run(1) ops by simp
  show "e = Diverges" and "\<exists>d. (refused kv (set_txn kv utf8 n ref) ^^ k) db d"
    if "rocks_set kv utf8 db n ref = Inl e" for e k
    using run(2) [of e k] that by (simp_all add: rocks_set_def)
  fix d os db'
  assume d: "(refused kv (set_txn kv utf8 n ref))\<^sup>*\<^sup>* db d
      \<and> set_txn kv utf8 n ref d = Inr os \<and> rdb_Commit kv d os = (Ok, db')"
  then have "rdb_Commit kv d (ops (view d)) = (Ok, db')" by (simp add: ops)
  then have view: "view db' = apply_ops (ops (view d)) (view d)"
    using rocksdb_commit [OF assms(1), of d "ops (view d)"] by auto
  have "kv_inv blake2b utf8 (view d)" using assms(5) d by blast
  from kv [OF this] show "kv_inv blake2b utf8 (view db')"
    and "kv_spec utf8 (view db') = spec_set (kv_spec utf8 (view d)) n ref"
    by (simp_all add: view)
qed

text \<open>A database in which another client sets a head whenever a commit is refused.\<close>

definition empty_cid :: cid where
  "empty_cid = make_cid Raw Identity []"

definition contended_rocksdb :: "log_db rocksdb" where
  "contended_rocksdb = log_rocksdb\<lparr>rdb_Commit := \<lambda>db ops.
     if fst db = 0 then (Ok, (0, snd db @ ops))
     else (Busy, (fst db - 1, snd db @ [OpPut HeadsFamily (to_bytes ''b'') (cid_Bytes empty_cid)]))\<rparr>"

lemma contended_laws: "rocksdb_laws contended_rocksdb log_view"
  using rocksdb_okD(1) [OF log_rocksdb_ok]
  by (auto simp: rocksdb_laws_def contended_rocksdb_def log_view_def apply_ops_def)

theorem set_under_contention_witness:
  "\<exists>db'. rocks_set contended_rocksdb plain_utf8 (1, []) (HeadName (make_head ''a'')) empty_cid = Inr db'
     \<and> sp_heads (kv_spec plain_utf8 (log_view db')) ''a'' = Some empty_cid
     \<and> sp_heads (kv_spec plain_utf8 (log_view db')) ''b'' = Some empty_cid"
proof -
  let ?kv = contended_rocksdb and ?n = "HeadName (make_head ''a'')"
  let ?R = "refused ?kv (set_txn ?kv plain_utf8 ?n empty_cid)"
  let ?op = "OpPut HeadsFamily (to_bytes ''b'') (cid_Bytes empty_cid)"
  let ?h = "\<lambda>_ :: bytes. replicate 32 0 :: bytes"
  have wf: "wf_name plain_utf8 ?n" "proper_name ?n" "wf_cid empty_cid" "isIdentity empty_cid"
    by (simp_all add: wf_name_def proper_name_def empty_cid_def wf_make_cid hash_supported_def content_supported_def
        isIdentity_def)
  have txn: "set_txn ?kv plain_utf8 ?n empty_cid d = Inr (set_head_ops (log_view d) (make_head ''a'') empty_cid)" for d
    by (rule set_txn_head [OF contended_laws])
  have commit: "rdb_Commit ?kv d ops = (if fst d = 0 then (Ok, (0, snd d @ ops)) else (Busy, (fst d - 1, snd d @ [?op])))" for d ops
    by (simp add: contended_rocksdb_def)
  have step: "?R d d' \<longleftrightarrow> fst d \<noteq> 0 \<and> d' = (fst d - 1, snd d @ [?op])" for d d'
    by (auto simp: refused_def txn commit)
  have reach: "d = (1, []) \<or> d = (0, [?op])" if "?R\<^sup>*\<^sup>* (1, []) d" for d
    using that by (induction rule: rtranclp_induct) (auto simp: step)
  have "kv_inv ?h plain_utf8 (log_view (1, []))" using log_rocks_inv by (simp add: rocks_inv_def)
  moreover from set_head_kv [OF this wf(3), of "make_head ''b''"]
  have b: "kv_inv ?h plain_utf8 (log_view (0, [?op]))
      \<and> kv_spec plain_utf8 (log_view (0, [?op])) = spec_set (kv_spec plain_utf8 (log_view (1, []))) (HeadName (make_head ''b'')) empty_cid"
    using wf(4) by (simp add: log_view_def set_head_ops_def real_def put_refs_def make_head_def)
  ultimately have inv: "\<forall>d. ?R\<^sup>*\<^sup>* (1, []) d \<longrightarrow> kv_inv ?h plain_utf8 (log_view d)" using reach by blast
  have at: "?R\<^sup>*\<^sup>* (1, []) (0, [?op])" by (rule r_into_rtranclp) (simp add: step)
  obtain db' where c: "rdb_Commit ?kv (0, [?op]) (set_head_ops (log_view (0, [?op])) (make_head ''a'') empty_cid) = (Ok, db')"
    by (simp add: commit)
  note con = set_under_contention [OF contended_laws wf(1-3) inv]
  have last: "?R\<^sup>*\<^sup>* (1, []) (0, [?op])
      \<and> set_txn ?kv plain_utf8 ?n empty_cid (0, [?op]) = Inr (set_head_ops (log_view (0, [?op])) (make_head ''a'') empty_cid)
      \<and> rdb_Commit ?kv (0, [?op]) (set_head_ops (log_view (0, [?op])) (make_head ''a'') empty_cid) = (Ok, db')"
    using at txn c by blast
  then have "rocks_set ?kv plain_utf8 (1, []) ?n empty_cid = Inr db'"
    using spec [OF conjunct1 [OF con], of db'] by blast
  moreover have "kv_spec plain_utf8 (log_view db') = spec_set (kv_spec plain_utf8 (log_view (0, [?op]))) ?n empty_cid"
    using conjunct1 [OF conjunct2 [OF con]] last by blast
  ultimately show ?thesis using b by (intro exI [of _ db']) (simp add: spec_set_def make_head_def)
qed

end
