(* ===== verification/JSON.thy ===== *)
theory JSON
  imports CBOR Strings
begin

section \<open>MemoDB JSON: nodes as text\<close>

text \<open>
  \<^verbatim>\<open>JSONEncoder.cpp\<close> and the JSON functions of \<^verbatim>\<open>Node.cpp\<close>. The encoder is a visitor whose
  state is the text written so far and the flag \<^verbatim>\<open>first\<close>; the reader is recursive in a fuel,
  and \<open>loadFromJSON\<close> gives it twice the length of the text, which always suffices
  (\<open>consumeJSON_enough\<close>).

  Three library functions are parameters, in the record \<open>json_lib\<close>: \<^verbatim>\<open>llvm::json::parse\<close> on a
  text that is one quoted string, \<^verbatim>\<open>StringRef::getAsDouble\<close> and \<^verbatim>\<open>dragonbox::to_decimal\<close>. The
  lemmas rely on what these document: \<open>parses_strings\<close> (the escapes of RFC 8259 are undone) and
  \<open>reads_back\<close> (a numeral is read as the double whose decimal form denotes the same number).
\<close>

abbreviation DQ :: char where "DQ \<equiv> CHR 0x22"

abbreviation BS :: char where "BS \<equiv> CHR 0x5C"

record json_lib =
  jl_parse :: "string \<Rightarrow> string option"
  jl_getAsDouble :: "string \<Rightarrow> double option"
  jl_to_decimal :: "double \<Rightarrow> nat \<times> int"

subsection \<open>The encoder\<close>

record json_state =
  js_os :: string
  js_first :: bool

definition js_put :: "string \<Rightarrow> json_state \<Rightarrow> json_state" where
  "js_put t s = s\<lparr>js_os := js_os s @ t\<rparr>"

definition show_int :: "int \<Rightarrow> string" where
  "show_int i = (if i < 0 then CHR ''-'' # show_nat (nat (- i)) else show_nat (nat i))"

definition json_beforeNode :: "json_state \<Rightarrow> json_state" where
  "json_beforeNode s = (let s = (if \<not> js_first s then js_put '','' s else s) in s\<lparr>js_first := False\<rparr>)"

definition zeros :: string where
  "zeros = ''00000000000000000000''"

definition decimal_text :: "nat \<Rightarrow> int \<Rightarrow> string" where
  "decimal_text significand exponent =
     (let s = show_nat significand; k = int (length s); n = exponent + k
      in if k \<le> n \<and> n \<le> 21 then s @ take (nat (n - k)) zeros
         else if n > 0 \<and> n \<le> 21 then take (nat n) s @ ''.'' @ drop (nat n) s
         else if n \<le> 0 \<and> n > -6 then ''0.'' @ take (nat (- n)) zeros @ s
         else [s ! 0] @ (if k > 1 then ''.'' @ drop 1 s else []) @ ''e''
              @ (if n \<ge> 1 then ''+'' else []) @ show_int (n - 1))"

definition float_text :: "json_lib \<Rightarrow> double \<Rightarrow> string" where
  "float_text L v =
     (if v = NaN then ''NaN''
      else (if signbit v then ''-'' else []) @
        (let v = (if signbit v then fl_neg v else v)
         in if isinf v then ''Infinity''
            else if is_zero v then ''0''
            else case jl_to_decimal L v of (significand, exponent) \<Rightarrow> decimal_text significand exponent))"

definition json_visitFloat :: "json_lib \<Rightarrow> double \<Rightarrow> json_state \<Rightarrow> json_state" where
  "json_visitFloat L v = js_put ([CHR ''{'', DQ] @ ''float'' @ [DQ, CHR '':'', DQ] @ float_text L v @ [DQ, CHR ''}''])"

definition hex_lower :: "nat \<Rightarrow> char" where
  "hex_lower d = ''0123456789abcdef'' ! d"

definition json_escape :: "char \<Rightarrow> string" where
  "json_escape c =
     (let n = of_char c :: nat
      in if 8 \<le> n \<and> n \<le> 13 \<and> n \<noteq> 11 then [BS, ''btn.fr'' ! (n - 8)]
         else if n < 32 then [BS, CHR ''u'', CHR ''0'', CHR ''0'', hex_lower (n div 16), hex_lower (n mod 16)]
         else if c = BS \<or> c = DQ then [BS, c] else [c])"

definition json_quote :: "string \<Rightarrow> string" where
  "json_quote str = DQ # concat (map json_escape str) @ [DQ]"

definition json_visitString :: "string \<Rightarrow> json_state \<Rightarrow> json_state" where
  "json_visitString str = js_put (json_quote str)"

definition json_visitBytes :: "bytes \<Rightarrow> json_state \<Rightarrow> json_state" where
  "json_visitBytes bs =
     js_put ([CHR ''{'', DQ] @ ''base64'' @ [DQ, CHR '':'', DQ] @ encodeWithoutPrefix base64pad bs @ [DQ, CHR ''}''])"

definition json_visitLink :: "cid \<Rightarrow> json_state \<Rightarrow> json_state" where
  "json_visitLink c =
     js_put ([CHR ''{'', DQ] @ ''cid'' @ [DQ, CHR '':'', DQ] @ asString base64url c @ [DQ, CHR ''}''])"

definition json_visitKey :: "string \<Rightarrow> json_state \<Rightarrow> json_state" where
  "json_visitKey k s =
     (let s = (if \<not> js_first s then js_put '','' s else s)
      in (js_put '':'' (json_visitString k s))\<lparr>js_first := True\<rparr>)"

definition json_visitor :: "json_lib \<Rightarrow> json_state visitor" where
  "json_visitor L =
     \<lparr>beforeNode = json_beforeNode,
      visitNull = js_put ''null'',
      visitBoolean = (\<lambda>b. js_put (if b then ''true'' else ''false'')),
      visitInt64 = (\<lambda>v. js_put (show_int (sint v))),
      visitUInt64 = (\<lambda>v. js_put (show_nat (unat v))),
      visitFloat = json_visitFloat L,
      visitString = json_visitString,
      visitBytes = json_visitBytes,
      visitLink = json_visitLink,
      startList = (\<lambda>_ s. (js_put ''['' s)\<lparr>js_first := True\<rparr>),
      endList = (\<lambda>s. (js_put '']'' s)\<lparr>js_first := False\<rparr>),
      startMap = (\<lambda>_ s. (js_put ([CHR ''{'', DQ] @ ''map'' @ [DQ, CHR '':'', CHR ''{'']) s)\<lparr>js_first := True\<rparr>),
      visitKey = json_visitKey,
      endMap = (\<lambda>s. (js_put ''}}'' s)\<lparr>js_first := False\<rparr>)\<rparr>"

definition json_init :: json_state where
  "json_init = \<lparr>js_os = [], js_first = True\<rparr>"

definition saveAsJSON :: "json_lib \<Rightarrow> node \<Rightarrow> string" where
  "saveAsJSON L n = js_os (visitNode (json_visitor L) n json_init)"

subsection \<open>The reader\<close>

datatype json_error =
    InvalidJSON string
  | JSONParseError string
  | JSONFatal fatal

text \<open>\<^verbatim>\<open>llvm::toString\<close> of such an error; the JSON parser has its own messages.\<close>

fun json_error_text :: "(string \<Rightarrow> string) \<Rightarrow> json_error \<Rightarrow> fatal + string" where
  "json_error_text parser_message (InvalidJSON message) = Inr (''Invalid MemoDB JSON: '' @ message)"
| "json_error_text parser_message (JSONParseError str) = Inr (parser_message str)"
| "json_error_text parser_message (JSONFatal e) = Inl e"

definition skipJSONSpace :: "string \<Rightarrow> string" where
  "skipJSONSpace json = dropWhile (\<lambda>c. c \<in> {CHR '' '', CHR 0x09, CHR 0x0D, CHR 0x0A}) json"

text \<open>
  The loop that looks for the closing quote: the characters up to it, with every backslash
  taking the character after it along, or \<open>None\<close> when the text ends first.
\<close>

fun string_end :: "string \<Rightarrow> nat option" where
  "string_end [] = None"
| "string_end (c # cs) =
     (if c = DQ then Some 0
      else if c = BS then (case cs of [] \<Rightarrow> None | _ # cs \<Rightarrow> map_option (\<lambda>i. i + 2) (string_end cs))
      else map_option Suc (string_end cs))"

definition consumeJSONString :: "json_lib \<Rightarrow> string \<Rightarrow> json_error + string \<times> string" where
  "consumeJSONString L json =
     (let json = skipJSONSpace json
      in if \<not> starts_with [DQ] json then Inl (InvalidJSON (''Expected '' @ [CHR 0x27, DQ, CHR 0x27]))
         else case string_end (drop 1 json) of
             None \<Rightarrow> Inl (InvalidJSON ''Invalid string'')
           | Some i \<Rightarrow>
               (case jl_parse L (take (i + 2) json) of
                  None \<Rightarrow> Inl (JSONParseError (take (i + 2) json))
                | Some str \<Rightarrow> Inr (str, drop (i + 2) json)))"

text \<open>\<^verbatim>\<open>StringRef::consumeInteger(10, value)\<close> for 64-bit results.\<close>

definition is_digit :: "char \<Rightarrow> bool" where
  "is_digit c \<longleftrightarrow> (case digit_value c of Some d \<Rightarrow> d < 10 | None \<Rightarrow> False)"

definition consume_unsigned :: "string \<Rightarrow> (nat \<times> string) option" where
  "consume_unsigned s =
     (case getAsInteger 64 10 (takeWhile is_digit s) of
        None \<Rightarrow> None
      | Some v \<Rightarrow> Some (v, dropWhile is_digit s))"

definition consume_signed :: "string \<Rightarrow> (int \<times> string) option" where
  "consume_signed s =
     (case consume_unsigned (drop 1 s) of
        None \<Rightarrow> None
      | Some (v, rest) \<Rightarrow> if int v > 2 ^ 63 then None else Some (- int v, rest))"

definition special_object :: "json_lib \<Rightarrow> node node_map \<Rightarrow> json_error + node" where
  "special_object L result =
     (case result of
        [(key, value)] \<Rightarrow>
          (case value of
             Map ms \<Rightarrow>
               if key = ''map'' then Inr (Map ms) else Inl (InvalidJSON ''Invalid special JSON object'')
           | String str \<Rightarrow>
               if key = ''cid'' then
                 if \<not> starts_with ''u'' str then Inl (InvalidJSON ''JSON CIDs must be base64url'')
                 else (case cid_parse str of
                         None \<Rightarrow> Inl (InvalidJSON ''Invalid or unsupported CID'')
                       | Some c \<Rightarrow> Inr (Link c))
               else if key = ''base64'' then
                 (case decodeWithoutPrefix base64pad str of
                    None \<Rightarrow> Inl (InvalidJSON ''Invalid base64'')
                  | Some bs \<Rightarrow> Inr (Bytes bs))
               else if key = ''float'' then
                 if str = ''NaN'' then Inr (Float NaN)
                 else if str = ''Infinity'' then Inr (Float (Infinity False))
                 else if str = ''-Infinity'' then Inr (Float (Infinity True))
                 else (case jl_getAsDouble L str of
                         None \<Rightarrow> Inl (InvalidJSON ''Invalid float'')
                       | Some d \<Rightarrow> Inr (Float d))
               else Inl (InvalidJSON ''Invalid special JSON object'')
           | _ \<Rightarrow> Inl (InvalidJSON ''Invalid special JSON object''))
      | _ \<Rightarrow> Inl (InvalidJSON ''Invalid special object''))"

text \<open>
  One call of \<^verbatim>\<open>consumeJSON\<close>; the loops over the elements of a list and the members of an
  object are passed in, as they call the function again.
\<close>

definition consume_switch ::
    "json_lib \<Rightarrow> (string \<Rightarrow> bool) \<Rightarrow> (string \<Rightarrow> (json_error + node list \<times> string) option)
      \<Rightarrow> (string \<Rightarrow> (json_error + node node_map \<times> string) option)
      \<Rightarrow> bool \<Rightarrow> string \<Rightarrow> (json_error + node \<times> string) option" where
  "consume_switch L utf8 items members special json =
     (let json = skipJSONSpace json; unexpected = Some (Inl (InvalidJSON ''Unexpected character'')) in
      case json of
        [] \<Rightarrow> Some (Inl (InvalidJSON ''Missing value''))
      | c # cs \<Rightarrow>
          if c = CHR ''f'' then
            if starts_with ''false'' json then Some (Inr (Boolean False, drop 5 json)) else unexpected
          else if c = CHR ''t'' then
            if starts_with ''true'' json then Some (Inr (Boolean True, drop 4 json)) else unexpected
          else if c = CHR ''n'' then
            if starts_with ''null'' json then Some (Inr (Null, drop 4 json)) else unexpected
          else if c = CHR ''-'' then
            if starts_with ''-0'' json then Some (Inr (Int64 0, drop 2 json))
            else (case consume_signed json of
                    None \<Rightarrow> Some (Inl (InvalidJSON ''Invalid integer''))
                  | Some (v, rest) \<Rightarrow> Some (Inr (Int64 (of_int v), rest)))
          else if c = CHR ''0'' then Some (Inr (Int64 0, cs))
          else if is_digit c then
            (case consume_unsigned json of
               None \<Rightarrow> Some (Inl (InvalidJSON ''Invalid integer''))
             | Some (v, rest) \<Rightarrow> Some (Inr (UInt64 (of_nat v), rest)))
          else if c = DQ then
            Some (then_do (consumeJSONString L json) (\<lambda>(str, rest).
              then_do (map_sum JSONFatal id (node_of_string utf8 str)) (\<lambda>n. Inr (n, rest))))
          else if c = CHR ''['' then
            and_then (if starts_with '']'' (skipJSONSpace cs) then Some (Inr ([], skipJSONSpace cs))
                      else items (skipJSONSpace cs)) (\<lambda>(xs, rest).
              if \<not> starts_with '']'' rest then unexpected else Some (Inr (List xs, drop 1 rest)))
          else if c = CHR ''{'' then
            and_then (if starts_with ''}'' (skipJSONSpace cs) then Some (Inr ([], skipJSONSpace cs))
                      else members (skipJSONSpace cs)) (\<lambda>(ms, rest).
              if \<not> starts_with ''}'' rest then Some (Inl (InvalidJSON (''Expected '' @ [CHR 0x27, CHR ''}'', CHR 0x27])))
              else if \<not> special then Some (Inr (Map ms, drop 1 rest))
              else Some (then_do (special_object L ms) (\<lambda>n. Inr (n, drop 1 rest))))
          else unexpected)"

fun consumeJSON :: "json_lib \<Rightarrow> (string \<Rightarrow> bool) \<Rightarrow> nat \<Rightarrow> bool \<Rightarrow> string \<Rightarrow> (json_error + node \<times> string) option"
and consume_items :: "json_lib \<Rightarrow> (string \<Rightarrow> bool) \<Rightarrow> nat \<Rightarrow> node list \<Rightarrow> string
      \<Rightarrow> (json_error + node list \<times> string) option"
and consume_members :: "json_lib \<Rightarrow> (string \<Rightarrow> bool) \<Rightarrow> nat \<Rightarrow> bool \<Rightarrow> node node_map \<Rightarrow> string
      \<Rightarrow> (json_error + node node_map \<times> string) option" where
  "consumeJSON L utf8 0 special json = None"
| "consumeJSON L utf8 (Suc fuel) special json =
     consume_switch L utf8 (consume_items L utf8 fuel []) (consume_members L utf8 fuel special []) special json"
| "consume_items L utf8 0 result json = None"
| "consume_items L utf8 (Suc fuel) result json =
     and_then (consumeJSON L utf8 fuel True json) (\<lambda>(v, json).
       let json = skipJSONSpace json in
       if starts_with '','' json then consume_items L utf8 fuel (result @ [v]) (drop 1 json)
       else Some (Inr (result @ [v], json)))"
| "consume_members L utf8 0 special result json = None"
| "consume_members L utf8 (Suc fuel) special result json =
     and_then (Some (consumeJSONString L json)) (\<lambda>(key, json).
       let json = skipJSONSpace json in
       if \<not> starts_with '':'' json then Some (Inl (InvalidJSON (''Expected '' @ [CHR 0x27, CHR '':'', CHR 0x27] @ '' in object'')))
       else and_then (consumeJSON L utf8 fuel (\<not> special) (drop 1 json)) (\<lambda>(v, json).
         case try_emplace result key v of
           (result, _, inserted) \<Rightarrow>
             if \<not> inserted then Some (Inl (InvalidJSON ''Duplicate key in map''))
             else let json = skipJSONSpace json in
               if starts_with '','' json then consume_members L utf8 fuel special result (drop 1 json)
               else Some (Inr (result, json))))"

definition loadFromJSON :: "json_lib \<Rightarrow> (string \<Rightarrow> bool) \<Rightarrow> string \<Rightarrow> json_error + node" where
  "loadFromJSON L utf8 json =
     then_do (the (consumeJSON L utf8 (Suc (2 * length json)) True json)) (\<lambda>(n, rest).
       if skipJSONSpace rest \<noteq> [] then Inl (InvalidJSON ''Extra characters after JSON value'') else Inr n)"

subsection \<open>Reading terminates\<close>

lemma length_skip: "length (skipJSONSpace json) \<le> length json"
  by (simp add: skipJSONSpace_def length_dropWhile_le)

lemma starts_with_drop: "starts_with p s \<Longrightarrow> length s = length p + length (drop (length p) s)"
  by (auto simp: starts_with_iff)

lemma consumeJSONString_rest:
  assumes "consumeJSONString L json = Inr (str, rest)"
  shows "length rest < length json"
proof -
  have "skipJSONSpace json \<noteq> []"
    using assms by (auto simp: consumeJSONString_def Let_def starts_with_def split: if_splits)
  then show ?thesis
    using assms length_skip [of json]
    by (cases "skipJSONSpace json")
       (auto simp: consumeJSONString_def Let_def split: if_splits option.splits)
qed

lemma consume_unsigned_rest:
  assumes "consume_unsigned s = Some (v, rest)"
  shows "length rest < length s"
proof -
  have "takeWhile is_digit s \<noteq> []" and "rest = dropWhile is_digit s"
    using assms by (auto simp: consume_unsigned_def getAsInteger_def split: option.splits if_splits)
  moreover have "length s = length (takeWhile is_digit s) + length (dropWhile is_digit s)"
    by (metis length_append takeWhile_dropWhile_id)
  ultimately show ?thesis by simp
qed

lemma consume_signed_rest: "consume_signed s = Some (v, rest) \<Longrightarrow> length rest < length s"
  by (auto simp: consume_signed_def split: option.splits if_splits dest!: consume_unsigned_rest)

lemma is_digit_iff: "is_digit c \<longleftrightarrow> 48 \<le> (of_char c :: nat) \<and> (of_char c :: nat) \<le> 57"
  by (auto simp: is_digit_def digit_value_def Let_def)

lemma not_is_digit [simp]:
  "\<not> is_digit CHR ''[''" "\<not> is_digit CHR ''{''" "\<not> is_digit CHR '']''" "\<not> is_digit CHR ''}''"
  "\<not> is_digit CHR '',''" "\<not> is_digit DQ"
  by (simp_all add: is_digit_iff)

lemma consume_switch_rest:
  assumes "consume_switch L utf8 items members special json = Some (Inr (n, rest))"
    and "\<And>b xs r. items b = Some (Inr (xs, r)) \<Longrightarrow> length r \<le> length b"
    and "\<And>b ms r. members b = Some (Inr (ms, r)) \<Longrightarrow> length r \<le> length b"
  shows "length rest < length json"
proof -
  obtain c cs where j: "skipJSONSpace json = c # cs"
    using assms(1) by (cases "skipJSONSpace json") (auto simp: consume_switch_def)
  have len: "length cs < length json" using length_skip [of json] j by simp
  have items: "length r \<le> length cs" if "items (skipJSONSpace cs) = Some (Inr (xs, r))" for xs r
    using assms(2) [OF that] length_skip [of cs] by simp
  have members: "length r \<le> length cs" if "members (skipJSONSpace cs) = Some (Inr (ms, r))" for ms r
    using assms(3) [OF that] length_skip [of cs] by simp
  note sw = assms(1) [unfolded consume_switch_def Let_def j list.case]
  have "length rest < length (c # cs) \<or> length rest \<le> length cs"
  proof -
    consider "c = CHR ''['' \<or> c = CHR ''{''" | "c \<noteq> CHR ''['' \<and> c \<noteq> CHR ''{''" by blast
    then show ?thesis
    proof cases
      case 1
      then show ?thesis
        using sw length_skip [of cs]
        by (elim disjE)
           (auto simp: and_then_Inr_iff then_do_Inr_iff split: if_splits dest!: items members)
    next
      case 2
      then show ?thesis
        using sw
        by (auto simp: then_do_Inr_iff split: if_splits option.splits
            dest: consume_signed_rest consume_unsigned_rest consumeJSONString_rest)
    qed
  qed
  with len show ?thesis using j length_skip [of json] by auto
qed

lemma consume_rest:
  "consumeJSON L utf8 fuel special json = Some (Inr (n, rest)) \<Longrightarrow> length rest < length json"
  "consume_items L utf8 fuel xs json = Some (Inr (xs', rest)) \<Longrightarrow> length rest \<le> length json"
  "consume_members L utf8 fuel special ms json = Some (Inr (ms', rest)) \<Longrightarrow> length rest \<le> length json"
proof (induction fuel arbitrary: special json n rest xs xs' ms ms')
  case (Suc fuel)
  { case 1
    then show ?case using Suc.IH(2,3) by (auto elim!: consume_switch_rest)
  next
    case 2
    then obtain v r where v: "consumeJSON L utf8 fuel True json = Some (Inr (v, r))"
      and k: "(if starts_with '','' (skipJSONSpace r)
          then consume_items L utf8 fuel (xs @ [v]) (drop 1 (skipJSONSpace r))
          else Some (Inr (xs @ [v], skipJSONSpace r))) = Some (Inr (xs', rest))"
      by (auto simp: and_then_Inr_iff Let_def)
    have "length rest \<le> length (skipJSONSpace r)"
      using k Suc.IH(2) [of "xs @ [v]" "drop 1 (skipJSONSpace r)"] by (auto split: if_splits)
    with Suc.IH(1) [OF v] length_skip [of r] show ?case by simp
  next
    case 3
    then obtain key r v r' where key: "consumeJSONString L json = Inr (key, r)"
      and v: "consumeJSON L utf8 fuel (\<not> special) (drop 1 (skipJSONSpace r)) = Some (Inr (v, r'))"
      and k: "(if starts_with '','' (skipJSONSpace r')
          then consume_members L utf8 fuel special (fst (try_emplace ms key v)) (drop 1 (skipJSONSpace r'))
          else Some (Inr (fst (try_emplace ms key v), skipJSONSpace r'))) = Some (Inr (ms', rest))"
      by (auto simp: and_then_Inr_iff Let_def case_prod_beta split: if_splits)
    have "length rest \<le> length (skipJSONSpace r')"
      using k Suc.IH(3) [of special "fst (try_emplace ms key v)" "drop 1 (skipJSONSpace r')"]
      by (auto split: if_splits)
    with Suc.IH(1) [OF v] consumeJSONString_rest [OF key] length_skip [of r] length_skip [of r']
    show ?case by simp }
qed simp_all

lemma consume_switch_None:
  assumes "consume_switch L utf8 items members special json = None"
  obtains b where "length b < length json" "items b = None"
  | b where "length b < length json" "members b = None"
proof -
  obtain c cs where j: "skipJSONSpace json = c # cs"
    using assms by (cases "skipJSONSpace json") (auto simp: consume_switch_def)
  note sw = assms [unfolded consume_switch_def Let_def j list.case]
  have "length (skipJSONSpace cs) < length json"
    using length_skip [of json] length_skip [of cs] j by simp
  moreover from sw have "items (skipJSONSpace cs) = None \<or> members (skipJSONSpace cs) = None"
    by (auto simp: and_then_None_iff split: if_splits option.splits)
  ultimately show thesis using that by blast
qed

lemma consume_enough:
  "2 * length json < fuel \<Longrightarrow> consumeJSON L utf8 fuel special json \<noteq> None"
  "2 * length json + 1 < fuel \<Longrightarrow> consume_items L utf8 fuel xs json \<noteq> None"
  "2 * length json + 1 < fuel \<Longrightarrow> consume_members L utf8 fuel special ms json \<noteq> None"
proof (induction fuel arbitrary: special json xs ms)
  case (Suc fuel)
  { case 1
    show ?case
    proof
      assume "consumeJSON L utf8 (Suc fuel) special json = None"
      then have "consume_switch L utf8 (consume_items L utf8 fuel []) (consume_members L utf8 fuel special [])
          special json = None" by simp
      then show False
        by (rule consume_switch_None) (use 1 Suc.IH(2,3) in \<open>auto simp del: not_None_eq\<close>)
    qed
  next
    case 2
    have "consume_items L utf8 fuel (xs @ [v]) (drop 1 (skipJSONSpace r)) \<noteq> None"
      if "consumeJSON L utf8 fuel True json = Some (Inr (v, r))" for v r
      using consume_rest(1) [OF that] length_skip [of r] 2 by (intro Suc.IH(2)) simp
    moreover have "consumeJSON L utf8 fuel True json \<noteq> None" using 2 by (intro Suc.IH(1)) simp
    ultimately show ?case
      by (auto simp: and_then_None_iff Let_def simp del: not_None_eq split: if_splits)
  next
    case 3
    have "consumeJSON L utf8 fuel (\<not> special) (drop 1 (skipJSONSpace r)) \<noteq> None \<and>
        (\<forall>v r'. consumeJSON L utf8 fuel (\<not> special) (drop 1 (skipJSONSpace r)) = Some (Inr (v, r')) \<longrightarrow>
           consume_members L utf8 fuel special (fst (try_emplace ms key v)) (drop 1 (skipJSONSpace r')) \<noteq> None)"
      if "consumeJSONString L json = Inr (key, r)" for key r
    proof (intro conjI allI impI)
      have r: "2 * length (drop 1 (skipJSONSpace r)) + 1 < fuel"
        using consumeJSONString_rest [OF that] length_skip [of r] 3 by simp
      then show "consumeJSON L utf8 fuel (\<not> special) (drop 1 (skipJSONSpace r)) \<noteq> None"
        by (intro Suc.IH(1)) simp
      fix v r'
      assume "consumeJSON L utf8 fuel (\<not> special) (drop 1 (skipJSONSpace r)) = Some (Inr (v, r'))"
      from consume_rest(1) [OF this] r length_skip [of r']
      show "consume_members L utf8 fuel special (fst (try_emplace ms key v)) (drop 1 (skipJSONSpace r')) \<noteq> None"
        by (intro Suc.IH(3)) simp
    qed
    then show ?case
      by (cases "consumeJSONString L json")
         (auto simp: and_then_None_iff Let_def simp del: not_None_eq split: if_splits prod.splits) }
qed simp_all

subsection \<open>What the encoder writes\<close>

fun jtext :: "json_lib \<Rightarrow> node \<Rightarrow> string"
and jtext_items :: "json_lib \<Rightarrow> bool \<Rightarrow> node list \<Rightarrow> string"
and jtext_members :: "json_lib \<Rightarrow> bool \<Rightarrow> (string \<times> node) list \<Rightarrow> string" where
  "jtext L Null = ''null''"
| "jtext L (Boolean b) = (if b then ''true'' else ''false'')"
| "jtext L (Int64 v) = show_int (sint v)"
| "jtext L (UInt64 v) = show_nat (unat v)"
| "jtext L (Float d) = CHR ''{'' # json_quote ''float'' @ CHR '':'' # DQ # float_text L d @ [DQ, CHR ''}'']"
| "jtext L (Bytes bs) =
     CHR ''{'' # json_quote ''base64'' @ CHR '':'' # DQ # encodeWithoutPrefix base64pad bs @ [DQ, CHR ''}'']"
| "jtext L (String s) = json_quote s"
| "jtext L (Link c) = CHR ''{'' # json_quote ''cid'' @ CHR '':'' # DQ # asString base64url c @ [DQ, CHR ''}'']"
| "jtext L (List xs) = ''['' @ jtext_items L True xs @ '']''"
| "jtext L (Map ms) = CHR ''{'' # json_quote ''map'' @ '':{'' @ jtext_members L True ms @ ''}}''"
| "jtext_items L first [] = []"
| "jtext_items L first (x # xs) = (if first then [] else '','') @ jtext L x @ jtext_items L False xs"
| "jtext_members L first [] = []"
| "jtext_members L first ((k, v) # ms) =
     (if first then [] else '','') @ json_quote k @ '':'' @ jtext L v @ jtext_members L False ms"

lemma json_quote_plain:
  assumes "\<forall>c \<in> set s. 32 \<le> (of_char c :: nat) \<and> c \<noteq> DQ \<and> c \<noteq> BS"
  shows "json_quote s = DQ # s @ [DQ]"
proof -
  from assms have "concat (map json_escape s) = s"
    by (induction s) (auto simp: json_escape_def Let_def)
  then show ?thesis by (simp add: json_quote_def)
qed

lemma json_quote_keys:
  "json_quote ''float'' = DQ # ''float'' @ [DQ]" "json_quote ''base64'' = DQ # ''base64'' @ [DQ]"
  "json_quote ''cid'' = DQ # ''cid'' @ [DQ]" "json_quote ''map'' = DQ # ''map'' @ [DQ]"
  by (rule json_quote_plain; simp)+

lemma visitNode_json:
  "visitNode (json_visitor L) n s =
     \<lparr>js_os = js_os s @ (if js_first s then [] else '','') @ jtext L n, js_first = False\<rparr>"
  "visitItems (json_visitor L) xs s =
     \<lparr>js_os = js_os s @ jtext_items L (js_first s) xs, js_first = js_first s \<and> xs = []\<rparr>"
  "visitMembers (json_visitor L) ms s =
     \<lparr>js_os = js_os s @ jtext_members L (js_first s) ms, js_first = js_first s \<and> ms = []\<rparr>"
proof (induction n and xs and ms arbitrary: s and s and s rule: cbor_cbor_items_cbor_members.induct)
qed (simp_all add: json_visitor_def json_beforeNode_def js_put_def json_visitFloat_def json_visitString_def
    json_visitBytes_def json_visitLink_def json_visitKey_def json_quote_keys Let_def)

lemma saveAsJSON_jtext: "saveAsJSON L n = jtext L n"
  by (simp add: saveAsJSON_def visitNode_json json_init_def)

subsection \<open>Strings\<close>

text \<open>The escapes of RFC 8259, with \<^verbatim>\<open>\u\<close> escapes for ASCII characters only.\<close>

definition simple_escape :: "char \<Rightarrow> char option" where
  "simple_escape c =
     map_of [(DQ, DQ), (BS, BS), (CHR ''/'', CHR ''/''), (CHR ''b'', CHR 0x08), (CHR ''f'', CHR 0x0C),
       (CHR ''n'', CHR 0x0A), (CHR ''r'', CHR 0x0D), (CHR ''t'', CHR 0x09)] c"

fun json_unescape :: "string \<Rightarrow> string option" where
  "json_unescape [] = Some []"
| "json_unescape (c # cs) =
     (if c = BS then
        (case cs of
           [] \<Rightarrow> None
         | d # ds \<Rightarrow>
             if d = CHR ''u'' then
               (case ds of
                  a # b # e # f # rest \<Rightarrow>
                    (case getAsInteger 16 16 [a, b, e, f] of
                       Some n \<Rightarrow> if n < 128 then map_option ((#) (char_of n)) (json_unescape rest) else None
                     | None \<Rightarrow> None)
                | _ \<Rightarrow> None)
             else (case simple_escape d of
                     None \<Rightarrow> None
                   | Some x \<Rightarrow> map_option ((#) x) (json_unescape ds)))
      else if c = DQ \<or> (of_char c :: nat) < 32 then None
      else map_option ((#) c) (json_unescape cs))"

definition parses_strings :: "json_lib \<Rightarrow> (string \<Rightarrow> bool) \<Rightarrow> bool" where
  "parses_strings L utf8 \<longleftrightarrow>
     (\<forall>s. (\<forall>c \<in> set s. (of_char c :: nat) < 128) \<longrightarrow> utf8 s) \<and>
     (\<forall>t s. json_unescape t = Some s \<longrightarrow> utf8 s \<longrightarrow> jl_parse L (DQ # t @ [DQ]) = Some s)"

lemma json_escape_cases:
  obtains (plain) "json_escape c = [c]" "c \<noteq> DQ" "c \<noteq> BS" "32 \<le> (of_char c :: nat)"
  | (simple) d where "json_escape c = [BS, d]" "simple_escape d = Some c" "d \<noteq> CHR ''u''"
  | (code) a b where "json_escape c = [BS, CHR ''u'', CHR ''0'', CHR ''0'', a, b]"
      "getAsInteger 16 16 [CHR ''0'', CHR ''0'', a, b] = Some (of_char c)" "(of_char c :: nat) < 32"
      "a \<noteq> DQ" "a \<noteq> BS" "b \<noteq> DQ" "b \<noteq> BS"
proof -
  define n where "n = (of_char c :: nat)"
  have c: "c = char_of n" by (simp add: n_def)
  consider "32 \<le> n" | "n < 32" by linarith
  then show thesis
  proof cases
    case 1
    then show thesis
    proof (cases "c = BS \<or> c = DQ")
      case True
      with 1 show thesis
        by (intro simple [of c]) (auto simp: json_escape_def simple_escape_def Let_def n_def)
    next
      case False
      with 1 show thesis by (intro plain) (auto simp: json_escape_def Let_def n_def)
    qed
  next
    case 2
    have all: "n \<in> set [0..<32]" using 2 by simp
    have "\<forall>n \<in> set [0..<32]. (8 \<le> n \<and> n \<le> 13 \<and> n \<noteq> 11 \<longrightarrow>
        simple_escape (''btn.fr'' ! (n - 8)) = Some (char_of n) \<and> ''btn.fr'' ! (n - 8) \<noteq> CHR ''u'')
      \<and> getAsInteger 16 16 [CHR ''0'', CHR ''0'', hex_lower (n div 16), hex_lower (n mod 16)] = Some n
      \<and> hex_lower (n div 16) \<noteq> DQ \<and> hex_lower (n div 16) \<noteq> BS
      \<and> hex_lower (n mod 16) \<noteq> DQ \<and> hex_lower (n mod 16) \<noteq> BS"
      by code_simp
    from this [rule_format, OF all] 2 show thesis
      by (cases "8 \<le> n \<and> n \<le> 13 \<and> n \<noteq> 11")
         (intro simple [of "''btn.fr'' ! (n - 8)"] code [of "hex_lower (n div 16)" "hex_lower (n mod 16)"];
          auto simp: json_escape_def Let_def n_def)+
  qed
qed

lemma json_unescape_escape: "json_unescape (concat (map json_escape s)) = Some s"
proof (induction s)
  case (Cons c s)
  show ?case
    by (cases c rule: json_escape_cases) (simp_all add: Cons)
qed simp

lemma json_unescape_plain:
  "\<forall>c \<in> set s. 32 \<le> (of_char c :: nat) \<and> c \<noteq> DQ \<and> c \<noteq> BS \<Longrightarrow> json_unescape s = Some s"
  by (induction s) auto

lemma string_end_escape:
  "string_end (concat (map json_escape s) @ DQ # rest) = Some (length (concat (map json_escape s)))"
proof (induction s)
  case (Cons c s)
  show ?case
    by (cases c rule: json_escape_cases) (simp_all add: Cons)
qed simp

lemma string_end_plain:
  "\<forall>c \<in> set s. c \<noteq> DQ \<and> c \<noteq> BS \<Longrightarrow> string_end (s @ DQ # rest) = Some (length s)"
  by (induction s) auto

lemma skip_Cons:
  "c \<notin> {CHR '' '', CHR 0x09, CHR 0x0D, CHR 0x0A} \<Longrightarrow> skipJSONSpace (c # cs) = c # cs"
  by (auto simp: skipJSONSpace_def)

lemma consumeJSONString_read:
  assumes "string_end (t @ DQ # rest) = Some (length t)" and "jl_parse L (DQ # t @ [DQ]) = Some s"
  shows "consumeJSONString L (DQ # t @ DQ # rest) = Inr (s, rest)"
proof -
  have "take (Suc (Suc (length t))) (DQ # t @ DQ # rest) = DQ # t @ [DQ]"
    and "drop (Suc (Suc (length t))) (DQ # t @ DQ # rest) = rest" by simp_all
  with assms show ?thesis
    by (simp add: consumeJSONString_def skip_Cons starts_with_single Let_def)
qed

lemma consumeJSONString_quote:
  assumes "parses_strings L utf8" and "utf8 s"
  shows "consumeJSONString L (json_quote s @ rest) = Inr (s, rest)"
proof -
  have "jl_parse L (DQ # concat (map json_escape s) @ [DQ]) = Some s"
    using assms json_unescape_escape [of s] by (simp add: parses_strings_def)
  from consumeJSONString_read [OF string_end_escape this, of rest] show ?thesis
    by (simp add: json_quote_def)
qed

definition plain_text :: "string \<Rightarrow> bool" where
  "plain_text s \<longleftrightarrow> (\<forall>c \<in> set s. 32 \<le> (of_char c :: nat) \<and> (of_char c :: nat) < 128 \<and> c \<noteq> DQ \<and> c \<noteq> BS)"

lemma plain_text_simps [simp]:
  "plain_text []" "plain_text (s @ t) \<longleftrightarrow> plain_text s \<and> plain_text t"
  "plain_text (c # s) \<longleftrightarrow> 32 \<le> (of_char c :: nat) \<and> (of_char c :: nat) < 128 \<and> c \<noteq> DQ \<and> c \<noteq> BS \<and> plain_text s"
  by (auto simp: plain_text_def)

lemma plain_subset: "plain_text s \<Longrightarrow> set t \<subseteq> set s \<Longrightarrow> plain_text t"
  by (auto simp: plain_text_def)

lemma plain_text_utf8: "parses_strings L utf8 \<Longrightarrow> plain_text s \<Longrightarrow> utf8 s"
  by (simp add: parses_strings_def plain_text_def)

lemma consumeJSONString_plain:
  assumes "parses_strings L utf8" and "plain_text s"
  shows "consumeJSONString L (DQ # s @ DQ # rest) = Inr (s, rest)"
proof (rule consumeJSONString_read)
  show "string_end (s @ DQ # rest) = Some (length s)"
    using assms(2) by (intro string_end_plain) (auto simp: plain_text_def)
  have "json_unescape s = Some s" using assms(2) by (intro json_unescape_plain) (auto simp: plain_text_def)
  with plain_text_utf8 [OF assms] show "jl_parse L (DQ # s @ [DQ]) = Some s"
    using assms(1) by (simp add: parses_strings_def)
qed

lemma consume_string:
  assumes "consumeJSONString L (DQ # t) = Inr (s, rest)" and "utf8 s"
  shows "consumeJSON L utf8 (Suc fuel) special (DQ # t) = Some (Inr (String s, rest))"
  using assms by (simp add: consume_switch_def skip_Cons node_of_string_def)

text \<open>An object with one member, where a special object is expected.\<close>

lemma consume_one_member:
  assumes "parses_strings L utf8" and "utf8 key"
    and "consumeJSON L utf8 fuel False t = Some (Inr (v, CHR ''}'' # rest))"
  shows "consumeJSON L utf8 (Suc (Suc fuel)) True (CHR ''{'' # json_quote key @ CHR '':'' # t)
       = Some (then_do (special_object L [(key, v)]) (\<lambda>n. Inr (n, rest)))"
proof -
  have "consume_members L utf8 (Suc fuel) True [] (json_quote key @ CHR '':'' # t)
      = Some (Inr ([(key, v)], CHR ''}'' # rest))"
    using assms(3)
    by (simp add: consumeJSONString_quote [OF assms(1,2)] skip_Cons starts_with_def try_emplace_def lower_bound_def)
  then show ?thesis
    by (simp add: consume_switch_def skip_Cons starts_with_def json_quote_def)
qed

subsection \<open>Numbers\<close>

lemma show_nat_is_digit: "c \<in> set (show_nat n) \<Longrightarrow> is_digit c"
  using show_nat_digits by (simp add: is_digit_iff)

lemma show_nat_0: "show_nat 0 = ''0''"
  by code_simp

lemma show_nat_first:
  assumes "0 < n"
  obtains d cs where "show_nat n = d # cs" "is_digit d" "d \<noteq> CHR ''0''"
proof -
  have "\<exists>d cs. show_nat n = d # cs \<and> d \<noteq> CHR ''0''" using assms
  proof (induction n rule: show_nat.induct)
    case (1 n)
    show ?case
    proof (cases "n < 10")
      case True
      then have "n \<in> set [1..<10]" using 1 by simp
      moreover have "\<forall>n \<in> set [1..<10]. dec_digit n \<noteq> CHR ''0''" by code_simp
      ultimately show ?thesis using True by (simp add: show_nat.simps [of n])
    next
      case False
      then have "0 < n div 10" by simp
      with 1(1) [OF False] obtain d cs where "show_nat (n div 10) = d # cs" "d \<noteq> CHR ''0''" by blast
      with False show ?thesis by (simp add: show_nat.simps [of n])
    qed
  qed
  then obtain d cs where d: "show_nat n = d # cs" "d \<noteq> CHR ''0''" by blast
  then have "is_digit d" using show_nat_is_digit [of d n] by simp
  with d that show thesis by blast
qed

lemma is_digit_not_space: "is_digit c \<Longrightarrow> c \<notin> {CHR '' '', CHR 0x09, CHR 0x0D, CHR 0x0A}"
  by (auto simp: is_digit_iff)

definition ends_number :: "string \<Rightarrow> bool" where
  "ends_number rest \<longleftrightarrow> (case rest of [] \<Rightarrow> True | c # _ \<Rightarrow> \<not> is_digit c)"

lemma span_show_nat:
  assumes "ends_number rest"
  shows "takeWhile is_digit (show_nat n @ rest) = show_nat n" "dropWhile is_digit (show_nat n @ rest) = rest"
proof -
  have "takeWhile is_digit rest = []" and "dropWhile is_digit rest = rest"
    using assms by (auto simp: ends_number_def split: list.splits)
  then show "takeWhile is_digit (show_nat n @ rest) = show_nat n" "dropWhile is_digit (show_nat n @ rest) = rest"
    using show_nat_is_digit [of _ n] by (simp_all add: takeWhile_append2 dropWhile_append2)
qed

lemma consume_unsigned_show:
  "ends_number rest \<Longrightarrow> n < 2 ^ 64 \<Longrightarrow> consume_unsigned (show_nat n @ rest) = Some (n, rest)"
  by (simp add: consume_unsigned_def span_show_nat getAsInteger_show_nat)

lemma starts_with_Cons [simp]:
  "starts_with (c # p) (d # s) \<longleftrightarrow> c = d \<and> starts_with p s" "starts_with [] s" "\<not> starts_with (c # p) []"
  by (auto simp: starts_with_def)

lemma consume_UInt64:
  assumes "ends_number rest"
  shows "consumeJSON L utf8 (Suc fuel) special (show_nat (unat (v :: u64)) @ rest)
       = Some (Inr (if v = 0 then Int64 0 else UInt64 v, rest))"
proof (cases "v = 0")
  case True
  then have "show_nat (unat v) = ''0''" by (simp add: show_nat_0)
  with True show ?thesis by (simp add: consume_switch_def skip_Cons)
next
  case False
  then have "0 < unat v" by (simp add: unat_gt_0)
  then obtain d cs where d: "show_nat (unat v) = d # cs" "is_digit d" "d \<noteq> CHR ''0''"
    by (rule show_nat_first)
  have "consume_unsigned (d # cs @ rest) = Some (unat v, rest)"
    using consume_unsigned_show [OF assms, of "unat v"] unat_u64_less [of v] d(1) by simp
  moreover have "d \<noteq> CHR ''f''" "d \<noteq> CHR ''t''" "d \<noteq> CHR ''n''" "d \<noteq> CHR ''-''"
    using d(2) by (auto simp: is_digit_iff)
  moreover have "skipJSONSpace (d # cs @ rest) = d # cs @ rest"
    using is_digit_not_space [OF d(2)] by (rule skip_Cons)
  ultimately show ?thesis
    using d False by (simp add: consume_switch_def)
qed

lemma consume_Int64:
  assumes "ends_number rest"
  shows "consumeJSON L utf8 (Suc fuel) special (show_int (sint (v :: int64)) @ rest)
       = Some (Inr (if sint v \<le> 0 then Int64 v else UInt64 v, rest))"
proof (cases "sint v < 0")
  case True
  then have "0 < nat (- sint v)" by simp
  then obtain d cs where d: "show_nat (nat (- sint v)) = d # cs" "is_digit d" "d \<noteq> CHR ''0''"
    by (rule show_nat_first)
  have b: "- sint v \<le> 2 ^ 63" using sint_u64_bounds [of v] by simp
  then have "nat (- sint v) < 2 ^ 64" by simp
  then have "consume_unsigned (d # cs @ rest) = Some (nat (- sint v), rest)"
    using consume_unsigned_show [OF assms, of "nat (- sint v)"] d(1) by simp
  then have "consume_signed (CHR ''-'' # d # cs @ rest) = Some (sint v, rest)"
    using True b by (simp add: consume_signed_def)
  with True d show ?thesis by (simp add: show_int_def consume_switch_def skip_Cons)
next
  case False
  then have s: "sint v = uint v" using sint_nonneg_uint [of v] by simp
  then have "show_int (sint v) = show_nat (unat v)" using False by (simp add: show_int_def)
  moreover have "sint v \<le> 0 \<longleftrightarrow> v = 0" using False s by (auto simp: uint_0_iff)
  ultimately show ?thesis using consume_UInt64 [OF assms, of L utf8 fuel special v] by simp
qed

text \<open>
  The number a decimal numeral denotes, as a significand and a power of ten, and what the
  two libraries promise of a double: the numerals of the number that \<^verbatim>\<open>to_decimal\<close> gives for
  it are read as that double.
\<close>

definition exponent_value :: "string \<Rightarrow> int option" where
  "exponent_value s =
     (case s of
        [] \<Rightarrow> Some 0
      | e # sign # ds \<Rightarrow>
          (case digit_values 10 ds of
             None \<Rightarrow> None
           | Some x \<Rightarrow>
               if sign = CHR ''+'' then Some (int (undigits 10 x))
               else if sign = CHR ''-'' then Some (- int (undigits 10 x)) else None)
      | _ \<Rightarrow> None)"

definition decimal_value :: "string \<Rightarrow> (nat \<times> int) option" where
  "decimal_value t =
     (let m = takeWhile (\<lambda>c. c \<noteq> CHR ''e'') t;
          (ip, fp) = split_first CHR ''.'' m
      in case (digit_values 10 (ip @ fp), exponent_value (dropWhile (\<lambda>c. c \<noteq> CHR ''e'') t)) of
           (Some ds, Some x) \<Rightarrow> if ip = [] then None else Some (undigits 10 ds, x - int (length fp))
         | _ \<Rightarrow> None)"

definition same_number :: "nat \<times> int \<Rightarrow> nat \<times> int \<Rightarrow> bool" where
  "same_number a b =
     (let c = min (snd a) (snd b)
      in fst a * 10 ^ nat (snd a - c) = fst b * 10 ^ nat (snd b - c))"

definition reads_back :: "json_lib \<Rightarrow> double \<Rightarrow> bool" where
  "reads_back L d =
     (case d of
        Finite s m e \<Rightarrow>
          if m = 0 then jl_getAsDouble L ((if s then ''-'' else []) @ ''0'') = Some d
          else (\<forall>t x. decimal_value t = Some x \<and> same_number (jl_to_decimal L (Finite False m e)) x \<longrightarrow>
                  jl_getAsDouble L ((if s then ''-'' else []) @ t) = Some d)
      | _ \<Rightarrow> True)"

lemma digits_not_special: "is_digit c \<Longrightarrow> c \<noteq> CHR ''.'' \<and> c \<noteq> CHR ''e''"
  by (auto simp: is_digit_iff)

lemma digit_values_is_digit: "digit_values 10 s = Some ds \<Longrightarrow> c \<in> set s \<Longrightarrow> is_digit c"
  by (induction s arbitrary: ds) (auto simp: is_digit_def split: option.splits if_splits)

lemma digit_values_length: "digit_values r s = Some ds \<Longrightarrow> length ds = length s"
  by (induction s arbitrary: ds) (auto split: option.splits if_splits)

lemma digit_values_zeros: "digit_values 10 (take n zeros) = Some (replicate (min n 20) 0)"
proof -
  have r: "digit_values 10 (replicate k CHR ''0'') = Some (replicate k 0)" for k
    by (induction k) (simp_all add: digit_value_def)
  have z: "zeros = replicate 20 CHR ''0''" by (simp add: zeros_def numeral_eq_Suc)
  show ?thesis unfolding z take_replicate by (rule r)
qed

lemma decimal_value_parts:
  assumes "digit_values 10 (ip @ fp) = Some ds" and "ip \<noteq> []"
    and "m = ip \<and> fp = [] \<or> m = ip @ CHR ''.'' # fp"
    and "x = [] \<or> hd x = CHR ''e''" and "exponent_value x = Some k"
  shows "decimal_value (m @ x) = Some (undigits 10 ds, k - int (length fp))"
proof -
  have d: "is_digit c" if "c \<in> set (ip @ fp)" for c using digit_values_is_digit [OF assms(1) that] .
  have m: "c \<noteq> CHR ''e''" if "c \<in> set m" for c
    using assms(3) that d [of c] digits_not_special [of c] by auto
  have ip: "CHR ''.'' \<notin> set ip" using d digits_not_special by auto
  have "takeWhile (\<lambda>c. c \<noteq> CHR ''e'') x = []" "dropWhile (\<lambda>c. c \<noteq> CHR ''e'') x = x"
    using assms(4) by (cases x; simp)+
  then have "takeWhile (\<lambda>c. c \<noteq> CHR ''e'') (m @ x) = m" "dropWhile (\<lambda>c. c \<noteq> CHR ''e'') (m @ x) = x"
    using m by (simp_all add: takeWhile_append2 dropWhile_append2)
  moreover have "split_first CHR ''.'' m = (ip, fp)"
    using assms(3) ip split_first_none [OF ip] split_first_append [OF ip, of fp] by auto
  ultimately show ?thesis
    using assms(1,2,5) by (simp add: decimal_value_def)
qed

lemma exponent_value_show:
  shows "exponent_value (CHR ''e'' # CHR ''+'' # show_nat k) = Some (int k)"
    and "exponent_value (CHR ''e'' # CHR ''-'' # show_nat k) = Some (- int k)"
  using digit_values_show_nat [of k] by (auto simp: exponent_value_def)

lemma same_number_refl: "same_number a a"
  by (simp add: same_number_def)

lemma undigits_zeros_left: "undigits 10 (0 # replicate k 0 @ ds) = undigits 10 ds"
  by (simp add: undigits_Cons undigits_append)

lemma decimal_text_value:
  "\<exists>x. decimal_value (decimal_text sig e) = Some x \<and> same_number (sig, e) x"
proof -
  obtain ds where ds: "digit_values 10 (show_nat sig) = Some ds" "undigits 10 ds = sig"
    using digit_values_show_nat [of sig] by blast
  define s where "s = show_nat sig"
  define k where "k = int (length s)"
  define n where "n = e + k"
  have s: "s \<noteq> []" "digit_values 10 s = Some ds" and k: "k \<ge> 1"
    using ds by (simp_all add: s_def k_def Suc_le_eq)
  have e: "e = n - k" by (simp add: n_def)
  have dt: "decimal_text sig e =
     (if k \<le> n \<and> n \<le> 21 then s @ take (nat (n - k)) zeros
      else if n > 0 \<and> n \<le> 21 then take (nat n) s @ ''.'' @ drop (nat n) s
      else if n \<le> 0 \<and> n > -6 then ''0.'' @ take (nat (- n)) zeros @ s
      else [s ! 0] @ (if k > 1 then ''.'' @ drop 1 s else []) @ ''e''
           @ (if n \<ge> 1 then ''+'' else []) @ show_int (n - 1))"
    by (simp only: decimal_text_def Let_def s_def k_def n_def)
  consider "k \<le> n" "n \<le> 21" | "\<not> (k \<le> n \<and> n \<le> 21)" "n > 0" "n \<le> 21"
    | "\<not> (n > 0 \<and> n \<le> 21)" "\<not> (k \<le> n \<and> n \<le> 21)" "n \<le> 0" "n > -6"
    | "\<not> (k \<le> n \<and> n \<le> 21)" "\<not> (n > 0 \<and> n \<le> 21)" "\<not> (n \<le> 0 \<and> n > -6)" by blast
  then show ?thesis
  proof cases
    case 1
    define j where "j = nat (n - k)"
    have j: "j \<le> 20" "n - k = int j" using 1 k by (simp_all add: j_def)
    have "digit_values 10 ((s @ take j zeros) @ []) = Some (ds @ replicate j 0)"
      using s j by (simp add: digit_values_append digit_values_zeros)
    then have "decimal_value ((s @ take j zeros) @ []) = Some (undigits 10 (ds @ replicate j 0), 0 - int (length ([] :: string)))"
      using s by (intro decimal_value_parts [where ip = "s @ take j zeros"]) (auto simp: exponent_value_def)
    moreover have "decimal_text sig e = s @ take j zeros"
      using 1 by (simp add: dt j_def)
    moreover have "same_number (sig, e) (undigits 10 (ds @ replicate j 0), 0)"
      using j e by (simp add: same_number_def Let_def undigits_append ds(2))
    ultimately show ?thesis by simp
  next
    case 2
    define j where "j = nat n"
    have j: "n = int j" "0 < j" "j < length s" using 2 by (auto simp: j_def k_def)
    have "decimal_value ((take j s @ CHR ''.'' # drop j s) @ []) = Some (undigits 10 ds, 0 - int (length (drop j s)))"
      using s j by (intro decimal_value_parts [where ip = "take j s"]) (auto simp: exponent_value_def)
    moreover have "decimal_text sig e = take j s @ CHR ''.'' # drop j s"
      using 2 j by (simp add: dt)
    moreover have "0 - int (length (drop j s)) = e" using j by (simp add: e k_def)
    ultimately show ?thesis using ds(2) same_number_refl by simp
  next
    case 3
    define j where "j = nat (- n)"
    have j: "- n = int j" "j \<le> 20" using 3 by (auto simp: j_def)
    have "digit_values 10 (''0'' @ (take j zeros @ s)) = Some (0 # replicate j 0 @ ds)"
      using s j by (simp add: digit_values_append digit_values_zeros digit_value_def)
    then have "decimal_value ((''0'' @ CHR ''.'' # (take j zeros @ s)) @ [])
        = Some (undigits 10 (0 # replicate j 0 @ ds), 0 - int (length (take j zeros @ s)))"
      by (intro decimal_value_parts [where ip = "''0''"]) (auto simp: exponent_value_def)
    moreover have "decimal_text sig e = ''0'' @ CHR ''.'' # (take j zeros @ s)"
      using 3 by (simp add: dt j_def)
    moreover have "0 - int (length (take j zeros @ s)) = e"
      using j by (simp add: e k_def zeros_def)
    ultimately show ?thesis using ds(2) same_number_refl by (simp add: undigits_zeros_left)
  next
    case 4
    obtain c cs where c: "s = c # cs" using s by (cases s) auto
    define m where "m = c # (if cs = [] then [] else CHR ''.'' # cs)"
    define x where "x = CHR ''e'' # (if n \<ge> 1 then ''+'' else []) @ show_int (n - 1)"
    have "n \<ge> 1 \<or> n - 1 < 0" by linarith
    then have "exponent_value x = Some (n - 1)"
      by (auto simp: x_def show_int_def exponent_value_show)
    then have "decimal_value (m @ x) = Some (undigits 10 ds, n - 1 - int (length cs))"
      using s(2) by (intro decimal_value_parts [where ip = "[c]"]) (auto simp: c m_def x_def)
    moreover have "decimal_text sig e = m @ x"
      using 4 by (auto simp: dt c m_def x_def k_def)
    moreover have "n - 1 - int (length cs) = e" by (simp add: e k_def c)
    ultimately show ?thesis using ds(2) same_number_refl by simp
  qed
qed

lemma plain_show_nat [simp]: "plain_text (show_nat n)"
  using show_nat_digits [of _ n] by (fastforce simp: plain_text_def)

lemma plain_show_int [simp]: "plain_text (show_int i)"
  by (simp add: show_int_def)

lemma plain_zeros [simp]: "plain_text (take n zeros)"
  by (rule plain_subset [of zeros]) (auto simp: zeros_def dest: in_set_takeD)

lemma plain_parts [simp]: "plain_text s \<Longrightarrow> plain_text (take n s)" "plain_text s \<Longrightarrow> plain_text (drop n s)"
  by (auto intro: plain_subset dest: in_set_takeD in_set_dropD)

lemma plain_decimal_text: "plain_text (decimal_text sig e)"
proof -
  have "show_nat sig ! 0 \<in> set (show_nat sig)" by (rule nth_mem) simp
  then have "plain_text [show_nat sig ! 0]" by (intro plain_subset [OF plain_show_nat [of sig]]) simp
  then show ?thesis by (simp add: decimal_text_def Let_def)
qed

lemma plain_float_text: "plain_text (float_text L d)"
  by (simp add: float_text_def Let_def plain_decimal_text split: prod.splits)

lemma decimal_text_first: "\<exists>c cs. decimal_text sig e = c # cs \<and> is_digit c"
proof -
  obtain c cs where c: "show_nat sig = c # cs" "is_digit c"
    using show_nat_is_digit [of "hd (show_nat sig)" sig] by (cases "show_nat sig") auto
  moreover have "is_digit CHR ''0''" by (simp add: is_digit_iff)
  ultimately show ?thesis
    by (simp add: decimal_text_def Let_def take_Cons')
qed

lemma float_text_special:
  assumes "wf_double d" and "reads_back L d"
  shows "special_object L [(''float'', String (float_text L d))] = Inr (Float d)"
proof (cases d)
  case NaN
  then show ?thesis by (simp add: special_object_def float_text_def)
next
  case (Infinity s)
  then show ?thesis by (cases s) (simp_all add: special_object_def float_text_def isinf_def)
next
  case (Finite s m e)
  let ?sign = "if s then ''-'' else []"
  obtain sig x where x: "jl_to_decimal L (Finite False m e) = (sig, x)" by fastforce
  define t where "t = (if m = 0 then ''0'' else decimal_text sig x)"
  have ft: "float_text L d = ?sign @ t"
    by (simp add: Finite float_text_def isinf_def is_zero_def t_def x)
  have "is_digit CHR ''0''" by (simp add: is_digit_iff)
  then obtain c cs where c: "t = c # cs" "is_digit c"
    using decimal_text_first [of sig x] by (cases "m = 0") (auto simp: t_def)
  have "jl_getAsDouble L (?sign @ t) = Some d"
  proof (cases "m = 0")
    case True
    with assms(2) show ?thesis by (simp add: Finite reads_back_def t_def)
  next
    case False
    then have "\<forall>t y. decimal_value t = Some y \<and> same_number (sig, x) y \<longrightarrow>
        jl_getAsDouble L (?sign @ t) = Some d"
      using assms(2) by (simp only: Finite reads_back_def double.case if_False x)
    with decimal_text_value [of sig x] False show ?thesis by (auto simp only: t_def x prod.case if_False)
  qed
  moreover have "?sign @ t \<notin> {''NaN'', ''Infinity'', ''-Infinity''}"
    using c by (auto simp: is_digit_iff split: if_splits)
  ultimately show ?thesis
    unfolding ft by (simp add: special_object_def)
qed

lemma bytes_special: "special_object L [(''base64'', String (encodeWithoutPrefix base64pad bs))] = Inr (Bytes bs)"
  by (simp add: special_object_def decodeWithoutPrefix_encode AllBases_def)

lemma plain_base64: "plain_text (encodeWithoutPrefix base64pad bs)"
proof (rule plain_subset)
  show "plain_text (''='' @ mb_chars base64pad)" by (simp add: base64pad_def)
  have pad: "mb_pad base64pad = Some CHR ''=''" by (simp add: base64pad_def)
  have "alphabet_ok base64pad" by (rule AllBases_alphabet_ok) (simp add: AllBases_def)
  from set_encodeWithoutPrefix [OF this, of bs]
  show "set (encodeWithoutPrefix base64pad bs) \<subseteq> set (''='' @ mb_chars base64pad)"
    unfolding pad set_append by (simp only: option.set list.set Un_commute)
qed

lemma link_special:
  assumes "wf_cid c"
  shows "special_object L [(''cid'', String (asString base64url c))] = Inr (Link c)"
proof -
  have "starts_with ''u'' (asString base64url c)"
    by (simp add: asString_def mb_encode_def base64url_def)
  with cid_parse_base64url [OF assms] show ?thesis by (simp add: special_object_def)
qed

lemma plain_cid: "plain_text (asString base64url c)"
proof (rule plain_subset)
  show "plain_text (CHR ''u'' # mb_chars base64url)" by (simp add: base64url_def)
  show "set (asString base64url c) \<subseteq> set (CHR ''u'' # mb_chars base64url)"
    using asString_chars [of c] by (simp only: list.set)
qed

subsection \<open>Round trip\<close>

text \<open>
  What comes back: positive integers in their unsigned form and zero in the signed one.
\<close>

fun json_norm :: "node \<Rightarrow> node"
and json_norm_items :: "node list \<Rightarrow> node list"
and json_norm_members :: "(string \<times> node) list \<Rightarrow> (string \<times> node) list" where
  "json_norm (Int64 v) = (if sint v \<le> 0 then Int64 v else UInt64 v)"
| "json_norm (UInt64 v) = (if v = 0 then Int64 0 else UInt64 v)"
| "json_norm (List xs) = List (json_norm_items xs)"
| "json_norm (Map ms) = Map (json_norm_members ms)"
| "json_norm n = n"
| "json_norm_items [] = []"
| "json_norm_items (x # xs) = json_norm x # json_norm_items xs"
| "json_norm_members [] = []"
| "json_norm_members ((k, v) # ms) = (k, json_norm v) # json_norm_members ms"

fun node_floats :: "node \<Rightarrow> double list"
and items_floats :: "node list \<Rightarrow> double list"
and members_floats :: "(string \<times> node) list \<Rightarrow> double list" where
  "node_floats (Float d) = [d]"
| "node_floats (List xs) = items_floats xs"
| "node_floats (Map ms) = members_floats ms"
| "node_floats _ = []"
| "items_floats [] = []"
| "items_floats (x # xs) = node_floats x @ items_floats xs"
| "members_floats [] = []"
| "members_floats ((k, v) # ms) = node_floats v @ members_floats ms"

lemma json_norm_keys: "map fst (json_norm_members ms) = map fst ms"
proof (induction ms)
  case (Cons kv ms)
  then show ?case by (cases kv) simp
qed simp

lemma length_jtext_pos: "length (jtext L n) \<ge> 1"
  by (cases n) (simp_all add: show_int_def json_quote_def Suc_le_eq)

lemma special_text:
  assumes "parses_strings L utf8" and "plain_text key" and "plain_text t"
    and "special_object L [(key, String t)] = Inr n"
  shows "consumeJSON L utf8 (Suc (Suc (Suc fuel))) True (CHR ''{'' # json_quote key @ CHR '':'' # DQ # t @ DQ # CHR ''}'' # rest)
       = Some (Inr (n, rest))"
proof -
  have "consumeJSON L utf8 (Suc fuel) False (DQ # t @ DQ # CHR ''}'' # rest) = Some (Inr (String t, CHR ''}'' # rest))"
    by (rule consume_string [OF consumeJSONString_plain plain_text_utf8]) (use assms in simp_all)
  from consume_one_member [OF assms(1) plain_text_utf8 [OF assms(1,2)] this] assms(4) show ?thesis by simp
qed

lemma consume_scalar:
  assumes "wf_node utf8 n" and "\<forall>d \<in> set (node_floats n). reads_back L d" and "parses_strings L utf8"
    and "ends_number rest" and "kind n \<noteq> KList" and "kind n \<noteq> KMap" and "2 * length (jtext L n) < fuel"
  shows "consumeJSON L utf8 fuel True (jtext L n @ rest) = Some (Inr (json_norm n, rest))"
proof -
  obtain f where f: "fuel = Suc f" using assms(7) by (cases fuel) auto
  have long: "\<exists>g. fuel = Suc (Suc (Suc g))" if "length (jtext L n) \<ge> 2"
    using that assms(7) by (cases fuel; cases "fuel - 1"; cases "fuel - 2") auto
  show ?thesis
  proof (cases n)
    case (Int64 v)
    then show ?thesis using consume_Int64 [OF assms(4), of L utf8 f True v] by (simp add: f)
  next
    case (UInt64 v)
    then show ?thesis using consume_UInt64 [OF assms(4), of L utf8 f True v] by (simp add: f)
  next
    case (Float d)
    with long obtain g where g: "fuel = Suc (Suc (Suc g))" by auto
    have "special_object L [(''float'', String (float_text L d))] = Inr (Float d)"
      using assms(1,2) by (intro float_text_special) (simp_all add: Float)
    from special_text [OF assms(3) _ plain_float_text this, of g rest] show ?thesis by (simp add: Float g)
  next
    case (Bytes bs)
    with long obtain g where g: "fuel = Suc (Suc (Suc g))" by auto
    from special_text [OF assms(3) _ plain_base64 bytes_special [of L bs], of g rest] show ?thesis by (simp add: Bytes g)
  next
    case (String s)
    have "consumeJSONString L (json_quote s @ rest) = Inr (s, rest)"
      using assms(1) by (intro consumeJSONString_quote [OF assms(3)]) (simp add: String)
    then show ?thesis
      using consume_string [of L "concat (map json_escape s) @ DQ # rest" s rest utf8 f True] assms(1)
      by (simp add: String f json_quote_def)
  next
    case (Link c)
    with long obtain g where g: "fuel = Suc (Suc (Suc g))" by auto
    have "special_object L [(''cid'', String (asString base64url c))] = Inr (Link c)"
      using assms(1) by (intro link_special) (simp add: Link)
    from special_text [OF assms(3) _ plain_cid this, of g rest] show ?thesis by (simp add: Link g)
  qed (use assms(5,6) in \<open>simp_all add: f consume_switch_def skip_Cons\<close>)
qed

lemma try_emplace_last:
  assumes "\<forall>k \<in> fst ` set ms. key_compare k name"
  shows "try_emplace ms name v = (ms @ [(name, v)], length ms, True)"
proof -
  have "lower_bound ms name = length ms"
    using assms by (induction ms) (auto simp: lower_bound_Cons)
  then show ?thesis by (simp add: try_emplace_def)
qed

lemma jtext_items_False: "jtext_items L False xs = (if xs = [] then [] else CHR '','' # jtext_items L True xs)"
  by (cases xs) simp_all

lemma jtext_members_False: "jtext_members L False ms = (if ms = [] then [] else CHR '','' # jtext_members L True ms)"
proof (cases ms)
  case (Cons kv ms')
  then show ?thesis by (cases kv) simp
qed simp

lemma jtext_first:
  obtains c cs where "jtext L n = c # cs" "c \<notin> {CHR '' '', CHR 0x09, CHR 0x0D, CHR 0x0A}" "c \<noteq> CHR '']''"
proof -
  have num: "\<exists>c cs. show_nat k = c # cs \<and> c \<notin> {CHR '' '', CHR 0x09, CHR 0x0D, CHR 0x0A} \<and> c \<noteq> CHR '']''" for k
  proof -
    obtain c cs where "show_nat k = c # cs" by (cases "show_nat k") auto
    moreover from this have "is_digit c" using show_nat_is_digit [of c k] by simp
    moreover from this have "c \<noteq> CHR '']''" by auto
    ultimately show ?thesis using is_digit_not_space by blast
  qed
  have "\<exists>c cs. jtext L n = c # cs \<and> c \<notin> {CHR '' '', CHR 0x09, CHR 0x0D, CHR 0x0A} \<and> c \<noteq> CHR '']''"
  proof (cases n)
    case (Int64 v)
    then show ?thesis using num by (simp add: show_int_def)
  next
    case (UInt64 v)
    then show ?thesis using num by simp
  qed (simp_all add: json_quote_def)
  with that show thesis by blast
qed

lemma consume_list:
  assumes "xs \<noteq> [] \<Longrightarrow> consume_items L utf8 fuel [] (jtext_items L True xs @ CHR '']'' # rest) = Some (Inr (ys, CHR '']'' # rest))"
    and "xs = [] \<Longrightarrow> ys = []"
  shows "consumeJSON L utf8 (Suc fuel) special (jtext L (List xs) @ rest) = Some (Inr (List ys, rest))"
proof (cases xs)
  case Nil
  with assms(2) show ?thesis by (simp add: consume_switch_def skip_Cons)
next
  case (Cons x xs')
  obtain c cs where c: "jtext L x = c # cs" "c \<notin> {CHR '' '', CHR 0x09, CHR 0x0D, CHR 0x0A}" "c \<noteq> CHR '']''"
    by (rule jtext_first)
  have "skipJSONSpace (c # cs @ t) = c # cs @ t" for t using c(2) by (rule skip_Cons)
  with c assms(1) show ?thesis by (simp add: Cons consume_switch_def skip_Cons)
qed

lemma consume_map:
  assumes "ms \<noteq> [] \<Longrightarrow> consume_members L utf8 fuel False [] (jtext_members L True ms @ CHR ''}'' # CHR ''}'' # rest)
      = Some (Inr (ns, CHR ''}'' # CHR ''}'' # rest))"
    and "ms = [] \<Longrightarrow> ns = []" and "parses_strings L utf8"
  shows "consumeJSON L utf8 (Suc (Suc (Suc fuel))) True (jtext L (Map ms) @ rest) = Some (Inr (Map ns, rest))"
proof -
  have "consumeJSON L utf8 (Suc fuel) False (CHR ''{'' # jtext_members L True ms @ CHR ''}'' # CHR ''}'' # rest)
      = Some (Inr (Map ns, CHR ''}'' # rest))"
  proof (cases ms)
    case Nil
    with assms(2) show ?thesis by (simp add: consume_switch_def skip_Cons)
  next
    case (Cons kv ms')
    with assms(1) show ?thesis
      by (cases kv) (simp add: consume_switch_def skip_Cons json_quote_def)
  qed
  moreover have "utf8 ''map''" by (rule plain_text_utf8 [OF assms(3)]) simp
  ultimately show ?thesis
    using consume_one_member [OF assms(3), of "''map''" "Suc fuel"] by (simp add: special_object_def)
qed

lemma consume_roundtrip:
  assumes ok: "parses_strings L utf8"
  shows "wf_node utf8 n \<Longrightarrow> \<forall>d \<in> set (node_floats n). reads_back L d \<Longrightarrow> ends_number rest \<Longrightarrow>
      2 * length (jtext L n) < fuel \<Longrightarrow>
      consumeJSON L utf8 fuel True (jtext L n @ rest) = Some (Inr (json_norm n, rest))"
    and "wf_items utf8 xs \<Longrightarrow> \<forall>d \<in> set (items_floats xs). reads_back L d \<Longrightarrow> xs \<noteq> [] \<Longrightarrow>
      2 * length (jtext_items L True xs) + 1 < fuel \<Longrightarrow>
      consume_items L utf8 fuel acc (jtext_items L True xs @ CHR '']'' # rest)
        = Some (Inr (acc @ json_norm_items xs, CHR '']'' # rest))"
    and "wf_members utf8 ms \<Longrightarrow> \<forall>d \<in> set (members_floats ms). reads_back L d \<Longrightarrow> ms \<noteq> [] \<Longrightarrow>
      nm_sorted (macc @ json_norm_members ms) \<Longrightarrow> 2 * length (jtext_members L True ms) + 1 < fuel \<Longrightarrow>
      consume_members L utf8 fuel False macc (jtext_members L True ms @ CHR ''}'' # rest)
        = Some (Inr (macc @ json_norm_members ms, CHR ''}'' # rest))"
proof (induction n and xs and ms arbitrary: fuel rest and acc fuel rest and macc fuel rest
    rule: json_norm_json_norm_items_json_norm_members.induct)
  case (3 xs)
  then obtain f where f: "fuel = Suc f" by (cases fuel) auto
  show ?case unfolding f json_norm.simps
    by (rule consume_list) (use 3 in \<open>simp_all add: f\<close>)
next
  case (4 ms)
  then obtain f where f: "fuel = Suc (Suc (Suc f))"
    by (cases fuel; cases "fuel - 1"; cases "fuel - 2") auto
  have "nm_sorted (json_norm_members ms)" using 4 by (simp add: nm_sorted_def json_norm_keys)
  then show ?case unfolding f json_norm.simps
    by (intro consume_map ok) (use 4 in \<open>simp_all add: f\<close>)
next
  case (7 x xs)
  then obtain f where f: "fuel = Suc f" by (cases fuel) auto
  have x: "consumeJSON L utf8 f True (jtext L x @ jtext_items L False xs @ CHR '']'' # rest)
      = Some (Inr (json_norm x, jtext_items L False xs @ CHR '']'' # rest))"
    using 7 by (intro 7) (auto simp: f ends_number_def jtext_items_False)
  show ?case
  proof (cases "xs = []")
    case True
    with x show ?thesis by (simp add: f skip_Cons)
  next
    case False
    have "2 * length (jtext_items L True xs) + 1 < f"
      using 7(6) False length_jtext_pos [of L x] by (simp add: f jtext_items_False)
    then have "consume_items L utf8 f (acc @ [json_norm x]) (jtext_items L True xs @ CHR '']'' # rest)
        = Some (Inr ((acc @ [json_norm x]) @ json_norm_items xs, CHR '']'' # rest))"
      using 7 False by (intro 7) auto
    with x False show ?thesis by (simp add: f skip_Cons jtext_items_False)
  qed
next
  case (9 k v ms)
  then obtain f where f: "fuel = Suc f" by (cases fuel) auto
  have key: "consumeJSONString L (json_quote k @ r) = Inr (k, r)" for r
    using 9 by (intro consumeJSONString_quote [OF ok]) simp
  have v: "consumeJSON L utf8 f True (jtext L v @ jtext_members L False ms @ CHR ''}'' # rest)
      = Some (Inr (json_norm v, jtext_members L False ms @ CHR ''}'' # rest))"
    using 9 by (intro 9) (auto simp: f ends_number_def jtext_members_False json_quote_def)
  have ins: "try_emplace macc k (json_norm v) = (macc @ [(k, json_norm v)], length macc, True)"
    using 9 by (intro try_emplace_last) (auto simp: nm_sorted_append)
  show ?case
  proof (cases "ms = []")
    case True
    with v ins show ?thesis by (simp add: f key skip_Cons)
  next
    case False
    have "2 * length (jtext_members L True ms) + 1 < f"
      using 9(7) False length_jtext_pos [of L v] by (simp add: f jtext_members_False json_quote_def)
    then have "consume_members L utf8 f False (macc @ [(k, json_norm v)]) (jtext_members L True ms @ CHR ''}'' # rest)
        = Some (Inr ((macc @ [(k, json_norm v)]) @ json_norm_members ms, CHR ''}'' # rest))"
      using 9 False by (intro 9) auto
    with v ins False show ?thesis by (simp add: f key skip_Cons jtext_members_False)
  qed
qed ((rule consume_scalar [OF _ _ ok], assumption, assumption, assumption, simp, simp, assumption) | simp)+

lemma loadFromJSON_saved:
  assumes "parses_strings L utf8" and "wf_node utf8 n" and "\<forall>d \<in> set (node_floats n). reads_back L d"
  shows "loadFromJSON L utf8 (jtext L n) = Inr (json_norm n)"
proof -
  have "ends_number []" by (simp add: ends_number_def)
  then have "consumeJSON L utf8 (Suc (2 * length (jtext L n))) True (jtext L n @ []) = Some (Inr (json_norm n, []))"
    using consume_roundtrip(1) [OF assms(1,2,3)] by blast
  then show ?thesis
    by (simp add: loadFromJSON_def skipJSONSpace_def del: consumeJSON.simps)
qed

lemma jtext_norm:
  "jtext L (json_norm n) = jtext L n"
  "jtext_items L first (json_norm_items xs) = jtext_items L first xs"
  "jtext_members L first (json_norm_members ms) = jtext_members L first ms"
proof (induction n and xs and ms arbitrary: and first and first
    rule: json_norm_json_norm_items_json_norm_members.induct)
  case (1 v)
  have "show_int (sint v) = show_nat (unat v)" if "0 < sint v"
    using that sint_nonneg_uint [of v] by (simp add: show_int_def nat_uint_eq [symmetric])
  then show ?case by simp
next
  case (2 v)
  show ?case by (simp add: show_int_def)
qed simp_all

text \<open>
  C35: reading the JSON text that was written for a node gives the node back: maps, lists,
  strings with every escape, byte strings, links, floating-point numbers in each of the
  four decimal notations. Only the representation of nonnegative integers changes, and
  writing the node that was read gives the same text again.
\<close>

theorem json_roundtrip:
  assumes "parses_strings L utf8" and "wf_node utf8 n" and "\<forall>d \<in> set (node_floats n). reads_back L d"
  shows "loadFromJSON L utf8 (saveAsJSON L n) = Inr (json_norm n)
    \<and> saveAsJSON L (json_norm n) = saveAsJSON L n"
  using loadFromJSON_saved [OF assms] by (simp add: saveAsJSON_jtext jtext_norm)

text \<open>A library for one number, 1.5, which is 15 times a tenth.\<close>

definition example_lib :: json_lib where
  "example_lib =
     \<lparr>jl_parse = (\<lambda>t. json_unescape (butlast (drop 1 t))),
      jl_getAsDouble = (\<lambda>t.
        case decimal_value t of
          Some x \<Rightarrow> if same_number (15, -1) x then Some (Finite False (3 * 2 ^ 51) (-52)) else None
        | None \<Rightarrow> None),
      jl_to_decimal = (\<lambda>_. (15, -1))\<rparr>"

lemma example_lib_strings: "parses_strings example_lib (\<lambda>_. True)"
  by (simp add: parses_strings_def example_lib_def butlast_append)

theorem json_roundtrip_witness:
  "loadFromJSON example_lib (\<lambda>_. True)
     (saveAsJSON example_lib (Map [(''k'', List [Int64 7, Float (Finite False (3 * 2 ^ 51) (-52))])]))
   = Inr (Map [(''k'', List [UInt64 7, Float (Finite False (3 * 2 ^ 51) (-52))])])"
proof -
  let ?n = "Map [(''k'', List [Int64 7, Float (Finite False (3 * 2 ^ 51) (-52))])]"
  have "wf_node (\<lambda>_. True) ?n" by (simp add: wf_double_def nm_sorted_def)
  moreover have "\<forall>d \<in> set (node_floats ?n). reads_back example_lib d"
    by (simp add: reads_back_def example_lib_def)
  ultimately show ?thesis
    using json_roundtrip [OF example_lib_strings, of ?n] by simp
qed

text \<open>
  C36: the JSON reader terminates on every text, well formed or not: the recursion and the
  loops over list elements and object members need at most twice as many steps as the
  text has characters.
\<close>

theorem json_terminates:
  "\<exists>r. consumeJSON L utf8 (Suc (2 * length json)) special json = Some r"
  using consume_enough(1) [of json "Suc (2 * length json)" L utf8 special] by blast

subsection \<open>Nodes that are read are well formed\<close>

definition lib_sound :: "json_lib \<Rightarrow> (string \<Rightarrow> bool) \<Rightarrow> bool" where
  "lib_sound L utf8 \<longleftrightarrow>
     (\<forall>t s. jl_parse L t = Some s \<longrightarrow> utf8 s \<and> length s \<le> length t) \<and>
     (\<forall>t d. jl_getAsDouble L t = Some d \<longrightarrow> wf_double d)"

lemma cid_parse_wf: "cid_parse t = Some c \<Longrightarrow> wf_cid c"
  by (auto simp: cid_parse_def split: option.splits dest: cid_fromBytes_cases)

lemma consumeJSONString_wf:
  assumes "lib_sound L utf8" and "consumeJSONString L json = Inr (str, rest)"
  shows "utf8 str" "length str \<le> length json"
proof -
  from assms(2) obtain i where i: "jl_parse L (take (i + 2) (skipJSONSpace json)) = Some str"
    by (auto simp: consumeJSONString_def Let_def split: if_splits option.splits)
  with assms(1) have "utf8 str" "length str \<le> length (take (i + 2) (skipJSONSpace json))"
    unfolding lib_sound_def by blast+
  with length_skip [of json] show "utf8 str" "length str \<le> length json" by simp_all
qed

lemma special_object_wf:
  assumes "lib_sound L utf8" and "wf_members utf8 ms" and "special_object L ms = Inr n"
  shows "wf_node utf8 n"
proof -
  obtain key v where ms: "ms = [(key, v)]"
    using assms(3) by (auto simp: special_object_def split: list.splits)
  have v: "wf_node utf8 v" using assms(2) ms by simp
  have b: "bits_per_char base64pad \<le> 8" by (simp add: base64pad_def)
  show ?thesis
    using assms(1,3) v
    by (auto simp: ms special_object_def lib_sound_def wf_double_def split: node.splits if_splits option.splits
        dest: cid_parse_wf decodeWithoutPrefix_length [OF _ b])
qed

lemma wf_map_snoc:
  assumes "wf_node utf8 (Map ms)" and "wf_node utf8 v" and "utf8 k" and "length k < 2 ^ 64"
    and "length ms + 1 < 2 ^ 64" and "try_emplace ms k v = (ms', it, True)"
  shows "wf_node utf8 (Map ms')" "length ms' \<le> Suc (length ms)"
proof -
  have ms': "ms' = fst (insert_or_assign ms k v)"
    using try_emplace_new(1) [of ms k v] assms(6) by simp
  show "wf_node utf8 (Map ms')" unfolding ms' by (rule wf_insert_or_assign) (use assms in simp_all)
  show "length ms' \<le> Suc (length ms)" unfolding ms' by (rule length_insert_or_assign)
qed

lemma consume_switch_wf:
  assumes "lib_sound L utf8" and "length json < 2 ^ 64"
    and "consume_switch L utf8 items members special json = Some (Inr (n, rest))"
    and "\<And>b xs r. items b = Some (Inr (xs, r)) \<Longrightarrow> length b < length json \<Longrightarrow> wf_node utf8 (List xs)"
    and "\<And>b ms r. members b = Some (Inr (ms, r)) \<Longrightarrow> length b < length json \<Longrightarrow> wf_node utf8 (Map ms)"
  shows "wf_node utf8 n"
proof -
  obtain c cs where j: "skipJSONSpace json = c # cs"
    using assms(3) by (cases "skipJSONSpace json") (auto simp: consume_switch_def)
  have len: "length (skipJSONSpace cs) < length json"
    using length_skip [of json] length_skip [of cs] j by simp
  note sw = assms(3) [unfolded consume_switch_def Let_def j list.case]
  consider "c = CHR ''[''" | "c = CHR ''{''" | "c = DQ" | "c \<noteq> CHR ''['' \<and> c \<noteq> CHR ''{'' \<and> c \<noteq> DQ" by blast
  then show ?thesis
  proof cases
    case 1
    with sw obtain xs r where "n = List xs" "xs = [] \<or> items (skipJSONSpace cs) = Some (Inr (xs, r))"
      by (auto simp: and_then_Inr_iff split: if_splits)
    with assms(4) [OF _ len] show ?thesis by auto
  next
    case 2
    with sw obtain ms r where ms: "ms = [] \<or> members (skipJSONSpace cs) = Some (Inr (ms, r))"
      and n: "n = Map ms \<or> special_object L ms = Inr n"
      by (auto simp: and_then_Inr_iff then_do_Inr_iff split: if_splits)
    from ms assms(5) [OF _ len] have wf: "wf_node utf8 (Map ms)" by (auto simp: nm_sorted_def)
    with n special_object_wf [OF assms(1), of ms n] show ?thesis by auto
  next
    case 3
    with sw obtain str where str: "consumeJSONString L (DQ # cs) = Inr (str, rest)" "n = String str" "utf8 str"
      by (auto simp: then_do_Inr_iff node_of_string_def map_sum_Inr_iff split: if_splits)
    with consumeJSONString_wf [OF assms(1) str(1)] assms(2) j 3 length_skip [of json] show ?thesis by simp
  next
    case 4
    with sw show ?thesis by (auto split: if_splits option.splits)
  qed
qed

lemma consume_wf:
  assumes "lib_sound L utf8"
  shows "consumeJSON L utf8 fuel special json = Some (Inr (n, rest)) \<Longrightarrow> length json < 2 ^ 64 \<Longrightarrow> wf_node utf8 n"
    and "consume_items L utf8 fuel xs json = Some (Inr (xs', rest)) \<Longrightarrow> wf_items utf8 xs \<Longrightarrow>
      length xs + length json < 2 ^ 64 \<Longrightarrow> wf_node utf8 (List xs')"
    and "consume_members L utf8 fuel special ms json = Some (Inr (ms', rest)) \<Longrightarrow> wf_node utf8 (Map ms) \<Longrightarrow>
      length ms + length json < 2 ^ 64 \<Longrightarrow> wf_node utf8 (Map ms')"
proof (induction fuel arbitrary: special json n rest xs xs' ms ms')
  case (Suc fuel)
  { case 1
    then have "consume_switch L utf8 (consume_items L utf8 fuel []) (consume_members L utf8 fuel special [])
        special json = Some (Inr (n, rest))" by simp
    from consume_switch_wf [OF assms 1(2) this] Suc.IH(2) [of "[]"] Suc.IH(3) [of special "[]"] 1(2)
    show ?case by (simp add: nm_sorted_def)
  next
    case 2
    then obtain v r where v: "consumeJSON L utf8 fuel True json = Some (Inr (v, r))"
      and k: "(if starts_with '','' (skipJSONSpace r)
          then consume_items L utf8 fuel (xs @ [v]) (drop 1 (skipJSONSpace r))
          else Some (Inr (xs @ [v], skipJSONSpace r))) = Some (Inr (xs', rest))"
      by (auto simp: and_then_Inr_iff Let_def)
    have "wf_node utf8 v" using 2 by (intro Suc.IH(1) [OF v]) simp
    then have "wf_items utf8 (xs @ [v])" using 2 by (simp add: wf_items_iff)
    moreover have "length (xs @ [v]) + length (drop 1 (skipJSONSpace r)) < 2 ^ 64" "length (xs @ [v]) < 2 ^ 64"
      using 2 consume_rest(1) [OF v] length_skip [of r] by simp_all
    ultimately show ?case
      using k Suc.IH(2) [of "xs @ [v]" "drop 1 (skipJSONSpace r)" xs' rest] by (auto split: if_splits)
  next
    case 3
    then obtain key r v r' where key: "consumeJSONString L json = Inr (key, r)"
      and v: "consumeJSON L utf8 fuel (\<not> special) (drop 1 (skipJSONSpace r)) = Some (Inr (v, r'))"
      and ins: "snd (snd (try_emplace ms key v))"
      and k: "(if starts_with '','' (skipJSONSpace r')
          then consume_members L utf8 fuel special (fst (try_emplace ms key v)) (drop 1 (skipJSONSpace r'))
          else Some (Inr (fst (try_emplace ms key v), skipJSONSpace r'))) = Some (Inr (ms', rest))"
      by (auto simp: and_then_Inr_iff Let_def case_prod_beta split: if_splits)
    obtain ns it where ns: "try_emplace ms key v = (ns, it, True)"
      using ins by (cases "try_emplace ms key v") auto
    have len: "length (drop 1 (skipJSONSpace r)) < 2 ^ 64" "length ms + 1 < 2 ^ 64" "length key < 2 ^ 64"
      "length (skipJSONSpace r') + Suc (length ms) < 2 ^ 64"
      using 3 consumeJSONString_rest [OF key] consumeJSONString_wf(2) [OF assms key] consume_rest(1) [OF v]
        length_skip [of r] length_skip [of r'] by simp_all
    have "wf_node utf8 v" using len by (intro Suc.IH(1) [OF v]) simp
    note snoc = wf_map_snoc [OF 3(2) this consumeJSONString_wf(1) [OF assms key] len(3,2) ns]
    have "length ns + length (drop 1 (skipJSONSpace r')) < 2 ^ 64" using snoc(2) len(4) by simp
    with snoc k ns show ?case
      using Suc.IH(3) [of special ns "drop 1 (skipJSONSpace r')" ms' rest] by (auto split: if_splits) }
qed simp_all

lemma loadFromJSON_wf:
  assumes "lib_sound L utf8" and "loadFromJSON L utf8 json = Inr n" and "length json < 2 ^ 64"
  shows "wf_node utf8 n"
proof -
  obtain r where r: "consumeJSON L utf8 (Suc (2 * length json)) True json = Some r"
    using consume_enough(1) [of json "Suc (2 * length json)" L utf8 True] by blast
  with assms(2) obtain rest where "r = Inr (n, rest)"
    by (auto simp: loadFromJSON_def then_do_Inr_iff split: if_splits simp del: consumeJSON.simps)
  with consume_wf(1) [OF assms(1)] r assms(3) show ?thesis by blast
qed

end
