(* ===== verification/Requests.thy ===== *)
theory Requests
  imports Memo_Store JSON
begin

section \<open>Request: what the server is asked and how it answers\<close>

text \<open>
  The abstract class \<^verbatim>\<open>Request\<close> of \<^verbatim>\<open>memodb/include/memodb/Request.h\<close> and its functions in
  \<^verbatim>\<open>memodb/lib/Request.cpp\<close>. The record \<open>request_ops\<close> is the table of virtual functions over
  the state of a request, which includes what has been sent so far; \<^verbatim>\<open>HTTPRequest\<close> and the
  \<^verbatim>\<open>CLIRequest\<close> of the command-line tool are its implementations. \<^verbatim>\<open>xxHash64\<close> and the JSON
  library are parameters.

  The locale \<open>request_impl\<close> is the contract between the server and a request: a request is
  \<open>ready\<close>, then perhaps \<open>started\<close> (a status and headers are out), then \<open>finished\<close>, and each
  virtual function may be called in one of these states only. Its lemmas show that
  \<^verbatim>\<open>sendContentNode\<close> and \<^verbatim>\<open>sendContentURIs\<close> keep to it on every path.
\<close>

datatype req_method = GET | POST | PUT | DELETE

datatype content_type = Plain | OctetStream | JSONType | CBORType | HTMLType | ProblemJSON

fun content_code :: "content_type \<Rightarrow> nat" where
  "content_code Plain = 0"
| "content_code OctetStream = 42"
| "content_code JSONType = 50"
| "content_code CBORType = 60"
| "content_code HTMLType = 65000"
| "content_code ProblemJSON = 65001"

datatype req_status =
    BadRequest | NotFound | MethodNotAllowed | UnsupportedMediaType | NotImplemented | ServiceUnavailable

fun status_code :: "req_status \<Rightarrow> nat" where
  "status_code BadRequest = 400"
| "status_code NotFound = 404"
| "status_code MethodNotAllowed = 405"
| "status_code UnsupportedMediaType = 415"
| "status_code NotImplemented = 501"
| "status_code ServiceUnavailable = 503"

datatype cache_control = Ephemeral | Mutable | Immutable

record 'q request_ops =
  rq_method :: "'q \<Rightarrow> req_method option"
  rq_uri :: "'q \<Rightarrow> uri option"
  rq_responded :: "'q \<Rightarrow> bool"
  rq_getContentNode :: "'q \<Rightarrow> node option \<Rightarrow> abort + node option \<times> 'q"
  rq_chooseNodeContentType :: "'q \<Rightarrow> node \<Rightarrow> abort + content_type"
  rq_sendETag :: "'q \<Rightarrow> u64 \<Rightarrow> cache_control \<Rightarrow> bool \<times> 'q"
  rq_sendContent :: "'q \<Rightarrow> content_type \<Rightarrow> string \<Rightarrow> abort + 'q"
  rq_sendAccepted :: "'q \<Rightarrow> 'q"
  rq_sendCreated :: "'q \<Rightarrow> uri option \<Rightarrow> abort + 'q"
  rq_sendDeleted :: "'q \<Rightarrow> 'q"
  rq_sendError :: "'q \<Rightarrow> req_status \<Rightarrow> string option \<Rightarrow> string \<Rightarrow> string option \<Rightarrow> abort + 'q"
  rq_sendMethodNotAllowed :: "'q \<Rightarrow> string \<Rightarrow> abort + 'q"

record req_lib =
  rl_json :: json_lib
  rl_xxHash64 :: "bytes \<Rightarrow> u64"

abbreviation NL :: char where "NL \<equiv> CHR 0x0A"

definition escapeForHTML :: "string \<Rightarrow> string" where
  "escapeForHTML str =
     concat (map (\<lambda>c. if c = CHR ''<'' then ''&lt;'' else if c = DQ then ''&quot;'' else [c]) str)"

subsection \<open>CustomJSONEncoder\<close>

text \<open>
  A visitor whose callbacks can abort is a visitor over a sum; \<open>lift_visitor\<close> makes one of
  a visitor that cannot. \<^verbatim>\<open>CustomJSONEncoder\<close> overrides \<^verbatim>\<open>visitLink\<close>: up to the given depth it
  writes the linked node, which it takes from the store.
\<close>

definition lift_visitor :: "'s visitor \<Rightarrow> ('e + 's) visitor" where
  "lift_visitor V =
     \<lparr>beforeNode = map_sum id (beforeNode V),
      visitNull = map_sum id (visitNull V),
      visitBoolean = (\<lambda>b. map_sum id (visitBoolean V b)),
      visitInt64 = (\<lambda>v. map_sum id (visitInt64 V v)),
      visitUInt64 = (\<lambda>v. map_sum id (visitUInt64 V v)),
      visitFloat = (\<lambda>d. map_sum id (visitFloat V d)),
      visitString = (\<lambda>str. map_sum id (visitString V str)),
      visitBytes = (\<lambda>bs. map_sum id (visitBytes V bs)),
      visitLink = (\<lambda>c. map_sum id (visitLink V c)),
      startList = (\<lambda>xs. map_sum id (startList V xs)),
      endList = map_sum id (endList V),
      startMap = (\<lambda>ms. map_sum id (startMap V ms)),
      visitKey = (\<lambda>k. map_sum id (visitKey V k)),
      endMap = map_sum id (endMap V)\<rparr>"

fun custom_visitor :: "json_lib \<Rightarrow> (cid \<Rightarrow> abort + node) \<Rightarrow> nat \<Rightarrow> (abort + json_state) visitor" where
  "custom_visitor L get 0 = lift_visitor (json_visitor L)"
| "custom_visitor L get (Suc depth) =
     (lift_visitor (json_visitor L))\<lparr>visitLink := (\<lambda>c st. then_do st (\<lambda>s. then_do (get c) (\<lambda>n.
        then_do (visitNode (custom_visitor L get depth) n
                  (Inr ((js_put ([CHR ''{'', DQ] @ ''node'' @ [DQ, CHR '':'']) s)\<lparr>js_first := True\<rparr>)))
          (\<lambda>s. Inr (js_put ''}'' s)))))\<rparr>"

definition custom_json :: "json_lib \<Rightarrow> (cid \<Rightarrow> abort + node) \<Rightarrow> nat \<Rightarrow> node \<Rightarrow> abort + string" where
  "custom_json L get depth n = map_sum id js_os (visitNode (custom_visitor L get depth) n (Inr json_init))"

subsection \<open>Sending nodes and lists of URIs\<close>

definition query_depth :: "uri option \<Rightarrow> nat" where
  "query_depth u =
     (case u of
        None \<Rightarrow> 0
      | Some u \<Rightarrow>
          foldl (\<lambda>depth query_param.
            if starts_with ''depth='' query_param then
              (case getAsInteger 32 10 (drop 6 query_param) of Some d \<Rightarrow> d | None \<Rightarrow> depth)
            else depth) 0 (query_params u))"

definition html_head :: string where
  "html_head = ''<!DOCTYPE html>'' @ [NL] @
     ''<script src=\"https://unpkg.com/jquery@3.6/dist/jquery.min.js\"></script>'' @ [NL] @
     ''<script src=\"https://unpkg.com/jquery.json-viewer@1.4/json-viewer/jquery.json-viewer.js\"></script>'' @ [NL] @
     ''<link href=\"https://unpkg.com/jquery.json-viewer@1.4/json-viewer/jquery.json-viewer.css\" type=\"text/css\" rel=\"stylesheet\">'' @ [NL] @
     ''<script>'' @ [NL] @
     ''  $(function() {'' @ [NL] @
     ''    $('' @ [CHR 0x27] @ ''pre'' @ [CHR 0x27] @ '').jsonViewer(JSON.parse($('' @ [CHR 0x27] @ ''pre'' @ [CHR 0x27]
        @ '').text()), {withQuotes:true});'' @ [NL] @
     ''  });'' @ [NL] @
     ''</script>'' @ [NL] @
     ''<title>''"

definition node_body ::
    "req_lib \<Rightarrow> (cid \<Rightarrow> abort + node) \<Rightarrow> nat \<Rightarrow> content_type \<Rightarrow> node \<Rightarrow> cid option \<Rightarrow> abort + content_type \<times> string" where
  "node_body X get depth ct n cid_if_known =
     (case ct of
        OctetStream \<Rightarrow> then_do (map_sum NodeFatal id (as_byte_string n)) (\<lambda>b. Inr (ct, b))
      | CBORType \<Rightarrow> Inr (ct, of_bytes (saveAsCBOR n))
      | HTMLType \<Rightarrow>
          (let cid_string = (case cid_if_known of None \<Rightarrow> ''MemoDB Node'' | Some c \<Rightarrow> asString base64url c)
           in Inr (ct, html_head @ cid_string @ ''</title>'' @ [NL] @ ''<h1>'' @ cid_string @ ''</h1>'' @ [NL]
                @ ''<pre>'' @ escapeForHTML (saveAsJSON (rl_json X) n) @ ''</pre>'' @ [NL]))
      | Plain \<Rightarrow>
          (case n of
             Link c \<Rightarrow> then_do (map_sum Undefined id (name_text (CIDName c))) (\<lambda>b. Inr (ct, b @ [NL]))
           | _ \<Rightarrow> Inr (ct, saveAsJSON (rl_json X) n @ [NL]))
      | _ \<Rightarrow> then_do (custom_json (rl_json X) get depth n) (\<lambda>b. Inr (JSONType, b)))"

definition sendContentNode ::
    "'q request_ops \<Rightarrow> req_lib \<Rightarrow> (cid \<Rightarrow> abort + node) \<Rightarrow> 'q \<Rightarrow> node \<Rightarrow> cid option \<Rightarrow> cache_control \<Rightarrow> abort + 'q" where
  "sendContentNode R X get q n cid_if_known cc =
     then_do (rq_chooseNodeContentType R q n) (\<lambda>ct.
       let etag = of_nat (content_code ct);
           (matched, q) = (case cid_if_known of
               Some c \<Rightarrow> rq_sendETag R q (etag + rl_xxHash64 X (cid_Bytes c)) cc
             | None \<Rightarrow> (False, q))
       in if matched then Inr q
          else then_do (node_body X get (query_depth (rq_uri R q)) ct n cid_if_known) (\<lambda>(ct, body).
            let (matched, q) = (if cid_if_known = None
                then rq_sendETag R q (etag + rl_xxHash64 X (to_bytes body)) cc else (False, q))
            in if matched then Inr q else rq_sendContent R q ct body))"

definition uris_html :: "string \<Rightarrow> string list \<Rightarrow> string" where
  "uris_html uri_str items =
     ''<!DOCTYPE html>'' @ [NL] @ ''<title>'' @ uri_str @ ''</title>'' @ [NL] @ ''<h1>'' @ uri_str @ ''</h1>'' @ [NL]
     @ ''<ul>'' @ [NL]
     @ concat (map (\<lambda>item. let str = escapeForHTML item in
          ''<li><a href=\"'' @ str @ ''\">'' @ str @ ''</a></li>'' @ [NL]) items)
     @ ''</ul>'' @ [NL]"

definition sendContentURIs ::
    "'q request_ops \<Rightarrow> req_lib \<Rightarrow> (string \<Rightarrow> bool) \<Rightarrow> (cid \<Rightarrow> abort + node) \<Rightarrow> 'q \<Rightarrow> uri list \<Rightarrow> cache_control
      \<Rightarrow> abort + 'q" where
  "sendContentURIs R X utf8 get q uris cc =
     then_do (map_sum NodeFatal id (sum_map (\<lambda>u. node_of_string utf8 (uri_encode u)) uris)) (\<lambda>_.
       let items = sort_key (map schar) (map uri_encode uris); n = List (map String items) in
       then_do (rq_chooseNodeContentType R q n) (\<lambda>ct.
         if ct = Plain \<or> ct = HTMLType then
           then_do (if ct = Plain then Inr (concat (map (\<lambda>item. item @ [NL]) items))
                    else then_do (deref (rq_uri R q)) (\<lambda>u. Inr (uris_html (escapeForHTML (uri_encode u)) items)))
             (\<lambda>body.
               let (matched, q) = rq_sendETag R q (of_nat (content_code ct) + rl_xxHash64 X (to_bytes body)) cc
               in if matched then Inr q else rq_sendContent R q ct body)
         else sendContentNode R X get q n None cc))"

subsection \<open>The contract of a request\<close>

locale request_impl =
  fixes R :: "'q request_ops"
    and ready started finished :: "'q \<Rightarrow> bool"
  assumes not_responded: "ready q \<Longrightarrow> \<not> rq_responded R q"
    and responded: "finished q \<Longrightarrow> rq_responded R q"
    and content_some: "ready q \<Longrightarrow> rq_method R q = Some POST \<or> rq_method R q = Some PUT \<Longrightarrow>
      rq_getContentNode R q d = Inr (Some n, q') \<Longrightarrow> ready q'"
    and content_none: "ready q \<Longrightarrow> rq_method R q = Some POST \<or> rq_method R q = Some PUT \<Longrightarrow>
      rq_getContentNode R q d = Inr (None, q') \<Longrightarrow> finished q'"
    and etag_matched: "ready q \<Longrightarrow> rq_sendETag R q e cc = (True, q') \<Longrightarrow> finished q'"
    and etag_unmatched: "ready q \<Longrightarrow> rq_sendETag R q e cc = (False, q') \<Longrightarrow> started q'"
    and content_sent: "started q \<Longrightarrow> rq_sendContent R q ct b = Inr q' \<Longrightarrow> finished q'"
    and accepted: "ready q \<Longrightarrow> finished (rq_sendAccepted R q)"
    and created: "ready q \<Longrightarrow> rq_sendCreated R q u = Inr q' \<Longrightarrow> finished q'"
    and deleted: "ready q \<Longrightarrow> finished (rq_sendDeleted R q)"
    and error_sent: "ready q \<Longrightarrow> rq_sendError R q st ty ti de = Inr q' \<Longrightarrow> finished q'"
    and not_allowed: "ready q \<Longrightarrow> rq_sendMethodNotAllowed R q al = Inr q' \<Longrightarrow> finished q'"
begin

lemma etag_then_content:
  assumes "ready q" and "rq_sendETag R q e cc = (matched, q1)"
    and "(if matched then Inr q1 else rq_sendContent R q1 ct b) = Inr q'"
  shows "finished q'"
  using assms etag_matched [OF assms(1), of e cc] etag_unmatched [OF assms(1), of e cc] content_sent
  by (cases matched) auto

lemma sendContentNode_finished:
  assumes "ready q" and "sendContentNode R X get q n cid cc = Inr q'"
  shows "finished q'"
proof -
  obtain ct where ct: "rq_chooseNodeContentType R q n = Inr ct"
    using assms(2) by (auto simp: sendContentNode_def then_do_Inr_iff)
  show ?thesis
  proof (cases cid)
    case None
    with assms(2) ct obtain ct' body where body: "node_body X get (query_depth (rq_uri R q)) ct n None = Inr (ct', body)"
      by (auto simp: sendContentNode_def then_do_Inr_iff)
    obtain matched q1 where e: "rq_sendETag R q (of_nat (content_code ct) + rl_xxHash64 X (to_bytes body)) cc = (matched, q1)"
      by fastforce
    then have "(if matched then Inr q1 else rq_sendContent R q1 ct' body) = Inr q'"
      using assms(2) None ct body by (simp add: sendContentNode_def)
    with assms(1) e show ?thesis by (rule etag_then_content)
  next
    case (Some c)
    obtain matched q1 where e: "rq_sendETag R q (of_nat (content_code ct) + rl_xxHash64 X (cid_Bytes c)) cc = (matched, q1)"
      by fastforce
    show ?thesis
    proof (cases matched)
      case True
      with assms(2) ct e Some have "q' = q1" by (simp add: sendContentNode_def)
      with True etag_matched [OF assms(1)] e show ?thesis by simp
    next
      case False
      with assms(2) ct e Some obtain ct' body where "rq_sendContent R q1 ct' body = Inr q'"
        by (auto simp: sendContentNode_def then_do_Inr_iff)
      moreover have "started q1" using False etag_unmatched [OF assms(1)] e by simp
      ultimately show ?thesis using content_sent by blast
    qed
  qed
qed

lemma sendContentURIs_finished:
  assumes "ready q" and "sendContentURIs R X utf8 get q uris cc = Inr q'"
  shows "finished q'"
proof -
  let ?n = "List (map String (sort_key (map schar) (map uri_encode uris)))"
  obtain ct where ct: "rq_chooseNodeContentType R q ?n = Inr ct"
    using assms(2) by (auto simp: sendContentURIs_def then_do_Inr_iff Let_def)
  show ?thesis
  proof (cases "ct = Plain \<or> ct = HTMLType")
    case True
    with assms(2) ct obtain body matched q1 where
      "rq_sendETag R q (of_nat (content_code ct) + rl_xxHash64 X (to_bytes body)) cc = (matched, q1)"
      "(if matched then Inr q1 else rq_sendContent R q1 ct body) = Inr q'"
      by (auto simp: sendContentURIs_def then_do_Inr_iff Let_def case_prod_beta prod_eq_iff)
    with assms(1) show ?thesis by (rule etag_then_content)
  next
    case False
    with assms(2) ct have "sendContentNode R X get q ?n None cc = Inr q'"
      by (auto simp: sendContentURIs_def then_do_Inr_iff Let_def)
    with assms(1) show ?thesis by (rule sendContentNode_finished)
  qed
qed

end

end
