(* ===== verification/HTTP.thy ===== *)
theory HTTP
  imports Requests
begin

section \<open>HTTPRequest: requests and responses over HTTP\<close>

text \<open>
  \<^verbatim>\<open>memodb/lib/HTTP.cpp\<close>. The state of a request has what was received (the method, the
  URI, the headers as the function \<^verbatim>\<open>getHeader\<close>, the body) and the calls of \<^verbatim>\<open>sendStatus\<close>,
  \<^verbatim>\<open>sendHeader\<close>, \<^verbatim>\<open>sendBody\<close> and \<^verbatim>\<open>sendEmptyBody\<close> so far, in order. The text of an RFC 7807
  problem object, printed by \<^verbatim>\<open>llvm::json::OStream\<close>, is a parameter.

  The loops over the \<^verbatim>\<open>Accept\<close> and \<^verbatim>\<open>If-None-Match\<close> headers are functions that terminate on
  every text. The lemmas show what they compute for the headers clients write, that the
  content type chosen is one the client likes best, and that a request that has been
  answered has exactly one status line, then headers, then one body.
\<close>

datatype sent = SendStatus nat | SendHeader string string | SendBody string | SendEmptyBody

record http_request =
  hq_method :: "req_method option"
  hq_uri :: "uri option"
  hq_header :: "string \<Rightarrow> string option"
  hq_body :: string
  hq_sent :: "sent list"

record http_lib =
  hl_req :: req_lib
  hl_utf8 :: "string \<Rightarrow> bool"
  hl_parse_message :: "string \<Rightarrow> string"
  hl_problem :: "string option \<Rightarrow> string \<Rightarrow> nat \<Rightarrow> string option \<Rightarrow> string"

subsection \<open>Strings\<close>

definition is_blank :: "char \<Rightarrow> bool" where
  "is_blank c \<longleftrightarrow> c = CHR '' '' \<or> c = CHR 0x09"

definition ltrim :: "string \<Rightarrow> string" where
  "ltrim s = dropWhile is_blank s"

definition rtrim :: "string \<Rightarrow> string" where
  "rtrim s = rev (dropWhile is_blank (rev s))"

definition span_until :: "string \<Rightarrow> string \<Rightarrow> string \<times> string" where
  "span_until stop s = (takeWhile (\<lambda>c. c \<notin> set stop) s, dropWhile (\<lambda>c. c \<notin> set stop) s)"

subsection \<open>The Accept header\<close>

definition q_value :: "string \<Rightarrow> nat \<Rightarrow> nat" where
  "q_value v q =
     (let digit = (\<lambda>i. if length v > i \<and> v ! 1 = CHR ''.'' then v ! i else CHR ''0'')
      in case getAsInteger 32 10 [v ! 0, digit 2, digit 3, digit 4] of Some n \<Rightarrow> n | None \<Rightarrow> q)"

text \<open>
  The value of a parameter after the equals sign and the rest; \<open>None\<close> when a quoted string
  does not end.
\<close>

definition param_value :: "string \<Rightarrow> (string \<times> string) option" where
  "param_value remainder =
     (if starts_with [DQ] remainder then
        (case string_end (drop 1 remainder) of
           None \<Rightarrow> None
         | Some i \<Rightarrow> Some (rtrim (take (i + 2) remainder), ltrim (drop (i + 2) remainder)))
      else let (v, rest) = span_until '';,'' remainder in Some (rtrim v, ltrim rest))"

definition accept_param :: "nat \<Rightarrow> string \<Rightarrow> (nat \<times> string) option" where
  "accept_param q remainder =
     (let (param, remainder) = span_until '';,='' (ltrim remainder) in
      case (if starts_with ''='' remainder then param_value (drop 1 remainder) else Some ([], remainder)) of
        None \<Rightarrow> None
      | Some (v, remainder) \<Rightarrow>
          Some (if equals_lower (rtrim param) ''q'' \<and> length v \<ge> 1 then q_value v q else q, remainder))"

lemma length_ltrim: "length (ltrim s) \<le> length s"
  by (simp add: ltrim_def length_dropWhile_le)

lemma length_span: "length (snd (span_until stop s)) \<le> length s"
  by (simp add: span_until_def length_dropWhile_le)

lemma param_value_rest: "param_value s = Some (v, rest) \<Longrightarrow> length rest \<le> length s"
  using length_ltrim [of "snd (span_until '';,'' s)"] length_span [of "'';,''" s]
  by (auto simp: param_value_def split: if_splits option.splits prod.splits intro: order_trans [OF length_ltrim])

lemma accept_param_rest:
  assumes "accept_param q s = Some (q', rest)"
  shows "length rest \<le> length s"
proof -
  obtain param r where p: "span_until '';,='' (ltrim s) = (param, r)" by fastforce
  have "length r \<le> length s"
    using length_span [of "'';,=''" "ltrim s"] length_ltrim [of s] p by simp
  with assms p show ?thesis
    by (auto simp: accept_param_def split: option.splits if_splits dest!: param_value_rest)
qed

function accept_params :: "nat \<Rightarrow> string \<Rightarrow> (nat \<times> string) option" where
  "accept_params q remainder =
     (if \<not> starts_with '';'' remainder then Some (q, remainder)
      else case accept_param q (drop 1 remainder) of
        None \<Rightarrow> None
      | Some (q, remainder) \<Rightarrow> accept_params q remainder)"
  by pat_completeness auto
termination
proof (relation "measure (\<lambda>(q, s). length s)", goal_cases)
  case (2 q s a q' s')
  then have "length s' \<le> length (drop 1 s)" by (intro accept_param_rest [of q _ q']) simp
  moreover have "s \<noteq> []" using 2 by (auto simp: starts_with_def)
  ultimately show ?case by (cases s) auto
qed simp

declare accept_params.simps [simp del]

lemma accept_params_rest: "accept_params q s = Some (q', rest) \<Longrightarrow> length rest \<le> length s"
proof (induction q s rule: accept_params.induct)
  case (1 q s)
  show ?case
  proof (cases "starts_with '';'' s")
    case True
    with "1.prems" obtain q1 s1 where p: "accept_param q (drop 1 s) = Some (q1, s1)"
      and r: "accept_params q1 s1 = Some (q', rest)"
      by (subst (asm) accept_params.simps) (auto split: option.splits)
    from "1.IH" [OF _ p refl r] True accept_param_rest [OF p] show ?thesis by simp
  next
    case False
    with "1.prems" show ?thesis by (subst (asm) accept_params.simps) simp
  qed
qed

fun wanted_type :: "content_type \<Rightarrow> (string \<times> string) option" where
  "wanted_type OctetStream = Some (''application'', ''octet-stream'')"
| "wanted_type JSONType = Some (''application'', ''json'')"
| "wanted_type CBORType = Some (''application'', ''cbor'')"
| "wanted_type HTMLType = Some (''text'', ''html'')"
| "wanted_type ProblemJSON = Some (''application'', ''problem+json'')"
| "wanted_type Plain = None"

text \<open>One media range: its type, subtype and quality, and what follows its parameters.\<close>

definition media_range :: "string \<Rightarrow> (string \<times> string \<times> nat \<times> string) option" where
  "media_range remainder =
     (let (ty, remainder) = split_first CHR ''/'' remainder;
          (subtype, remainder) = span_until '';,'' remainder
      in case accept_params 1000 remainder of
           None \<Rightarrow> None
         | Some (q, remainder) \<Rightarrow> Some (ty, rtrim subtype, q, remainder))"

lemma media_range_rest: "media_range s = Some (ty, st, q, rest) \<Longrightarrow> length rest \<le> length s"
proof -
  assume a: "media_range s = Some (ty, st, q, rest)"
  let ?r = "snd (split_first CHR ''/'' s)"
  have "length ?r \<le> length s"
    using length_dropWhile_le [of "\<lambda>x. x \<noteq> CHR ''/''" s] by (simp add: split_first_def)
  moreover have "length rest \<le> length (snd (span_until '';,'' ?r))"
    using a accept_params_rest by (auto simp: media_range_def split: prod.splits option.splits)
  ultimately show ?thesis using length_span [of "'';,''" ?r] by linarith
qed

function accept_loop :: "string \<Rightarrow> string \<Rightarrow> nat \<Rightarrow> nat option \<Rightarrow> string \<Rightarrow> nat" where
  "accept_loop wt ws any_type_q any_subtype_q remainder =
     (let remainder = ltrim remainder; found = (case any_subtype_q of Some q \<Rightarrow> q | None \<Rightarrow> any_type_q) in
      if remainder = [] then found
      else case media_range remainder of
        None \<Rightarrow> 0
      | Some (ty, subtype, q, remainder) \<Rightarrow>
          if equals_lower ty wt \<and> equals_lower subtype ws then q
          else
            let any_subtype_q = (if equals_lower ty wt \<and> subtype = ''*'' then Some q else any_subtype_q);
                any_type_q = (if \<not> equals_lower ty wt \<and> ty = ''*'' \<and> subtype = ''*'' then q else any_type_q)
            in if remainder = [] then (case any_subtype_q of Some q \<Rightarrow> q | None \<Rightarrow> any_type_q)
               else if \<not> starts_with '','' remainder then 0
               else accept_loop wt ws any_type_q any_subtype_q (drop 1 remainder))"
  by pat_completeness auto
termination
proof (relation "measure (\<lambda>(wt, ws, a, b, s). length s)", goal_cases)
  case (2 wt ws a b s r found p ty p' subtype p'' q rest as' at')
  then have "length rest \<le> length s"
    using media_range_rest [of "ltrim s" ty subtype q rest] length_ltrim [of s] by simp
  then show ?case using 2 by (cases rest) auto
qed simp

declare accept_loop.simps [simp del]

definition getAcceptQuality :: "http_request \<Rightarrow> content_type \<Rightarrow> abort + nat" where
  "getAcceptQuality q ct =
     (case wanted_type ct of
        None \<Rightarrow> Inl Unreachable
      | Some (wt, ws) \<Rightarrow>
          Inr (case hq_header q ''Accept'' of
             None \<Rightarrow> (if ct = JSONType \<or> ct = ProblemJSON then 1 else 0)
           | Some accept \<Rightarrow> accept_loop wt ws 0 None accept))"

subsection \<open>Sending\<close>

definition put_sent :: "sent list \<Rightarrow> http_request \<Rightarrow> http_request" where
  "put_sent xs q = q\<lparr>hq_sent := hq_sent q @ xs\<rparr>"

definition startResponse :: "nat \<Rightarrow> cache_control \<Rightarrow> http_request \<Rightarrow> http_request" where
  "startResponse status cc q =
     put_sent [SendStatus status, SendHeader ''Server'' ''MemoDB'', SendHeader ''Vary'' ''Accept, Accept-Encoding'',
       SendHeader ''Cache-Control''
         (case cc of Ephemeral \<Rightarrow> ''max-age=0, must-revalidate'' | Mutable \<Rightarrow> ''max-age=0, must-revalidate''
          | Immutable \<Rightarrow> ''max-age=604800, immutable'')] q"

definition sendErrorAfterStatus ::
    "http_lib \<Rightarrow> http_request \<Rightarrow> req_status \<Rightarrow> string option \<Rightarrow> string \<Rightarrow> string option \<Rightarrow> abort + http_request" where
  "sendErrorAfterStatus L q status ty title detail =
     then_do (getAcceptQuality q ProblemJSON) (\<lambda>problem_json_quality.
     then_do (getAcceptQuality q HTMLType) (\<lambda>html_quality.
       let q = put_sent [SendHeader ''Content-Language'' ''en''] q in
       if html_quality > problem_json_quality then
         let title_html = escapeForHTML title in
         Inr (put_sent [SendHeader ''Content-Type'' ''text/html'',
           SendBody (''<title>'' @ title_html @ ''</title><h1>Error '' @ show_nat (status_code status) @ '': '' @ title_html
             @ ''</h1><p>'' @ (case detail of Some d \<Rightarrow> d | None \<Rightarrow> []) @ [NL])] q)
       else Inr (put_sent [SendHeader ''Content-Type'' ''application/problem+json'',
           SendBody (hl_problem L ty title (status_code status) detail)] q)))"

definition http_sendError ::
    "http_lib \<Rightarrow> http_request \<Rightarrow> req_status \<Rightarrow> string option \<Rightarrow> string \<Rightarrow> string option \<Rightarrow> abort + http_request" where
  "http_sendError L q status ty title detail =
     sendErrorAfterStatus L (startResponse (status_code status) Ephemeral q) status ty title detail"

definition http_sendMethodNotAllowed :: "http_lib \<Rightarrow> http_request \<Rightarrow> string \<Rightarrow> abort + http_request" where
  "http_sendMethodNotAllowed L q allow =
     sendErrorAfterStatus L (put_sent [SendHeader ''Allow'' allow] (startResponse 405 Mutable q))
       MethodNotAllowed None ''Method Not Allowed'' None"

subsection \<open>Receiving a node\<close>

definition http_getContentNode ::
    "http_lib \<Rightarrow> http_request \<Rightarrow> node option \<Rightarrow> abort + node option \<times> http_request" where
  "http_getContentNode L q default_node =
     (let fail = (\<lambda>status ty title detail.
        then_do (http_sendError L q status ty title detail) (\<lambda>q. Inr (None, q)))
      in if hq_body q = [] then
           (case default_node of
              Some n \<Rightarrow> Inr (Some n, q)
            | None \<Rightarrow> fail BadRequest (Some ''/problems/missing-body'') ''Missing request Body'' None)
         else
           let type_str = (case hq_header q ''Content-Type'' of
               Some ty \<Rightarrow> ltrim (rtrim (fst (split_first CHR '';'' ty)))
             | None \<Rightarrow> [])
           in if equals_lower type_str ''application/cbor'' then
                (case loadFromCBOR (hl_utf8 L) (to_bytes (hq_body q)) of
                   Inl e \<Rightarrow> fail BadRequest (Some ''/problems/invalid-or-unsupported-cbor'')
                     ''Invalid or unsupported CBOR'' (Some (cbor_error_text e))
                 | Inr n \<Rightarrow> Inr (Some n, q))
              else if equals_lower type_str ''application/octet-stream'' then
                Inr (Some (Node.Bytes (to_bytes (hq_body q))), q)
              else if equals_lower type_str ''application/json'' then
                (case loadFromJSON (rl_json (hl_req L)) (hl_utf8 L) (hq_body q) of
                   Inl e \<Rightarrow> then_do (map_sum NodeFatal id (json_error_text (hl_parse_message L) e)) (\<lambda>detail.
                     fail BadRequest (Some ''/problems/invalid-or-unsupported-json'')
                       ''Invalid or unsupported JSON'' (Some detail))
                 | Inr n \<Rightarrow> Inr (Some n, q))
              else fail UnsupportedMediaType None ''Unsupported Media Type'' None)"

subsection \<open>Entity tags\<close>

function if_none_match_loop :: "string \<Rightarrow> string \<Rightarrow> bool" where
  "if_none_match_loop etag remainder =
     (let remainder = ltrim remainder in
      if remainder = [] then False
      else if starts_with ''*'' remainder then True
      else let remainder = (if starts_with ''W/'' remainder then drop 2 remainder else remainder) in
        if \<not> starts_with [DQ] remainder then False
        else let remainder = drop 1 remainder in
          if DQ \<notin> set remainder then False
          else let (wanted_etag, remainder) = split_first DQ remainder in
            if wanted_etag = etag then True
            else let remainder = ltrim remainder in
              if \<not> starts_with '','' remainder then False
              else if_none_match_loop etag (drop 1 remainder))"
  by pat_completeness auto
termination
proof (relation "measure (\<lambda>(e, s). length s)", goal_cases)
  case (2 e s s1 s2 s3 p w s4 s5)
  have "length s4 \<le> length s3"
    using 2 length_dropWhile_le [of "\<lambda>x. x \<noteq> DQ" s3] by (simp add: split_first_def)
  moreover have "length s3 \<le> length s" using 2 length_ltrim [of s] by auto
  moreover have "starts_with '','' s5" using 2 by simp
  then have "length (drop 1 s5) < length s5" by (cases s5) (simp_all add: starts_with_def)
  moreover have "length s5 \<le> length s4" using length_ltrim [of s4] 2 by simp
  ultimately have "length (drop 1 s5) < length s" by linarith
  then show ?case by simp
qed simp

declare if_none_match_loop.simps [simp del]

definition hasIfNoneMatch :: "http_request \<Rightarrow> string \<Rightarrow> bool" where
  "hasIfNoneMatch q etag =
     (case hq_header q ''If-None-Match'' of None \<Rightarrow> False | Some v \<Rightarrow> if_none_match_loop etag v)"

fun show_hex :: "nat \<Rightarrow> string" where
  "show_hex n = (if n < 16 then [hex_lower n] else show_hex (n div 16) @ [hex_lower (n mod 16)])"

declare show_hex.simps [simp del]

definition http_sendETag :: "http_request \<Rightarrow> u64 \<Rightarrow> cache_control \<Rightarrow> bool \<times> http_request" where
  "http_sendETag q etag cc =
     (let etag_str = show_hex (unat etag);
          matched = hasIfNoneMatch q etag_str;
          q = put_sent [SendHeader ''ETag'' ([DQ] @ etag_str @ [DQ])] (startResponse (if matched then 304 else 200) cc q)
      in (matched, if matched then put_sent [SendEmptyBody] q else q))"

subsection \<open>The other virtual functions\<close>

definition http_chooseNodeContentType :: "http_request \<Rightarrow> node \<Rightarrow> abort + content_type" where
  "http_chooseNodeContentType q n =
     then_do (getAcceptQuality q OctetStream) (\<lambda>octet_stream_quality.
     then_do (getAcceptQuality q JSONType) (\<lambda>json_quality.
     then_do (getAcceptQuality q CBORType) (\<lambda>cbor_quality.
     then_do (getAcceptQuality q HTMLType) (\<lambda>html_quality.
       Inr (if kind n = KBytes \<and> octet_stream_quality > json_quality \<and> octet_stream_quality \<ge> cbor_quality
              \<and> octet_stream_quality \<ge> html_quality then OctetStream
            else if html_quality > cbor_quality \<and> html_quality > json_quality then HTMLType
            else if cbor_quality > json_quality then CBORType
            else JSONType)))))"

definition http_sendContent :: "http_request \<Rightarrow> content_type \<Rightarrow> string \<Rightarrow> abort + http_request" where
  "http_sendContent q ct body =
     (let send = (\<lambda>v. Inr (put_sent [SendHeader ''Content-Type'' v, SendBody body] q)) in
      case ct of
        OctetStream \<Rightarrow> send ''application/octet-stream''
      | HTMLType \<Rightarrow> send ''text/html''
      | CBORType \<Rightarrow> send ''application/cbor''
      | JSONType \<Rightarrow> send ''application/json''
      | _ \<Rightarrow> Inl Unreachable)"

definition http_sendAccepted :: "http_request \<Rightarrow> http_request" where
  "http_sendAccepted q = put_sent [SendEmptyBody] (startResponse 202 Ephemeral q)"

definition http_sendCreated :: "http_request \<Rightarrow> uri option \<Rightarrow> abort + http_request" where
  "http_sendCreated q path =
     (let q = startResponse 201 Ephemeral q in
      case path of
        None \<Rightarrow> Inr (put_sent [SendEmptyBody] q)
      | Some u \<Rightarrow>
          if scheme u = [] \<and> host u = [] \<and> fragment u = [] \<and> port u = 0 \<and> \<not> rootless u
          then Inr (put_sent [SendHeader ''Location'' (uri_encode u), SendEmptyBody] q)
          else Inl AssertFailed)"

definition http_sendDeleted :: "http_request \<Rightarrow> http_request" where
  "http_sendDeleted q = put_sent [SendEmptyBody] (startResponse 204 Ephemeral q)"

definition parseMethod :: "string \<Rightarrow> req_method option" where
  "parseMethod str =
     (if equals_lower str ''GET'' \<or> equals_lower str ''HEAD'' then Some GET
      else if equals_lower str ''POST'' then Some POST
      else if equals_lower str ''PUT'' then Some PUT
      else if equals_lower str ''DELETE'' then Some DELETE
      else None)"

definition http_request_new :: "string \<Rightarrow> uri option \<Rightarrow> (string \<Rightarrow> string option) \<Rightarrow> string \<Rightarrow> http_request" where
  "http_request_new method_string u header body =
     \<lparr>hq_method = parseMethod method_string, hq_uri = u, hq_header = header, hq_body = body, hq_sent = []\<rparr>"

fun is_body :: "sent \<Rightarrow> bool" where
  "is_body (SendBody _) = True"
| "is_body SendEmptyBody = True"
| "is_body _ = False"

text \<open>\<^verbatim>\<open>responded\<close> is set when a body is sent.\<close>

definition http_responded :: "http_request \<Rightarrow> bool" where
  "http_responded q \<longleftrightarrow> list_ex is_body (hq_sent q)"

definition http_ops :: "http_lib \<Rightarrow> http_request request_ops" where
  "http_ops L =
     \<lparr>rq_method = hq_method, rq_uri = hq_uri, rq_responded = http_responded,
      rq_getContentNode = http_getContentNode L,
      rq_chooseNodeContentType = http_chooseNodeContentType, rq_sendETag = http_sendETag,
      rq_sendContent = http_sendContent, rq_sendAccepted = http_sendAccepted, rq_sendCreated = http_sendCreated,
      rq_sendDeleted = http_sendDeleted, rq_sendError = http_sendError L,
      rq_sendMethodNotAllowed = http_sendMethodNotAllowed L\<rparr>"

section \<open>Responses\<close>

text \<open>The states of a response: nothing sent; a status and headers; a status, headers and one body.\<close>

fun is_header :: "sent \<Rightarrow> bool" where
  "is_header (SendHeader _ _) = True"
| "is_header _ = False"

fun head_sent :: "sent list \<Rightarrow> bool" where
  "head_sent (SendStatus _ # hs) = list_all is_header hs"
| "head_sent _ = False"

definition http_ready :: "http_request \<Rightarrow> bool" where
  "http_ready q \<longleftrightarrow> hq_sent q = []"

definition http_started :: "http_request \<Rightarrow> bool" where
  "http_started q \<longleftrightarrow> head_sent (hq_sent q)"

definition http_finished :: "http_request \<Rightarrow> bool" where
  "http_finished q \<longleftrightarrow> hq_sent q \<noteq> [] \<and> head_sent (butlast (hq_sent q)) \<and> is_body (last (hq_sent q))"

lemma hq_sent_put [simp]: "hq_sent (put_sent xs q) = hq_sent q @ xs"
  by (simp add: put_sent_def)

lemma head_sent_append: "head_sent xs \<Longrightarrow> list_all is_header hs \<Longrightarrow> head_sent (xs @ hs)"
  by (cases xs rule: head_sent.cases) auto

lemma started_startResponse: "http_ready q \<Longrightarrow> http_started (startResponse status cc q)"
  by (simp add: http_ready_def http_started_def startResponse_def)

lemma started_headers: "http_started q \<Longrightarrow> list_all is_header hs \<Longrightarrow> http_started (put_sent hs q)"
  by (simp add: http_started_def head_sent_append)

lemma finished_body:
  "http_started q \<Longrightarrow> list_all is_header hs \<Longrightarrow> is_body b \<Longrightarrow> http_finished (put_sent (hs @ [b]) q)"
  by (simp add: http_started_def http_finished_def head_sent_append butlast_append flip: append_assoc)

lemmas finished_empty = finished_body [of _ "[]" SendEmptyBody, simplified]
  and finished_one = finished_body [of _ "[h]" for h, simplified]

lemma finished_sendErrorAfterStatus:
  assumes "http_started q" and "sendErrorAfterStatus L q status ty title detail = Inr q'"
  shows "http_finished q'"
proof -
  have "http_started (put_sent [SendHeader ''Content-Language'' ''en''] q)"
    using assms(1) by (intro started_headers) simp_all
  then show ?thesis using assms(2)
    by (auto simp: sendErrorAfterStatus_def then_do_Inr_iff Let_def split: if_splits intro!: finished_one)
qed

lemma finished_sendError:
  "http_ready q \<Longrightarrow> http_sendError L q status ty title detail = Inr q' \<Longrightarrow> http_finished q'"
  by (auto simp: http_sendError_def intro: finished_sendErrorAfterStatus started_startResponse)

lemma http_getContentNode_some:
  assumes "http_getContentNode L q d = Inr (Some n, q')"
  shows "q' = q"
  using assms
  by (auto simp: http_getContentNode_def Let_def then_do_Inr_iff split: if_splits option.splits sum.splits)

lemma http_getContentNode_none:
  assumes "http_getContentNode L q d = Inr (None, q')"
  shows "\<exists>status ty title detail. http_sendError L q status ty title detail = Inr q'"
  using assms
  by (auto simp: http_getContentNode_def Let_def then_do_Inr_iff split: if_splits option.splits sum.splits)

interpretation http: request_impl "http_ops L" http_ready http_started http_finished for L
proof (unfold_locales, goal_cases)
  case (1 q)
  then show ?case by (simp add: http_ops_def http_responded_def http_ready_def)
next
  case (2 q)
  then have "last (hq_sent q) \<in> set (hq_sent q)" and "is_body (last (hq_sent q))" by (simp_all add: http_finished_def)
  then have "list_ex is_body (hq_sent q)" by (auto simp: list_ex_iff)
  then show ?case by (simp add: http_ops_def http_responded_def)
next
  case (5 q e cc q')
  then have "q' = put_sent [SendEmptyBody] (put_sent [SendHeader ''ETag'' ([DQ] @ show_hex (unat e) @ [DQ])]
      (startResponse 304 cc q))"
    by (simp add: http_ops_def http_sendETag_def Let_def split: if_splits)
  with 5 show ?case by (simp add: finished_empty started_headers started_startResponse)
next
  case (6 q e cc q')
  then show ?case
    by (auto simp: http_ops_def http_sendETag_def Let_def intro!: started_headers started_startResponse)
next
  case (7 q ct b q')
  then show ?case
    by (auto simp: http_ops_def http_sendContent_def Let_def intro!: finished_one split: content_type.splits)
next
  case (9 q u q')
  then show ?case
    by (auto simp: http_ops_def http_sendCreated_def Let_def started_startResponse
        intro!: finished_one finished_empty split: option.splits if_splits)
next
  case (12 q al q')
  then show ?case
    by (auto simp: http_ops_def http_sendMethodNotAllowed_def
        intro!: finished_sendErrorAfterStatus [rotated] started_headers started_startResponse)
qed (auto simp: http_ops_def http_sendAccepted_def http_sendDeleted_def
      intro: finished_empty started_startResponse finished_sendError
      dest!: http_getContentNode_some http_getContentNode_none)

section \<open>Content negotiation\<close>

text \<open>
  The meaning of an Accept header given as a list of media ranges with their qualities in
  thousandths: an exact match decides, then the last range for all subtypes of the type,
  then the last range for everything.
\<close>

type_synonym media = "string \<times> string \<times> nat"

definition q_text :: "nat \<Rightarrow> string" where
  "q_text q = [dec_digit (q div 1000), CHR ''.'', dec_digit (q div 100 mod 10), dec_digit (q div 10 mod 10), dec_digit (q mod 10)]"

fun range_text :: "media \<Rightarrow> string" where
  "range_text (ty, st, q) = ty @ ''/'' @ st @ '';q='' @ q_text q"

fun accept_text :: "media list \<Rightarrow> string" where
  "accept_text [] = []"
| "accept_text [r] = range_text r"
| "accept_text (r # rs) = range_text r @ '', '' @ accept_text rs"

definition is_token :: "string \<Rightarrow> bool" where
  "is_token s \<longleftrightarrow> s \<noteq> [] \<and> list_all (\<lambda>c. c \<notin> set ''/;,= '' \<and> c \<noteq> CHR 0x09) s"

fun wf_range :: "media \<Rightarrow> bool" where
  "wf_range (ty, st, q) \<longleftrightarrow> is_token ty \<and> is_token st \<and> q \<le> 1000"

definition exact_range :: "string \<Rightarrow> string \<Rightarrow> media \<Rightarrow> bool" where
  "exact_range wt ws r \<longleftrightarrow> equals_lower (fst r) wt \<and> equals_lower (fst (snd r)) ws"

definition type_range :: "string \<Rightarrow> media \<Rightarrow> bool" where
  "type_range wt r \<longleftrightarrow> equals_lower (fst r) wt \<and> fst (snd r) = ''*''"

definition any_range :: "media \<Rightarrow> bool" where
  "any_range r \<longleftrightarrow> fst r = ''*'' \<and> fst (snd r) = ''*''"

definition find_quality :: "(media \<Rightarrow> bool) \<Rightarrow> media list \<Rightarrow> nat option" where
  "find_quality P rs = map_option (\<lambda>r. snd (snd r)) (find P rs)"

definition media_quality :: "media list \<Rightarrow> content_type \<Rightarrow> nat" where
  "media_quality rs ct =
     (case wanted_type ct of None \<Rightarrow> 0 | Some (wt, ws) \<Rightarrow>
        (case find_quality (exact_range wt ws) rs of Some q \<Rightarrow> q
         | None \<Rightarrow> (case find_quality (type_range wt) (rev rs) of Some q \<Rightarrow> q
         | None \<Rightarrow> (case find_quality any_range (rev rs) of Some q \<Rightarrow> q | None \<Rightarrow> 0))))"

text \<open>Reading back one media range.\<close>

lemma getAsInteger_digits4:
  assumes "a < 10" "b < 10" "c < 10" "d < 10"
  shows "getAsInteger 32 10 [dec_digit a, dec_digit b, dec_digit c, dec_digit d] = Some (1000 * a + 100 * b + 10 * c + d)"
  using assms by (simp add: getAsInteger_def digit_value_dec undigits_def)

lemma four_digits: "1000 * (q div 1000) + 100 * (q div 100 mod 10) + 10 * (q div 10 mod 10) + q mod 10 = (q :: nat)"
proof -
  have "q div 10 div 10 = q div 100" and "q div 100 div 10 = q div 1000"
    by (simp_all flip: div_mult2_eq)
  then show ?thesis
    using mult_div_mod_eq [of 10 q] mult_div_mod_eq [of 10 "q div 10"] mult_div_mod_eq [of 10 "q div 100"]
    by linarith
qed

lemma q_value_text:
  assumes "q \<le> 1000"
  shows "q_value (q_text q) q0 = q"
proof -
  have "q div 1000 < 10" using assms by (simp add: less_mult_imp_div_less)
  then have "getAsInteger 32 10 [dec_digit (q div 1000), dec_digit (q div 100 mod 10), dec_digit (q div 10 mod 10),
      dec_digit (q mod 10)] = Some q"
    by (simp add: getAsInteger_digits4 four_digits)
  then show ?thesis by (simp add: q_value_def q_text_def)
qed

lemma span_until_append:
  assumes "list_all (\<lambda>c. c \<notin> set stop) s" and "rest = [] \<or> hd rest \<in> set stop"
  shows "span_until stop (s @ rest) = (s, rest)"
  using assms by (cases rest) (auto simp: span_until_def list_all_iff takeWhile_append dropWhile_append)

lemma ltrim_id: "s = [] \<or> \<not> is_blank (hd s) \<Longrightarrow> ltrim s = s"
  by (cases s) (auto simp: ltrim_def)

lemma rtrim_id: "s = [] \<or> \<not> is_blank (last s) \<Longrightarrow> rtrim s = s"
  by (cases s rule: rev_cases) (auto simp: rtrim_def)

lemma q_text_chars:
  assumes "q \<le> 1000" "c \<in> set (q_text q)" "digit_value x = None" "x \<noteq> CHR ''.''"
  shows "c \<noteq> x"
proof -
  have "q div 1000 < 10" using assms(1) by (simp add: less_mult_imp_div_less)
  then show ?thesis using assms by (auto simp: q_text_def digit_value_dec)
qed

lemma accept_param_text:
  assumes "q \<le> 1000" and "rest = [] \<or> hd rest = CHR '',''"
  shows "accept_param q0 (''q='' @ q_text q @ rest) = Some (q, rest)"
proof -
  have v: "list_all (\<lambda>c. c \<notin> set '';,'') (q_text q)"
    using q_text_chars [OF assms(1), of _ "CHR '';''"] q_text_chars [OF assms(1), of _ "CHR '',''"]
    by (auto simp: list_all_iff digit_value_def)
  have "\<not> is_blank (last (q_text q))"
    using q_text_chars [OF assms(1), of "last (q_text q)"] by (auto simp: is_blank_def q_text_def digit_value_def)
  moreover have "\<not> starts_with [DQ] (q_text q @ rest)"
    using q_text_chars [OF assms(1), of "hd (q_text q)" DQ] by (auto simp: starts_with_def q_text_def digit_value_def)
  moreover have "span_until '';,'' (q_text q @ rest) = (q_text q, rest)"
    using assms(2) by (intro span_until_append v) auto
  moreover have "ltrim rest = rest" using assms(2) by (intro ltrim_id) (auto simp: is_blank_def)
  ultimately have "param_value (q_text q @ rest) = Some (q_text q, rest)"
    by (simp add: param_value_def rtrim_id)
  moreover have "span_until '';,='' (''q='' @ q_text q @ rest) = (''q'', ''='' @ q_text q @ rest)"
    by (simp add: span_until_def)
  moreover have "length (q_text q) = 5" by (simp add: q_text_def)
  ultimately show ?thesis
    using q_value_text [OF assms(1), of q0]
    by (simp add: accept_param_def ltrim_id is_blank_def rtrim_id starts_with_def equals_lower_def)
qed

lemma media_range_text:
  assumes "wf_range (ty, st, q)" and "rest = [] \<or> hd rest = CHR '',''"
  shows "media_range (range_text (ty, st, q) @ rest) = Some (ty, st, q, rest)"
proof -
  have ty: "CHR ''/'' \<notin> set ty" and st: "list_all (\<lambda>c. c \<notin> set '';,'') st" "\<not> is_blank (last st)"
    and q: "q \<le> 1000"
    using assms(1) by (auto simp: is_token_def list_all_iff is_blank_def)
  have "split_first CHR ''/'' (range_text (ty, st, q) @ rest) = (ty, st @ '';q='' @ q_text q @ rest)"
    using ty by (auto simp: split_first_def takeWhile_append dropWhile_append)
  moreover have "span_until '';,'' (st @ '';q='' @ q_text q @ rest) = (st, '';q='' @ q_text q @ rest)"
    using st by (intro span_until_append) simp_all
  moreover have "accept_params 1000 ('';q='' @ q_text q @ rest) = Some (q, rest)"
    using accept_param_text [OF q assms(2), of 1000] assms(2)
    by (cases rest) (simp_all add: accept_params.simps [of 1000] accept_params.simps [of q] starts_with_def)
  ultimately show ?thesis using st by (simp add: media_range_def rtrim_id)
qed

lemma accept_text_shape:
  "accept_text (r # rs) = range_text r @ (if rs = [] then [] else '', '' @ accept_text rs)"
  by (cases rs) simp_all

lemma range_text_start: "wf_range r \<Longrightarrow> range_text r \<noteq> [] \<and> \<not> is_blank (hd (range_text r))"
  by (cases r) (auto simp: is_token_def list_all_iff is_blank_def hd_append)

definition found_quality :: "nat option \<Rightarrow> nat \<Rightarrow> nat" where
  "found_quality b a = (case b of Some q \<Rightarrow> q | None \<Rightarrow> a)"

definition seen_type :: "string \<Rightarrow> nat option \<Rightarrow> media \<Rightarrow> nat option" where
  "seen_type wt b r = (if type_range wt r then Some (snd (snd r)) else b)"

definition seen_any :: "nat \<Rightarrow> media \<Rightarrow> nat" where
  "seen_any a r = (if any_range r then snd (snd r) else a)"

lemma accept_loop_step:
  assumes "list_all wf_range (r # rs)" and "\<not> equals_lower ''*'' wt"
  shows "accept_loop wt ws a b (accept_text (r # rs)) =
     (if exact_range wt ws r then snd (snd r)
      else if rs = [] then found_quality (seen_type wt b r) (seen_any a r)
      else accept_loop wt ws (seen_any a r) (seen_type wt b r) ('' '' @ accept_text rs))"
proof -
  obtain ty st q where r: "r = (ty, st, q)" by (cases r)
  let ?rest = "if rs = [] then [] else '', '' @ accept_text rs"
  have "range_text r \<noteq> [] \<and> \<not> is_blank (hd (range_text r))"
    using assms(1) range_text_start by simp
  then have "ltrim (accept_text (r # rs)) = range_text r @ ?rest" and "range_text r @ ?rest \<noteq> []"
    unfolding accept_text_shape by (auto intro!: ltrim_id simp: hd_append)
  moreover have "media_range (range_text r @ ?rest) = Some (ty, st, q, ?rest)"
    unfolding r using assms(1) r by (intro media_range_text) auto
  moreover have "\<not> equals_lower ty wt \<and> ty = ''*'' \<longleftrightarrow> ty = ''*''" using assms(2) by auto
  ultimately show ?thesis
    by (subst accept_loop.simps)
      (auto simp: r exact_range_def type_range_def any_range_def seen_type_def seen_any_def found_quality_def
        starts_with_def Let_def split: option.splits)
qed

lemma accept_loop_blank: "accept_loop wt ws a b (CHR '' '' # s) = accept_loop wt ws a b s"
  by (simp add: accept_loop.simps [of wt ws a b "CHR '' '' # s"] accept_loop.simps [of wt ws a b s] ltrim_def is_blank_def)

lemma find_rev_Cons:
  "find_quality P (rev (r # rs)) = (case find_quality P (rev rs) of Some q \<Rightarrow> Some q
     | None \<Rightarrow> if P r then Some (snd (snd r)) else None)"
proof -
  have "find P (xs @ ys) = (case find P xs of Some x \<Rightarrow> Some x | None \<Rightarrow> find P ys)" for xs ys
    by (induction xs) auto
  then show ?thesis by (auto simp: find_quality_def split: option.splits)
qed

lemma accept_loop_text:
  assumes "list_all wf_range rs" and "\<not> equals_lower ''*'' wt"
  shows "accept_loop wt ws a b (accept_text rs) =
     (case find_quality (exact_range wt ws) rs of Some q \<Rightarrow> q
      | None \<Rightarrow> found_quality (case find_quality (type_range wt) (rev rs) of Some q \<Rightarrow> Some q | None \<Rightarrow> b)
          (found_quality (find_quality any_range (rev rs)) a))"
  using assms(1)
proof (induction rs arbitrary: a b)
  case Nil
  then show ?case
    by (subst accept_loop.simps) (simp add: find_quality_def found_quality_def ltrim_def)
next
  case (Cons r rs)
  have first: "find_quality P (r # rs) = (if P r then Some (snd (snd r)) else find_quality P rs)" for P
    by (simp add: find_quality_def)
  have last_any: "found_quality (find_quality any_range (rev (r # rs))) a
      = found_quality (find_quality any_range (rev rs)) (seen_any a r)"
    unfolding find_rev_Cons by (auto simp: found_quality_def seen_any_def split: option.splits)
  have last_type: "(case find_quality (type_range wt) (rev (r # rs)) of Some q \<Rightarrow> Some q | None \<Rightarrow> b)
      = (case find_quality (type_range wt) (rev rs) of Some q \<Rightarrow> Some q | None \<Rightarrow> seen_type wt b r)"
    unfolding find_rev_Cons by (auto simp: seen_type_def split: option.splits)
  show ?case
  proof (cases "rs = []")
    case True
    then show ?thesis
      unfolding accept_loop_step [OF Cons.prems assms(2)] first last_any last_type
      by (simp add: find_quality_def found_quality_def)
  next
    case False
    then show ?thesis
      unfolding accept_loop_step [OF Cons.prems assms(2)] first last_any last_type
      using Cons by (simp add: accept_loop_blank)
  qed
qed

lemma getAcceptQuality_text:
  assumes "hq_header q ''Accept'' = Some (accept_text rs)" and "list_all wf_range rs" and "ct \<noteq> Plain"
  shows "getAcceptQuality q ct = Inr (media_quality rs ct)"
proof -
  obtain wt ws where w: "wanted_type ct = Some (wt, ws)" "\<not> equals_lower ''*'' wt"
    using assms(3) by (cases ct) (auto simp: equals_lower_def str_lower_def)
  show ?thesis
    using assms(1) w accept_loop_text [OF assms(2) w(2), of ws 0 None]
    by (simp add: getAcceptQuality_def media_quality_def found_quality_def split: option.splits)
qed

text \<open>The content types a node can be sent as, in the server's order of preference.\<close>

definition node_types :: "node \<Rightarrow> content_type list" where
  "node_types n = [JSONType] @ (if kind n = KBytes then [OctetStream] else []) @ [CBORType, HTMLType]"

definition best_type :: "(content_type \<Rightarrow> nat) \<Rightarrow> content_type list \<Rightarrow> content_type" where
  "best_type quality cts = hd (filter (\<lambda>ct. list_all (\<lambda>ct'. quality ct' \<le> quality ct) cts) cts)"

lemma best_type_Cons:
  "hd (filter P (x # xs)) = (if P x then x else hd (filter P xs))"
  by simp

lemma pick_of_three:
  fixes j c h :: nat
  shows "(if c < h \<and> j < h then H else if j < c then C else J)
    = (if c \<le> j \<and> h \<le> j then J else if j \<le> c \<and> h \<le> c then C else if j \<le> h \<and> c \<le> h then H else X)"
  by (cases "c \<le> j"; cases "h \<le> j"; cases "h \<le> c") simp_all

lemma pick_of_four:
  fixes j b c h :: nat
  shows "(if j < b \<and> c \<le> b \<and> h \<le> b then B else if c < h \<and> j < h then H else if j < c then C else J)
    = (if b \<le> j \<and> c \<le> j \<and> h \<le> j then J else if j \<le> b \<and> c \<le> b \<and> h \<le> b then B
       else if j \<le> c \<and> b \<le> c \<and> h \<le> c then C else if j \<le> h \<and> b \<le> h \<and> c \<le> h then H else X)"
  by (cases "c \<le> j"; cases "h \<le> j"; cases "h \<le> c"; cases "b \<le> j"; cases "c \<le> b"; cases "h \<le> b") simp_all

text \<open>
  C37: when the client sends an Accept header made of media ranges with qualities, the
  server sends a node as the content type that the client prefers most according to the
  header's meaning, among the types the node can be sent as (raw bytes only for a byte
  string); of several it likes equally, it takes the first of JSON, bytes, CBOR, HTML.
\<close>

theorem http_negotiation:
  assumes "hq_header q ''Accept'' = Some (accept_text rs)" and "list_all wf_range rs"
  shows "http_chooseNodeContentType q n = Inr (best_type (media_quality rs) (node_types n))"
proof -
  note quality = getAcceptQuality_text [OF assms]
  have "best_type (media_quality rs) (node_types n) =
      (let o' = media_quality rs OctetStream; j = media_quality rs JSONType; c = media_quality rs CBORType;
           h = media_quality rs HTMLType
       in if kind n = KBytes \<and> j < o' \<and> c \<le> o' \<and> h \<le> o' then OctetStream
          else if c < h \<and> j < h then HTMLType else if j < c then CBORType else JSONType)"
  proof (cases "kind n = KBytes")
    case True
    then show ?thesis
      by (simp only: best_type_def node_types_def best_type_Cons list.pred_inject append.simps Let_def
          if_True order_refl simp_thms) (rule pick_of_four [symmetric])
  next
    case False
    then show ?thesis
      by (simp only: best_type_def node_types_def best_type_Cons list.pred_inject append.simps Let_def
          if_False order_refl simp_thms) (rule pick_of_three [symmetric])
  qed
  then show ?thesis
    by (simp add: http_chooseNodeContentType_def quality Let_def)
qed

theorem http_negotiation_witness:
  "http_chooseNodeContentType
     (http_request_new ''GET'' None
       [''Accept'' \<mapsto> accept_text [(''text'', ''html'', 900), (''application'', ''*'', 800), (''application'', ''cbor'', 950)]] [])
     Null = Inr CBORType"
proof -
  let ?rs = "[(''text'', ''html'', 900), (''application'', ''*'', 800), (''application'', ''cbor'', 950)]"
  have "http_chooseNodeContentType (http_request_new ''GET'' None [''Accept'' \<mapsto> accept_text ?rs] []) Null
      = Inr (best_type (media_quality ?rs) (node_types Null))"
    by (rule http_negotiation) (simp_all add: http_request_new_def is_token_def)
  also have "best_type (media_quality ?rs) (node_types Null) = CBORType" by code_simp
  finally show ?thesis .
qed

section \<open>Received nodes\<close>

text \<open>
  C38: every node that a request body yields is well formed: whatever the client sends as
  CBOR, JSON or bytes, the server either answers with an error or goes on with a value that
  satisfies the invariant of nodes, and in the latter case it has sent nothing yet. The
  default node, taken for an empty body, is assumed to be well formed, and the JSON library
  to return valid UTF-8 and doubles.
\<close>

theorem http_getContentNode_wf:
  assumes "lib_sound (rl_json (hl_req L)) (hl_utf8 L)" and "length (hq_body q) < 2 ^ 64"
    and "\<And>n. default_node = Some n \<Longrightarrow> wf_node (hl_utf8 L) n"
    and "http_getContentNode L q default_node = Inr (Some n, q')"
  shows "wf_node (hl_utf8 L) n \<and> q' = q"
proof -
  have cbor: "wf_node (hl_utf8 L) n" if "loadFromCBOR (hl_utf8 L) (to_bytes (hq_body q)) = Inr n" for n
    using that assms(2)
    by (auto simp: loadFromCBOR_def split: sum.splits prod.splits if_splits intro: loadFromCBORSequence_wf)
  have json: "wf_node (hl_utf8 L) n" if "loadFromJSON (rl_json (hl_req L)) (hl_utf8 L) (hq_body q) = Inr n" for n
    using loadFromJSON_wf [OF assms(1) that assms(2)] .
  show ?thesis
    using assms(2,3,4) cbor json http_getContentNode_some [OF assms(4)]
    by (auto simp: http_getContentNode_def Let_def then_do_Inr_iff split: if_splits option.splits sum.splits)
qed

lemma json_unescape_length: "json_unescape s = Some r \<Longrightarrow> length r \<le> length s"
  by (induction s arbitrary: r rule: json_unescape.induct)
    (fastforce split: if_splits list.splits option.splits)+

lemma example_lib_sound: "lib_sound example_lib (\<lambda>_. True)"
  unfolding lib_sound_def example_lib_def
  by (auto split: option.splits if_splits dest!: json_unescape_length simp: wf_double_def)

definition example_http :: http_lib where
  "example_http = \<lparr>hl_req = \<lparr>rl_json = example_lib, rl_xxHash64 = (\<lambda>bs. of_nat (length bs))\<rparr>, hl_utf8 = (\<lambda>_. True),
     hl_parse_message = (\<lambda>_. ''parse error''), hl_problem = (\<lambda>_ title _ _. title)\<rparr>"

theorem http_getContentNode_wf_witness:
  "\<exists>n q'. http_getContentNode example_http
     (http_request_new ''PUT'' None [''Content-Type'' \<mapsto> ''application/octet-stream''] ''abc'') None = Inr (Some n, q')
   \<and> wf_node (hl_utf8 example_http) n \<and> q' = http_request_new ''PUT'' None [''Content-Type'' \<mapsto> ''application/octet-stream''] ''abc''"
proof -
  let ?q = "http_request_new ''PUT'' None [''Content-Type'' \<mapsto> ''application/octet-stream''] ''abc''"
  have r: "http_getContentNode example_http ?q None = Inr (Some (Node.Bytes (to_bytes ''abc'')), ?q)"
  proof -
    let ?ty = "ltrim (rtrim (fst (split_first CHR '';'' ''application/octet-stream'')))"
    have "\<not> equals_lower ?ty ''application/cbor''" and "equals_lower ?ty ''application/octet-stream''"
      by code_simp+
    then show ?thesis by (simp add: http_getContentNode_def http_request_new_def)
  qed
  moreover have "wf_node (hl_utf8 example_http) (Node.Bytes (to_bytes ''abc'')) \<and> ?q = ?q"
    by (rule http_getContentNode_wf [of example_http ?q None, OF _ _ _ r])
      (simp_all add: example_http_def http_request_new_def example_lib_sound)
  ultimately show ?thesis by blast
qed

section \<open>Entity tags\<close>

text \<open>A client repeats entity tags the server sent, as a list in its If-None-Match header.\<close>

fun etags_text :: "u64 list \<Rightarrow> string" where
  "etags_text [] = []"
| "etags_text [e] = [DQ] @ show_hex (unat e) @ [DQ]"
| "etags_text (e # es) = [DQ] @ show_hex (unat e) @ [DQ] @ '', '' @ etags_text es"

lemma hex_lower_inject: "d < 16 \<Longrightarrow> e < 16 \<Longrightarrow> hex_lower d = hex_lower e \<longleftrightarrow> d = e"
  unfolding hex_lower_def by (rule nth_eq_iff_index_eq) simp_all

lemma hex_lower_no_quote: "d < 16 \<Longrightarrow> DQ \<noteq> hex_lower d"
  using nth_mem [of d "''0123456789abcdef''"] unfolding hex_lower_def by fastforce

lemma show_hex_no_quote: "DQ \<notin> set (show_hex n)"
proof (induction n rule: show_hex.induct)
  case (1 n)
  show ?case
  proof (cases "n < 16")
    case True
    then show ?thesis using hex_lower_no_quote [of n] by (subst show_hex.simps) simp
  next
    case False
    then show ?thesis using 1 hex_lower_no_quote [of "n mod 16"] by (subst show_hex.simps) simp
  qed
qed

lemma show_hex_inject [simp]: "show_hex m = show_hex n \<longleftrightarrow> m = n"
proof (induction m arbitrary: n rule: show_hex.induct)
  case (1 m)
  have nonempty: "show_hex k \<noteq> []" for k by (subst show_hex.simps) simp
  have "m div 16 = n div 16 \<and> m mod 16 = n mod 16 \<longleftrightarrow> m = n" by (metis div_mod_decomp)
  then show ?case
    using 1 nonempty
    by (subst (1 2) show_hex.simps) (auto simp: hex_lower_inject append_eq_Cons_conv Cons_eq_append_conv)
qed

lemma etags_text_shape:
  "etags_text (e # es) = [DQ] @ show_hex (unat e) @ [DQ] @ (if es = [] then [] else '', '' @ etags_text es)"
  by (cases es) simp_all

lemma if_none_match_step:
  "if_none_match_loop etag (etags_text (e # es)) =
     (show_hex (unat e) = etag \<or> es \<noteq> [] \<and> if_none_match_loop etag ('' '' @ etags_text es))"
proof -
  let ?rest = "if es = [] then [] else '', '' @ etags_text es"
  have "ltrim (etags_text (e # es)) = DQ # show_hex (unat e) @ DQ # ?rest"
    unfolding etags_text_shape by (simp add: ltrim_id is_blank_def)
  moreover have "split_first DQ (show_hex (unat e) @ DQ # ?rest) = (show_hex (unat e), ?rest)"
    using show_hex_no_quote [of "unat e"] by (auto simp: split_first_def takeWhile_append dropWhile_append)
  moreover have "ltrim ?rest = ?rest" by (auto intro!: ltrim_id simp: is_blank_def)
  ultimately show ?thesis
    by (subst if_none_match_loop.simps) (auto simp: starts_with_def Let_def)
qed

lemma if_none_match_blank: "if_none_match_loop etag (CHR '' '' # s) = if_none_match_loop etag s"
  by (simp add: if_none_match_loop.simps [of etag "CHR '' '' # s"] if_none_match_loop.simps [of etag s]
      ltrim_def is_blank_def)

lemma if_none_match_text: "if_none_match_loop (show_hex (unat e)) (etags_text es) \<longleftrightarrow> e \<in> set es"
proof (induction es)
  case Nil
  show ?case by (subst if_none_match_loop.simps) (simp add: ltrim_def)
next
  case (Cons x es)
  then show ?case unfolding if_none_match_step
    by (cases "es = []") (auto simp: if_none_match_blank word_unat_eq_iff)
qed

text \<open>
  C39: a client that repeats entity tags it got from the server is answered 304 with an
  empty body exactly when the tag of the current content is among them, and otherwise 200
  with the headers only, the content still to come; in both cases the answer carries the
  tag.
\<close>

theorem http_sendETag_cases:
  assumes "hq_header q ''If-None-Match'' = Some (etags_text es)" and "http_ready q"
  shows "http_sendETag q e cc = (e \<in> set es, snd (http_sendETag q e cc))
    \<and> (if e \<in> set es then http_finished (snd (http_sendETag q e cc)) else http_started (snd (http_sendETag q e cc)))
    \<and> hd (hq_sent (snd (http_sendETag q e cc))) = SendStatus (if e \<in> set es then 304 else 200)
    \<and> SendHeader ''ETag'' (etags_text [e]) \<in> set (hq_sent (snd (http_sendETag q e cc)))"
proof -
  have m: "hasIfNoneMatch q (show_hex (unat e)) \<longleftrightarrow> e \<in> set es"
    using assms(1) if_none_match_text by (simp add: hasIfNoneMatch_def)
  obtain q' where q': "http_sendETag q e cc = (e \<in> set es, q')"
    by (simp add: http_sendETag_def m Let_def)
  have "if e \<in> set es then http_finished q' else http_started q'"
    using q' assms(2) http.etag_matched [of q undefined e cc q'] http.etag_unmatched [of q undefined e cc q']
    by (simp add: http_ops_def)
  with q' show ?thesis
    using assms(2) by (auto simp: http_sendETag_def Let_def m startResponse_def http_ready_def)
qed

theorem http_sendETag_cases_witness:
  "fst (http_sendETag (http_request_new ''GET'' None [''If-None-Match'' \<mapsto> etags_text [5, 255]] []) 255 Mutable)"
  using http_sendETag_cases [of "http_request_new ''GET'' None [''If-None-Match'' \<mapsto> etags_text [5, 255]] []" "[5, 255]" 255 Mutable]
  by (simp add: http_request_new_def http_ready_def prod_eq_iff)

end
