(* ===== verification/Call_Groups.thy ===== *)
theory Call_Groups
  imports Memo_Store
begin

section \<open>CallGroup and PendingCall: the queues of the server\<close>

text \<open>
  The classes \<^verbatim>\<open>CallGroup\<close> and \<^verbatim>\<open>PendingCall\<close> of \<^verbatim>\<open>memodb/include/memodb/Server.h\<close> and the
  sections of \<^verbatim>\<open>memodb/lib/Server.cpp\<close> that run while \<^verbatim>\<open>CallGroup::mutex\<close> is held. The queues
  of the source hold pointers into the map \<^verbatim>\<open>calls\<close>; here a pointer is the address of an
  object, \<open>calls\<close> maps a call to the address of its \<^verbatim>\<open>PendingCall\<close> and \<open>objects\<close> maps the
  addresses in use to their contents. Erasing a map element frees its address, and
  reading a pointer to a freed address is the error \<open>UseAfterFree\<close>. Addresses are not used
  twice. Time is in nanoseconds.

  The invariant \<open>group_inv\<close> is the comment of \<^verbatim>\<open>PendingCall::assigned\<close>. The lemmas show that
  every locked section keeps it, that therefore no section reads a dangling pointer, and
  what each section does to the calls that wait for a worker.
\<close>

record pending_call =
  pc_call :: call
  pc_assigned :: bool
  pc_start_time :: int
  pc_timeout_minutes :: u32
  pc_finished :: bool

record call_group =
  unstarted_calls :: "nat list"
  calls_to_retry :: "nat list"
  calls :: "call \<Rightarrow> nat option"
  objects :: "nat \<Rightarrow> pending_call option"
  next_object :: nat

definition INITIAL_TIMEOUT_MINUTES :: u32 where
  "INITIAL_TIMEOUT_MINUTES = 4"

definition group_new :: call_group where
  "group_new = \<lparr>unstarted_calls = [], calls_to_retry = [], calls = (\<lambda>_. None), objects = (\<lambda>_. None), next_object = 0\<rparr>"

definition pending_new :: "call \<Rightarrow> pending_call" where
  "pending_new c = \<lparr>pc_call = c, pc_assigned = False, pc_start_time = 0,
     pc_timeout_minutes = INITIAL_TIMEOUT_MINUTES, pc_finished = False\<rparr>"

definition load_call :: "call_group \<Rightarrow> nat \<Rightarrow> abort + pending_call" where
  "load_call g p = (case objects g p of None \<Rightarrow> Inl UseAfterFree | Some pc \<Rightarrow> Inr pc)"

definition store_call :: "nat \<Rightarrow> pending_call \<Rightarrow> call_group \<Rightarrow> call_group" where
  "store_call p pc g = g\<lparr>objects := (objects g)(p \<mapsto> pc)\<rparr>"

text \<open>\<^verbatim>\<open>calls.erase(call)\<close>.\<close>

definition erase_call :: "call \<Rightarrow> call_group \<Rightarrow> call_group" where
  "erase_call c g = (case calls g c of
     None \<Rightarrow> g
   | Some p \<Rightarrow> g\<lparr>calls := (calls g)(c := None), objects := (objects g)(p := None)\<rparr>)"

fun pop_finished :: "nat list \<Rightarrow> call_group \<Rightarrow> abort + nat list \<times> call_group" where
  "pop_finished [] g = Inr ([], g)"
| "pop_finished (p # ps) g = then_do (load_call g p) (\<lambda>pc.
     if \<not> pc_finished pc then Inr (p # ps, g) else pop_finished ps (erase_call (pc_call pc) g))"

definition deleteSomeFinishedCalls :: "call_group \<Rightarrow> abort + call_group" where
  "deleteSomeFinishedCalls g =
     then_do (pop_finished (unstarted_calls g) g) (\<lambda>(ps, g).
     then_do (pop_finished (calls_to_retry g) (g\<lparr>unstarted_calls := ps\<rparr>)) (\<lambda>(ps, g).
       Inr (g\<lparr>calls_to_retry := ps\<rparr>)))"

definition deleteIfPossible :: "nat \<Rightarrow> call_group \<Rightarrow> abort + call_group" where
  "deleteIfPossible p g = then_do (load_call g p) (\<lambda>pc.
     if pc_assigned pc then Inr (erase_call (pc_call pc) g) else deleteSomeFinishedCalls g)"

text \<open>The locked part of \<^verbatim>\<open>sendCallToWorker\<close>, and the two queues it is used for.\<close>

definition assign_call :: "int \<Rightarrow> nat \<Rightarrow> call_group \<Rightarrow> abort + call \<times> call_group" where
  "assign_call now p g = then_do (load_call g p) (\<lambda>pc.
     Inr (pc_call pc, store_call p (pc\<lparr>pc_assigned := True, pc_start_time := now\<rparr>) g))"

definition take_unstarted :: "int \<Rightarrow> call_group \<Rightarrow> abort + call option \<times> call_group" where
  "take_unstarted now g = then_do (deleteSomeFinishedCalls g) (\<lambda>g.
     case unstarted_calls g of
       [] \<Rightarrow> Inr (None, g)
     | p # ps \<Rightarrow> then_do (assign_call now p (g\<lparr>unstarted_calls := ps\<rparr>)) (\<lambda>(c, g). Inr (Some c, g)))"

definition take_retry :: "int \<Rightarrow> call_group \<Rightarrow> abort + call option \<times> call_group" where
  "take_retry now g = then_do (deleteSomeFinishedCalls g) (\<lambda>g.
     case calls_to_retry g of
       [] \<Rightarrow> Inr (None, g)
     | p # ps \<Rightarrow> then_do (assign_call now p (g\<lparr>calls_to_retry := ps\<rparr>)) (\<lambda>(c, g). Inr (Some c, g)))"

definition minutes_floor :: "int \<Rightarrow> int" where
  "minutes_floor d = d div 60000000000"

text \<open>The locked part of \<^verbatim>\<open>handleEvaluateCall\<close>, after the second look into the store.\<close>

definition evaluate_locked :: "int \<Rightarrow> call \<Rightarrow> call_group \<Rightarrow> abort + call_group" where
  "evaluate_locked now c g =
     (case calls g c of
        None \<Rightarrow>
          (let p = next_object g in
           Inr (g\<lparr>calls := (calls g)(c \<mapsto> p), objects := (objects g)(p \<mapsto> pending_new c),
                 next_object := Suc p, unstarted_calls := unstarted_calls g @ [p]\<rparr>))
      | Some p \<Rightarrow> then_do (load_call g p) (\<lambda>pc.
          if pc_assigned pc then
            if minutes_floor (now - pc_start_time pc) \<ge> uint (pc_timeout_minutes pc) then
              Inr ((store_call p (pc\<lparr>pc_timeout_minutes := pc_timeout_minutes pc * 2, pc_assigned := False\<rparr>) g)
                     \<lparr>calls_to_retry := calls_to_retry g @ [p]\<rparr>)
            else Inr g
          else Inr g))"

text \<open>The locked part of \<^verbatim>\<open>handleCallResult\<close>.\<close>

definition result_locked :: "call \<Rightarrow> call_group \<Rightarrow> abort + call_group" where
  "result_locked c g =
     (case calls g c of
        None \<Rightarrow> Inr g
      | Some p \<Rightarrow> then_do (load_call g p) (\<lambda>pc. deleteIfPossible p (store_call p (pc\<lparr>pc_finished := True\<rparr>) g)))"

subsection \<open>The invariant\<close>

definition unassigned :: "call_group \<Rightarrow> nat set" where
  "unassigned g = {p. \<exists>pc. objects g p = Some pc \<and> \<not> pc_assigned pc}"

definition queues_inv :: "call_group \<Rightarrow> nat list \<Rightarrow> bool" where
  "queues_inv g ps \<longleftrightarrow>
     (\<forall>c p. calls g c = Some p \<longleftrightarrow> (\<exists>pc. objects g p = Some pc \<and> pc_call pc = c))
     \<and> distinct ps \<and> set ps = unassigned g
     \<and> (\<forall>p pc. objects g p = Some pc \<longrightarrow> pc_assigned pc \<longrightarrow> \<not> pc_finished pc)
     \<and> (\<forall>p \<ge> next_object g. objects g p = None)"

definition group_inv :: "call_group \<Rightarrow> bool" where
  "group_inv g \<longleftrightarrow> queues_inv g (unstarted_calls g @ calls_to_retry g)"

lemma group_inv_new: "group_inv group_new"
  by (simp add: group_inv_def queues_inv_def group_new_def unassigned_def)

text \<open>The calls of a queue that wait for a worker; calls that are finished do not.\<close>

fun waiting :: "call_group \<Rightarrow> nat list \<Rightarrow> call list" where
  "waiting g [] = []"
| "waiting g (p # ps) = (case objects g p of
     Some pc \<Rightarrow> (if pc_finished pc then [] else [pc_call pc]) | None \<Rightarrow> []) @ waiting g ps"

definition unstarted :: "call_group \<Rightarrow> call list" where
  "unstarted g = waiting g (unstarted_calls g)"

definition to_retry :: "call_group \<Rightarrow> call list" where
  "to_retry g = waiting g (calls_to_retry g)"

text \<open>The calls assigned to a worker.\<close>

definition assigned :: "call_group \<Rightarrow> call \<Rightarrow> bool" where
  "assigned g c \<longleftrightarrow> (\<exists>p pc. objects g p = Some pc \<and> pc_call pc = c \<and> pc_assigned pc)"
subsection \<open>Deleting finished calls\<close>

lemma load_queued: "queues_inv g ps \<Longrightarrow> p \<in> set ps \<Longrightarrow> \<exists>pc. load_call g p = Inr pc \<and> objects g p = Some pc \<and> \<not> pc_assigned pc"
  by (auto simp: queues_inv_def unassigned_def load_call_def)

lemma erase_object:
  assumes "queues_inv g ps" and "objects g p = Some pc"
  shows "erase_call (pc_call pc) g = g\<lparr>calls := (calls g)(pc_call pc := None), objects := (objects g)(p := None)\<rparr>"
proof -
  have "calls g (pc_call pc) = Some p" using assms by (auto simp: queues_inv_def)
  then show ?thesis by (simp add: erase_call_def)
qed

lemma erase_inv:
  assumes "queues_inv g ps" and "objects g p = Some pc"
  shows "queues_inv (erase_call (pc_call pc) g) (remove1 p ps)"
proof -
  let ?g = "g\<lparr>calls := (calls g)(pc_call pc := None), objects := (objects g)(p := None)\<rparr>"
  have iff: "calls g c = Some p' \<longleftrightarrow> (\<exists>pc. objects g p' = Some pc \<and> pc_call pc = c)" for c p'
    using assms(1) by (simp add: queues_inv_def)
  have inj: "p' = p" if "objects g p' = Some pc'" "pc_call pc' = pc_call pc" for p' pc'
    using iff [of "pc_call pc" p'] iff [of "pc_call pc" p] that assms(2) by auto
  have "calls ?g c = Some p' \<longleftrightarrow> (\<exists>pc. objects ?g p' = Some pc \<and> pc_call pc = c)" for c p'
  proof (cases "p' = p")
    case True
    then show ?thesis using iff [of c p] assms(2) by simp
  next
    case False
    then have "\<not> (\<exists>pc'. objects g p' = Some pc' \<and> pc_call pc' = pc_call pc)" using inj by blast
    then show ?thesis using False iff [of c p'] by (cases "c = pc_call pc") simp_all
  qed
  moreover have "unassigned ?g = unassigned g - {p}" by (auto simp: unassigned_def split: if_splits)
  moreover have "distinct ps" "set ps = unassigned g" "\<forall>p \<ge> next_object g. objects g p = None"
    "objects g p' = Some pc' \<Longrightarrow> pc_assigned pc' \<Longrightarrow> \<not> pc_finished pc'" for p' pc'
    using assms(1) by (auto simp only: queues_inv_def)
  ultimately have "queues_inv ?g (remove1 p ps)"
    unfolding queues_inv_def by (intro conjI allI impI) (auto split: if_splits)
  then show ?thesis using erase_object [OF assms] by simp
qed

text \<open>A change that only forgets finished calls.\<close>

definition forgets :: "call_group \<Rightarrow> call_group \<Rightarrow> bool" where
  "forgets g g' \<longleftrightarrow> waiting g' = waiting g \<and> assigned g' = assigned g \<and> next_object g' = next_object g
     \<and> (\<forall>p pc. objects g' p = Some pc \<longrightarrow> objects g p = Some pc)"

lemma forgets_refl [simp]: "forgets g g"
  by (simp add: forgets_def)

lemma forgets_trans: "forgets g g' \<Longrightarrow> forgets g' g'' \<Longrightarrow> forgets g g''"
  by (simp add: forgets_def)

lemma erase_forgets:
  assumes "queues_inv g ps" and "objects g p = Some pc" and "pc_finished pc"
  shows "forgets g (erase_call (pc_call pc) g)"
proof -
  have "waiting (erase_call (pc_call pc) g) qs = waiting g qs" for qs
    using assms(2,3) by (induction qs) (auto simp: erase_object [OF assms(1,2)] split: option.splits)
  moreover have "\<not> pc_assigned pc" using assms by (auto simp: queues_inv_def)
  then have "assigned (erase_call (pc_call pc) g) = assigned g"
    using assms(2) unfolding assigned_def erase_object [OF assms(1,2)]
    by (intro ext) (auto split: if_splits; metis option.inject)
  ultimately show ?thesis
    using assms(2) by (auto simp: forgets_def erase_object [OF assms(1,2)] split: if_splits)
qed

lemma erase_fields [simp]:
  "unstarted_calls (erase_call c g) = unstarted_calls g" "calls_to_retry (erase_call c g) = calls_to_retry g"
  by (auto simp: erase_call_def split: option.splits)

lemma pop_finished_ok:
  assumes "queues_inv g (as @ ps @ bs)"
  shows "\<exists>ps' g'. pop_finished ps g = Inr (ps', g') \<and> queues_inv g' (as @ ps' @ bs) \<and> forgets g g'
    \<and> waiting g' ps' = waiting g ps
    \<and> (ps' \<noteq> [] \<longrightarrow> (\<exists>pc. objects g' (hd ps') = Some pc \<and> \<not> pc_finished pc))
    \<and> unstarted_calls g' = unstarted_calls g \<and> calls_to_retry g' = calls_to_retry g"
  using assms
proof (induction ps arbitrary: g)
  case (Cons p ps)
  from load_queued [OF Cons.prems, of p] obtain pc where pc: "load_call g p = Inr pc" "objects g p = Some pc" "\<not> pc_assigned pc"
    by auto
  show ?case
  proof (cases "pc_finished pc")
    case True
    let ?g = "erase_call (pc_call pc) g"
    have "p \<notin> set as" using Cons.prems by (auto simp: queues_inv_def)
    then have "queues_inv ?g (as @ ps @ bs)"
      using erase_inv [OF Cons.prems pc(2)] by (simp add: remove1_append)
    moreover have f: "forgets g ?g" using erase_forgets [OF Cons.prems pc(2) True] .
    moreover have "waiting ?g ps = waiting g (p # ps)"
      using f True pc(2) by (simp add: forgets_def)
    ultimately show ?thesis
      using Cons.IH [of ?g] pc(1) True forgets_trans [OF f] by fastforce
  next
    case False
    then show ?thesis using pc Cons.prems by simp
  qed
qed simp

lemma waiting_fields [simp]:
  "waiting (g\<lparr>unstarted_calls := us\<rparr>) = waiting g" "waiting (g\<lparr>calls_to_retry := rs\<rparr>) = waiting g"
proof -
  show "waiting (g\<lparr>unstarted_calls := us\<rparr>) = waiting g"
  proof
    show "waiting (g\<lparr>unstarted_calls := us\<rparr>) ps = waiting g ps" for ps by (induction ps) simp_all
  qed
  show "waiting (g\<lparr>calls_to_retry := rs\<rparr>) = waiting g"
  proof
    show "waiting (g\<lparr>calls_to_retry := rs\<rparr>) ps = waiting g ps" for ps by (induction ps) simp_all
  qed
qed

lemma queue_fields [simp]:
  "queues_inv (g\<lparr>unstarted_calls := us\<rparr>) ps = queues_inv g ps" "queues_inv (g\<lparr>calls_to_retry := rs\<rparr>) ps = queues_inv g ps"
  "assigned (g\<lparr>unstarted_calls := us\<rparr>) = assigned g" "assigned (g\<lparr>calls_to_retry := rs\<rparr>) = assigned g"
  "forgets g' (g\<lparr>unstarted_calls := us\<rparr>) = forgets g' g" "forgets g' (g\<lparr>calls_to_retry := rs\<rparr>) = forgets g' g"
  by (auto simp: queues_inv_def unassigned_def assigned_def fun_eq_iff forgets_def)

text \<open>The first call of a queue, if there is one, is not finished.\<close>

definition head_unfinished :: "call_group \<Rightarrow> nat list \<Rightarrow> bool" where
  "head_unfinished g ps \<longleftrightarrow> (ps \<noteq> [] \<longrightarrow> (\<exists>pc. objects g (hd ps) = Some pc \<and> \<not> pc_finished pc))"

lemma head_unfinished_forgets:
  assumes "head_unfinished g ps" and "forgets g g'" and "queues_inv g' (ps @ qs)"
  shows "head_unfinished g' ps"
proof (cases ps)
  case (Cons p ps')
  then obtain pc where "objects g' p = Some pc" using load_queued [OF assms(3), of p] by auto
  with assms(1,2) Cons show ?thesis by (auto simp: head_unfinished_def forgets_def)
qed (simp add: head_unfinished_def)

lemma deleteSomeFinishedCalls_ok:
  assumes "group_inv g"
  shows "\<exists>g'. deleteSomeFinishedCalls g = Inr g' \<and> group_inv g' \<and> forgets g g'
    \<and> unstarted g' = unstarted g \<and> to_retry g' = to_retry g
    \<and> head_unfinished g' (unstarted_calls g') \<and> head_unfinished g' (calls_to_retry g')"
proof -
  let ?us = "unstarted_calls g" and ?rs = "calls_to_retry g"
  obtain us g1 where 1: "pop_finished ?us g = Inr (us, g1)" "queues_inv g1 (us @ ?rs)" "forgets g g1"
    "waiting g1 us = waiting g ?us" "head_unfinished g1 us" "calls_to_retry g1 = ?rs"
    using pop_finished_ok [of g "[]" ?us ?rs] assms by (auto simp: group_inv_def head_unfinished_def)
  let ?g1 = "g1\<lparr>unstarted_calls := us\<rparr>"
  obtain rs g2 where 2: "pop_finished ?rs ?g1 = Inr (rs, g2)" "queues_inv g2 (us @ rs)" "forgets ?g1 g2"
    "waiting g2 rs = waiting g1 ?rs" "head_unfinished g2 rs" "unstarted_calls g2 = us"
    using pop_finished_ok [of ?g1 us ?rs "[]"] 1 by (auto simp: head_unfinished_def)
  have f: "forgets g1 g2" using 2(3) 1(3) by (auto simp: forgets_def assigned_def fun_eq_iff)
  have h: "head_unfinished g2 us" by (rule head_unfinished_forgets [OF 1(5) f 2(2)])
  show ?thesis
    using 1 2 f h forgets_trans [OF 1(3) f]
    by (auto simp: deleteSomeFinishedCalls_def group_inv_def unstarted_def to_retry_def forgets_def head_unfinished_def)
qed

subsection \<open>Changing one pending call\<close>

lemma queues_inv_calls: "queues_inv g ps \<Longrightarrow> calls g c = Some p \<longleftrightarrow> (\<exists>pc. objects g p = Some pc \<and> pc_call pc = c)"
  by (simp add: queues_inv_def)

lemma objects_inj:
  assumes "queues_inv g ps" and "objects g p = Some pc" and "objects g q = Some pd" and "pc_call pc = pc_call pd"
  shows "p = q"
  using queues_inv_calls [OF assms(1), of "pc_call pd" p] queues_inv_calls [OF assms(1), of "pc_call pd" q] assms(2-4)
  by auto

lemma store_fields [simp]:
  "unstarted_calls (store_call p pc g) = unstarted_calls g" "calls_to_retry (store_call p pc g) = calls_to_retry g"
  "calls (store_call p pc g) = calls g" "next_object (store_call p pc g) = next_object g"
  "objects (store_call p pc g) = (objects g)(p \<mapsto> pc)"
  by (simp_all add: store_call_def)

lemma store_inv:
  assumes "queues_inv g ps" and "objects g p = Some pc" and "pc_call pc' = pc_call pc"
    and "pc_assigned pc' \<longrightarrow> \<not> pc_finished pc'" and "distinct ps'"
    and "set ps' = (if pc_assigned pc' then set ps - {p} else insert p (set ps))"
  shows "queues_inv (store_call p pc' g) ps'"
proof -
  have calls_iff: "calls g c = Some q \<longleftrightarrow> (\<exists>pc. (if q = p then Some pc' else objects g q) = Some pc \<and> pc_call pc = c)" for c q
    using queues_inv_calls [OF assms(1), of c q] assms(2,3) by auto
  have un: "unassigned (store_call p pc' g) = set ps'"
    using assms(1,6) by (auto simp: unassigned_def queues_inv_def split: if_splits)
  have p: "p < next_object g" using assms(1,2) by (metis linorder_not_le option.distinct(1) queues_inv_def)
  show ?thesis
    unfolding queues_inv_def un
    using assms(1,4,5) calls_iff p by (auto simp: queues_inv_def)
qed

lemma waiting_store: "p \<notin> set ps \<Longrightarrow> waiting (store_call p pc g) ps = waiting g ps"
  by (induction ps) auto

lemma waiting_calls: "c \<in> set (waiting g ps) \<Longrightarrow> \<exists>p \<in> set ps. \<exists>pc. objects g p = Some pc \<and> pc_call pc = c \<and> \<not> pc_finished pc"
  by (induction ps) (auto split: option.splits if_splits)

lemma waiting_finish:
  assumes "queues_inv g qs" and "objects g p = Some pc" and "pc_finished pc'"
  shows "waiting (store_call p pc' g) ps = removeAll (pc_call pc) (waiting g ps)"
proof (induction ps)
  case (Cons q ps)
  have "pc_call pd \<noteq> pc_call pc" if "objects g q = Some pd" "q \<noteq> p" for pd
    using objects_inj [OF assms(1,2) that(1)] that by auto
  with Cons assms(2,3) show ?case by (cases "q = p") (auto split: option.splits)
qed simp

lemma assigned_store:
  assumes "queues_inv g qs" and "objects g p = Some pc" and "pc_call pc' = pc_call pc"
  shows "assigned (store_call p pc' g) = (assigned g)(pc_call pc := pc_assigned pc')"
proof
  fix c
  show "assigned (store_call p pc' g) c = ((assigned g)(pc_call pc := pc_assigned pc')) c"
  proof (cases "c = pc_call pc")
    case True
    have "q = p" if "objects g q = Some pd" "pc_call pd = c" for q pd
      using objects_inj [OF assms(1) that(1) assms(2)] that(2) True by simp
    then have "assigned (store_call p pc' g) c \<longleftrightarrow> pc_assigned pc'"
      using assms(3) True by (force simp: assigned_def)
    then show ?thesis using True by simp
  next
    case False
    then have "(\<exists>pc. objects (store_call p pc' g) q = Some pc \<and> pc_call pc = c \<and> pc_assigned pc)
        \<longleftrightarrow> (\<exists>pc. objects g q = Some pc \<and> pc_call pc = c \<and> pc_assigned pc)" for q
      using assms(2,3) by (cases "q = p") simp_all
    then show ?thesis using False by (simp add: assigned_def)
  qed
qed

subsection \<open>The locked sections\<close>

lemma assign_ok:
  assumes "queues_inv g (as @ p # bs)" and "objects g p = Some pc" and "\<not> pc_finished pc"
  shows "\<exists>g'. assign_call now p g = Inr (pc_call pc, g') \<and> queues_inv g' (as @ bs)
    \<and> (\<forall>ps. p \<notin> set ps \<longrightarrow> waiting g' ps = waiting g ps) \<and> assigned g' = (assigned g)(pc_call pc := True)
    \<and> unstarted_calls g' = unstarted_calls g \<and> calls_to_retry g' = calls_to_retry g"
proof -
  let ?pc = "pc\<lparr>pc_assigned := True, pc_start_time := now\<rparr>"
  have "distinct (as @ p # bs)" using assms(1) by (simp add: queues_inv_def)
  then have "queues_inv (store_call p ?pc g) (as @ bs)"
    using assms by (intro store_inv [OF assms(1,2)]) auto
  moreover have "assigned (store_call p ?pc g) = (assigned g)(pc_call pc := True)"
    using assigned_store [OF assms(1,2), of ?pc] by simp
  ultimately show ?thesis
    using assms(2) by (auto simp: assign_call_def load_call_def waiting_store)
qed

lemma take_unstarted_ok:
  assumes "group_inv g"
  shows "\<exists>r g'. take_unstarted now g = Inr (r, g') \<and> group_inv g' \<and> to_retry g' = to_retry g
    \<and> (case unstarted g of
         [] \<Rightarrow> r = None \<and> unstarted g' = [] \<and> assigned g' = assigned g
       | c # cs \<Rightarrow> r = Some c \<and> unstarted g' = cs \<and> assigned g' = (assigned g)(c := True))"
proof -
  obtain g1 where g1: "deleteSomeFinishedCalls g = Inr g1" "group_inv g1" "forgets g g1"
    "unstarted g1 = unstarted g" "to_retry g1 = to_retry g" "head_unfinished g1 (unstarted_calls g1)"
    using deleteSomeFinishedCalls_ok [OF assms] by blast
  have a: "assigned g1 = assigned g" using g1(3) by (simp add: forgets_def)
  show ?thesis
  proof (cases "unstarted_calls g1")
    case Nil
    then have "unstarted g = []" using g1(4) by (simp add: unstarted_def)
    then show ?thesis using Nil g1 a by (simp add: take_unstarted_def)
  next
    case (Cons p ps)
    let ?g = "g1\<lparr>unstarted_calls := ps\<rparr>" and ?rs = "calls_to_retry g1"
    obtain pc where pc: "objects g1 p = Some pc" "\<not> pc_finished pc"
      using g1(6) Cons by (auto simp: head_unfinished_def)
    have q: "queues_inv ?g ([] @ p # (ps @ ?rs))" using g1(2) Cons by (simp add: group_inv_def)
    then have d: "p \<notin> set ps" "p \<notin> set ?rs" by (auto simp: queues_inv_def)
    obtain g2 where g2: "assign_call now p ?g = Inr (pc_call pc, g2)" "queues_inv g2 (ps @ ?rs)"
      "waiting g2 ps = waiting g1 ps" "waiting g2 ?rs = waiting g1 ?rs" "assigned g2 = (assigned g1)(pc_call pc := True)"
      "unstarted_calls g2 = ps" "calls_to_retry g2 = ?rs"
      using assign_ok [OF q, of pc now] pc d by auto
    have "unstarted g = pc_call pc # waiting g1 ps" using g1(4) Cons pc by (simp add: unstarted_def)
    then show ?thesis
      using g1 g2 a Cons by (simp add: take_unstarted_def group_inv_def unstarted_def to_retry_def)
  qed
qed

lemma take_retry_ok:
  assumes "group_inv g"
  shows "\<exists>r g'. take_retry now g = Inr (r, g') \<and> group_inv g' \<and> unstarted g' = unstarted g
    \<and> (case to_retry g of
         [] \<Rightarrow> r = None \<and> to_retry g' = [] \<and> assigned g' = assigned g
       | c # cs \<Rightarrow> r = Some c \<and> to_retry g' = cs \<and> assigned g' = (assigned g)(c := True))"
proof -
  obtain g1 where g1: "deleteSomeFinishedCalls g = Inr g1" "group_inv g1" "forgets g g1"
    "unstarted g1 = unstarted g" "to_retry g1 = to_retry g" "head_unfinished g1 (calls_to_retry g1)"
    using deleteSomeFinishedCalls_ok [OF assms] by blast
  have a: "assigned g1 = assigned g" using g1(3) by (simp add: forgets_def)
  show ?thesis
  proof (cases "calls_to_retry g1")
    case Nil
    then have "to_retry g = []" using g1(5) by (simp add: to_retry_def)
    then show ?thesis using Nil g1 a by (simp add: take_retry_def)
  next
    case (Cons p ps)
    let ?g = "g1\<lparr>calls_to_retry := ps\<rparr>" and ?us = "unstarted_calls g1"
    obtain pc where pc: "objects g1 p = Some pc" "\<not> pc_finished pc"
      using g1(6) Cons by (auto simp: head_unfinished_def)
    have q: "queues_inv ?g (?us @ p # ps)" using g1(2) Cons by (simp add: group_inv_def)
    then have d: "p \<notin> set ps" "p \<notin> set ?us" by (auto simp: queues_inv_def)
    obtain g2 where g2: "assign_call now p ?g = Inr (pc_call pc, g2)" "queues_inv g2 (?us @ ps)"
      "waiting g2 ps = waiting g1 ps" "waiting g2 ?us = waiting g1 ?us" "assigned g2 = (assigned g1)(pc_call pc := True)"
      "unstarted_calls g2 = ?us" "calls_to_retry g2 = ps"
      using assign_ok [OF q, of pc now] pc d by auto
    have "to_retry g = pc_call pc # waiting g1 ps" using g1(5) Cons pc by (simp add: to_retry_def)
    then show ?thesis
      using g1 g2 a Cons by (simp add: take_retry_def group_inv_def unstarted_def to_retry_def)
  qed
qed

text \<open>The time after which an assigned call is queued again.\<close>

definition timed_out :: "int \<Rightarrow> call_group \<Rightarrow> call \<Rightarrow> bool" where
  "timed_out now g c \<longleftrightarrow> (\<exists>p pc. calls g c = Some p \<and> objects g p = Some pc \<and> pc_assigned pc
     \<and> uint (pc_timeout_minutes pc) \<le> minutes_floor (now - pc_start_time pc))"

lemma evaluate_new:
  assumes "group_inv g" and "calls g c = None"
  shows "\<exists>g'. evaluate_locked now c g = Inr g' \<and> group_inv g' \<and> unstarted g' = unstarted g @ [c]
    \<and> to_retry g' = to_retry g \<and> assigned g' = assigned g"
proof -
  let ?p = "next_object g"
  let ?g = "g\<lparr>calls := (calls g)(c \<mapsto> ?p), objects := (objects g)(?p \<mapsto> pending_new c), next_object := Suc ?p,
    unstarted_calls := unstarted_calls g @ [?p]\<rparr>"
  have inv: "queues_inv g (unstarted_calls g @ calls_to_retry g)" using assms(1) by (simp add: group_inv_def)
  have p: "objects g ?p = None" using inv by (simp add: queues_inv_def)
  then have np: "?p \<notin> set (unstarted_calls g @ calls_to_retry g)"
    using inv by (auto simp: queues_inv_def unassigned_def)
  have nc: "pc_call pc \<noteq> c" if "objects g q = Some pc" for q pc
    using queues_inv_calls [OF inv, of c q] assms(2) that by auto
  have calls_iff: "calls ?g d = Some q \<longleftrightarrow> (\<exists>pc. objects ?g q = Some pc \<and> pc_call pc = d)" for d q
    using queues_inv_calls [OF inv, of d q] nc [of q] p by (cases "q = ?p") (auto simp: pending_new_def)
  have "unassigned ?g = insert ?p (unassigned g)"
    using p by (auto simp: unassigned_def pending_new_def)
  then have "queues_inv ?g (unstarted_calls ?g @ calls_to_retry ?g)"
    unfolding queues_inv_def using calls_iff inv np
    by (auto simp: queues_inv_def pending_new_def)
  moreover have w: "waiting ?g ps = waiting g ps" if "?p \<notin> set ps" for ps
    using that by (induction ps) auto
  then have "waiting ?g (ps @ [?p]) = waiting g ps @ [c]" if "?p \<notin> set ps" for ps
    using that by (induction ps) (auto simp: pending_new_def)
  moreover have "(\<exists>pc. objects ?g q = Some pc \<and> pc_call pc = d \<and> pc_assigned pc)
      \<longleftrightarrow> (\<exists>pc. objects g q = Some pc \<and> pc_call pc = d \<and> pc_assigned pc)" for d q
    using p by (cases "q = ?p") (simp_all add: pending_new_def)
  then have "assigned ?g = assigned g" by (simp add: assigned_def fun_eq_iff)
  ultimately show ?thesis
    using assms(2) np w by (auto simp: evaluate_locked_def group_inv_def unstarted_def to_retry_def Let_def)
qed

lemma evaluate_known:
  assumes "group_inv g" and "calls g c \<noteq> None"
  shows "\<exists>g'. evaluate_locked now c g = Inr g' \<and> group_inv g' \<and> unstarted g' = unstarted g
    \<and> (if timed_out now g c then to_retry g' = to_retry g @ [c] \<and> assigned g' = (assigned g)(c := False) else g' = g)"
proof -
  have inv: "queues_inv g (unstarted_calls g @ calls_to_retry g)" using assms(1) by (simp add: group_inv_def)
  obtain p where p: "calls g c = Some p" using assms(2) by blast
  then obtain pc where pc: "objects g p = Some pc" "pc_call pc = c" using queues_inv_calls [OF inv] by blast
  have t: "timed_out now g c \<longleftrightarrow> pc_assigned pc \<and> uint (pc_timeout_minutes pc) \<le> minutes_floor (now - pc_start_time pc)"
    using p pc by (simp add: timed_out_def)
  show ?thesis
  proof (cases "timed_out now g c")
    case False
    then show ?thesis using p pc t assms(1) by (auto simp: evaluate_locked_def load_call_def)
  next
    case True
    let ?pc = "pc\<lparr>pc_timeout_minutes := pc_timeout_minutes pc * 2, pc_assigned := False\<rparr>"
    let ?g = "store_call p ?pc g"
    have fresh: "p \<notin> set (unstarted_calls g @ calls_to_retry g)"
      using inv pc True t by (auto simp: queues_inv_def unassigned_def)
    have nf: "\<not> pc_finished pc" using inv pc True t by (auto simp: queues_inv_def)
    have "distinct (unstarted_calls g @ calls_to_retry g @ [p])" using inv fresh by (auto simp: queues_inv_def)
    then have "queues_inv ?g (unstarted_calls g @ calls_to_retry g @ [p])"
      by (intro store_inv [OF inv pc(1)]) auto
    moreover have "waiting ?g (ps @ [p]) = waiting g ps @ [c]" if "p \<notin> set ps" for ps
      using that nf pc(2) by (induction ps) auto
    moreover have "assigned ?g = (assigned g)(c := False)" using assigned_store [OF inv pc(1), of ?pc] pc(2) by simp
    ultimately show ?thesis
      using True t p pc fresh
      by (auto simp: evaluate_locked_def load_call_def group_inv_def unstarted_def to_retry_def waiting_store)
  qed
qed

lemma erase_assigned:
  assumes "queues_inv g (us @ rs)" and "objects g p = Some pc" and "pc_assigned pc"
  shows "queues_inv (erase_call (pc_call pc) g) (us @ rs)"
    "waiting (erase_call (pc_call pc) g) us = removeAll (pc_call pc) (waiting g us)"
    "waiting (erase_call (pc_call pc) g) rs = removeAll (pc_call pc) (waiting g rs)"
    "assigned (erase_call (pc_call pc) g) = (assigned g)(pc_call pc := False)"
proof -
  let ?g = "erase_call (pc_call pc) g"
  have p: "p \<notin> set (us @ rs)" using assms by (auto simp: queues_inv_def unassigned_def)
  then show "queues_inv ?g (us @ rs)"
    using erase_inv [OF assms(1,2)] by (simp add: remove1_idem)
  have w: "waiting ?g ps = removeAll (pc_call pc) (waiting g ps)" if "p \<notin> set ps" for ps
  proof -
    have "pc_call pc \<notin> set (waiting g ps)"
      using that waiting_calls [of "pc_call pc" g ps] objects_inj [OF assms(1,2)] by metis
    moreover have "waiting ?g ps = waiting g ps"
      using that by (induction ps) (auto simp: erase_object [OF assms(1,2)])
    ultimately show ?thesis by simp
  qed
  from p show "waiting ?g us = removeAll (pc_call pc) (waiting g us)" by (intro w) simp
  from p show "waiting ?g rs = removeAll (pc_call pc) (waiting g rs)" by (intro w) simp
  show "assigned ?g = (assigned g)(pc_call pc := False)"
  proof
    fix c
    have "(\<exists>pd. objects ?g q = Some pd \<and> pc_call pd = c \<and> pc_assigned pd)
        \<longleftrightarrow> c \<noteq> pc_call pc \<and> (\<exists>pd. objects g q = Some pd \<and> pc_call pd = c \<and> pc_assigned pd)" for q
      using objects_inj [OF assms(1,2), of q] assms(2)
      by (cases "q = p") (auto simp: erase_object [OF assms(1,2)])
    then show "assigned ?g c = ((assigned g)(pc_call pc := False)) c" by (auto simp: assigned_def)
  qed
qed

lemma result_ok:
  assumes "group_inv g"
  shows "\<exists>g'. result_locked c g = Inr g' \<and> group_inv g' \<and> unstarted g' = removeAll c (unstarted g)
    \<and> to_retry g' = removeAll c (to_retry g) \<and> assigned g' = (assigned g)(c := False)"
proof -
  have inv: "queues_inv g (unstarted_calls g @ calls_to_retry g)" using assms by (simp add: group_inv_def)
  show ?thesis
  proof (cases "calls g c")
    case None
    have no: "pc_call pc \<noteq> c" if "objects g q = Some pc" for q pc
      using queues_inv_calls [OF inv, of c q] None that by auto
    then have "c \<notin> set (waiting g ps)" for ps using waiting_calls [of c g ps] by blast
    moreover have "\<not> assigned g c" using no by (auto simp: assigned_def)
    ultimately show ?thesis
      using None assms by (simp add: result_locked_def unstarted_def to_retry_def fun_upd_idem)
  next
    case (Some p)
    then obtain pc where pc: "objects g p = Some pc" "pc_call pc = c" using queues_inv_calls [OF inv] by blast
    show ?thesis
    proof (cases "pc_assigned pc")
      case True
      then have "result_locked c g = Inr (erase_call c g)"
        using Some pc by (simp add: result_locked_def deleteIfPossible_def load_call_def erase_call_def store_call_def)
      then show ?thesis using erase_assigned [OF inv pc(1) True] pc(2) by (simp add: group_inv_def unstarted_def to_retry_def)
    next
      case False
      let ?pc = "pc\<lparr>pc_finished := True\<rparr>"
      have "p \<in> set (unstarted_calls g @ calls_to_retry g)" "distinct (unstarted_calls g @ calls_to_retry g)"
        using inv pc False by (auto simp: queues_inv_def unassigned_def)
      then have "queues_inv (store_call p ?pc g) (unstarted_calls g @ calls_to_retry g)"
        using False by (intro store_inv [OF inv pc(1)]) (auto simp: insert_absorb)
      then obtain g' where "deleteSomeFinishedCalls (store_call p ?pc g) = Inr g'" "group_inv g'"
          "assigned g' = assigned (store_call p ?pc g)"
          "unstarted g' = unstarted (store_call p ?pc g)" "to_retry g' = to_retry (store_call p ?pc g)"
        using deleteSomeFinishedCalls_ok [of "store_call p ?pc g"] by (auto simp: group_inv_def forgets_def)
      then show ?thesis
        using Some pc False assigned_store [OF inv pc(1), of ?pc]
        by (simp add: result_locked_def deleteIfPossible_def load_call_def unstarted_def to_retry_def
            waiting_finish [OF inv pc(1)])
    qed
  qed
qed

end
