(* ===== verification/Server.thy ===== *)
theory Server
  imports HTTP Call_Groups
begin

section \<open>Server: answering requests\<close>

text \<open>
  \<^verbatim>\<open>memodb/lib/Server.cpp\<close>, over the tables of virtual functions of the store and of the
  request. The state is the store, the call groups by function name and the worker groups
  by the bytes of the worker information's identifier; a pointer to a \<^verbatim>\<open>CallGroup\<close>, which is
  never deleted, is the name it is stored under. Each handler returns the new state and the
  request with its answer. The sections under a lock are functions of their own, and the
  inductive relation \<open>server_step\<close> interleaves them freely, as the threads of the server do.

  The lemmas show the invariant of the queues under every interleaving, that no section
  reads a deleted pending call, that every handler is a sequence of such steps and answers
  the request exactly once, what happens to a call between the request to evaluate it and
  its result, and that workers that keep asking are given every waiting call.
\<close>

record 's server =
  sv_store :: 's
  sv_call_groups :: "string \<Rightarrow> call_group option"
  sv_worker_groups :: "string \<Rightarrow> string list option"

text \<open>What the handlers take from their surroundings: libraries and the clock.\<close>

record server_env =
  se_lib :: req_lib
  se_utf8 :: "string \<Rightarrow> bool"
  se_now :: int

type_synonym ('s, 'q) handler = "'s server \<Rightarrow> 'q \<Rightarrow> abort + 's server \<times> 'q"

definition server_new :: "'s \<Rightarrow> 's server" where
  "server_new st = \<lparr>sv_store = st, sv_call_groups = (\<lambda>_. None), sv_worker_groups = (\<lambda>_. None)\<rparr>"

definition answer :: "'s server \<Rightarrow> abort + 'q \<Rightarrow> abort + 's server \<times> 'q" where
  "answer s r = then_do r (\<lambda>q. Inr (s, q))"

definition send_node ::
    "'s store \<Rightarrow> 'q request_ops \<Rightarrow> server_env \<Rightarrow> node \<Rightarrow> cid option \<Rightarrow> cache_control \<Rightarrow> ('s, 'q) handler" where
  "send_node S R E n cid_if_known cc s q =
     answer s (sendContentNode R (se_lib E) (store_get S (sv_store s)) q n cid_if_known cc)"

definition send_uris ::
    "'s store \<Rightarrow> 'q request_ops \<Rightarrow> server_env \<Rightarrow> uri list \<Rightarrow> cache_control \<Rightarrow> ('s, 'q) handler" where
  "send_uris S R E uris cc s q =
     answer s (sendContentURIs R (se_lib E) (se_utf8 E) (store_get S (sv_store s)) q uris cc)"

definition not_found :: "'q request_ops \<Rightarrow> string option \<Rightarrow> ('s, 'q) handler" where
  "not_found R detail s q = answer s (rq_sendError R q NotFound None ''Not Found'' detail)"

definition bad_request :: "'q request_ops \<Rightarrow> string option \<Rightarrow> string \<Rightarrow> string option \<Rightarrow> ('s, 'q) handler" where
  "bad_request R ty title detail s q = answer s (rq_sendError R q BadRequest ty title detail)"

subsection \<open>Identifiers and heads\<close>

definition handleRequestCID ::
    "'s store \<Rightarrow> 'q request_ops \<Rightarrow> server_env \<Rightarrow> string option \<Rightarrow> string option \<Rightarrow> ('s, 'q) handler" where
  "handleRequestCID S R E cid_str sub_str s q =
     (case cid_str of
        Some cid_str \<Rightarrow>
          if rq_method R q \<noteq> Some GET then answer s (rq_sendMethodNotAllowed R q ''GET, HEAD'')
          else (case cid_parse cid_str of
              None \<Rightarrow> bad_request R (Some ''/problems/invalid-or-unsupported-cid'') ''Invalid or unsupported CID''
                (Some (''CID '' @ [DQ] @ cid_str @ [DQ] @ '' could not be parsed.'')) s q
            | Some c \<Rightarrow>
                if sub_str = Some ''users'' then
                  then_do (st_list_names_using S (sv_store s) c) (\<lambda>names.
                  then_do (map_sum Undefined id (sum_map name_asURI names)) (\<lambda>uris.
                    send_uris S R E uris Mutable s q))
                else if sub_str \<noteq> None then not_found R None s q
                else then_do (st_getOptional S (sv_store s) c) (\<lambda>n.
                  case n of
                    None \<Rightarrow> not_found R (Some (''CID '' @ [DQ] @ cid_str @ [DQ] @ '' not found in store.'')) s q
                  | Some n \<Rightarrow> send_node S R E n (Some c) Immutable s q))
      | None \<Rightarrow>
          if sub_str \<noteq> None then not_found R None s q
          else if rq_method R q \<noteq> Some POST then answer s (rq_sendMethodNotAllowed R q ''POST'')
          else then_do (rq_getContentNode R q None) (\<lambda>(n, q).
            case n of
              None \<Rightarrow> Inr (s, q)
            | Some n \<Rightarrow> then_do (st_put S (sv_store s) n) (\<lambda>(c, st).
                answer (s\<lparr>sv_store := st\<rparr>) (rq_sendCreated R q
                  (Some (uri_default\<lparr>path_segments := [''cid'', asString base64url c]\<rparr>))))))"

definition expected_cid :: "'q request_ops \<Rightarrow> ('s, 'q) handler" where
  "expected_cid R = bad_request R (Some ''/problems/expected-cid'') ''Expected CID but got another kind of node'' None"

text \<open>The body of a request that has to be a link.\<close>

definition with_cid :: "'q request_ops \<Rightarrow> (cid \<Rightarrow> ('s, 'q) handler) \<Rightarrow> ('s, 'q) handler" where
  "with_cid R k s q = then_do (rq_getContentNode R q None) (\<lambda>(n, q).
     case n of
       None \<Rightarrow> Inr (s, q)
     | Some n \<Rightarrow> (case as_CID n of Inl _ \<Rightarrow> expected_cid R s q | Inr c \<Rightarrow> k c s q))"

definition invalid_string :: "'q request_ops \<Rightarrow> ('s, 'q) handler" where
  "invalid_string R = bad_request R (Some ''/problems/invalid-string'') ''Invalid UTF-8 or unexpected empty string'' None"

definition handleRequestHead ::
    "'s store \<Rightarrow> 'q request_ops \<Rightarrow> server_env \<Rightarrow> string option \<Rightarrow> ('s, 'q) handler" where
  "handleRequestHead S R E head_str s q =
     (case head_str of
        Some head_str \<Rightarrow>
          if rq_method R q = Some GET then
            then_do (st_resolveOptional S (sv_store s) (HeadName (make_head head_str))) (\<lambda>c.
              case c of
                None \<Rightarrow> not_found R (Some (''Head '' @ [DQ] @ head_str @ [DQ] @ '' not found in store.'')) s q
              | Some c \<Rightarrow> send_node S R E (Link c) None Mutable s q)
          else if rq_method R q = Some PUT then
            if head_str = [] \<or> \<not> se_utf8 E head_str then invalid_string R s q
            else with_cid R (\<lambda>c s q. then_do (st_set S (sv_store s) (HeadName (make_head head_str)) c) (\<lambda>st.
                answer (s\<lparr>sv_store := st\<rparr>) (rq_sendCreated R q None))) s q
          else answer s (rq_sendMethodNotAllowed R q ''GET, HEAD, PUT'')
      | None \<Rightarrow>
          if rq_method R q \<noteq> Some GET then answer s (rq_sendMethodNotAllowed R q ''GET, HEAD'')
          else then_do (st_eachHead S (sv_store s)) (\<lambda>hs.
            send_uris S R E (each_until (\<lambda>h uris. (False, uris @ [uri_default\<lparr>path_segments := [''head'', head_Name h],
              escape_slashes_in_segments := False\<rparr>])) hs []) Mutable s q))"

subsection \<open>Sections under a lock\<close>

text \<open>\<^verbatim>\<open>call_groups[name]\<close>, under \<^verbatim>\<open>Server::mutex\<close>.\<close>

definition ensure_group :: "string \<Rightarrow> 's server \<Rightarrow> 's server" where
  "ensure_group f s = (case sv_call_groups s f of
     Some _ \<Rightarrow> s
   | None \<Rightarrow> s\<lparr>sv_call_groups := (sv_call_groups s)(f \<mapsto> group_new)\<rparr>)"

text \<open>A section under the mutex of one call group, reached through a pointer to it.\<close>

definition with_group :: "string \<Rightarrow> (call_group \<Rightarrow> abort + 'a \<times> call_group) \<Rightarrow> 's server \<Rightarrow> abort + 'a \<times> 's server" where
  "with_group f A s = (case sv_call_groups s f of
     None \<Rightarrow> Inl UseAfterFree
   | Some g \<Rightarrow> then_do (A g) (\<lambda>(a, g). Inr (a, s\<lparr>sv_call_groups := (sv_call_groups s)(f \<mapsto> g)\<rparr>)))"

definition evaluate_section :: "'s store \<Rightarrow> int \<Rightarrow> call \<Rightarrow> 's server \<Rightarrow> abort + cid option \<times> 's server" where
  "evaluate_section S now c s =
     then_do (st_resolveOptional S (sv_store s) (CallName c)) (\<lambda>result.
       if result \<noteq> None then Inr (result, s)
       else with_group (call_Name c) (\<lambda>g. then_do (evaluate_locked now c g) (\<lambda>g. Inr (None, g))) s)"

definition handleCallResult :: "call \<Rightarrow> 's server \<Rightarrow> abort + 's server" where
  "handleCallResult c s = (case sv_call_groups s (call_Name c) of
     None \<Rightarrow> Inr s
   | Some _ \<Rightarrow> then_do (with_group (call_Name c) (\<lambda>g. then_do (result_locked c g) (\<lambda>g. Inr ((), g))) s) (\<lambda>(_, s). Inr s))"

fun take_first :: "(call_group \<Rightarrow> abort + call option \<times> call_group) \<Rightarrow> string list \<Rightarrow> 's server
    \<Rightarrow> abort + call option \<times> 's server" where
  "take_first A [] s = Inr (None, s)"
| "take_first A (f # fs) s = then_do (with_group f A s) (\<lambda>(c, s).
     case c of None \<Rightarrow> take_first A fs s | Some c \<Rightarrow> Inr (Some c, s))"

definition worker_take :: "int \<Rightarrow> string list \<Rightarrow> 's server \<Rightarrow> abort + call option \<times> 's server" where
  "worker_take now fs s = then_do (take_first (take_unstarted now) fs s) (\<lambda>(c, s).
     case c of None \<Rightarrow> take_first (take_retry now) fs s | Some c \<Rightarrow> Inr (Some c, s))"

fun string_items :: "node list \<Rightarrow> string list" where
  "string_items [] = []"
| "string_items (String f # xs) = f # string_items xs"
| "string_items (_ # xs) = string_items xs"

text \<open>Looking up or creating the worker group, under \<^verbatim>\<open>Server::mutex\<close>.\<close>

datatype worker_error = UnknownCID | InvalidWorkerInfo

definition worker_section :: "'s store \<Rightarrow> cid \<Rightarrow> 's server \<Rightarrow> abort + (worker_error + string list) \<times> 's server" where
  "worker_section S c s =
     (let key = of_bytes (cid_Bytes c) in
      case sv_worker_groups s key of
        Some fs \<Rightarrow> Inr (Inr fs, s)
      | None \<Rightarrow> then_do (st_getOptional S (sv_store s) c) (\<lambda>info.
          case info of
            None \<Rightarrow> Inr (Inl UnknownCID, s)
          | Some (Map ms) \<Rightarrow>
              (case nm_lookup ms ''funcs'' of
                 Some (List xs) \<Rightarrow>
                   (let fs = string_items xs
                    in Inr (Inr fs, (fold ensure_group fs s)\<lparr>sv_worker_groups := (sv_worker_groups s)(key \<mapsto> fs)\<rparr>))
               | _ \<Rightarrow> Inr (Inl InvalidWorkerInfo, s))
          | Some _ \<Rightarrow> Inr (Inl InvalidWorkerInfo, s)))"
subsection \<open>Workers and calls\<close>

definition call_node :: "(string \<Rightarrow> bool) \<Rightarrow> call \<Rightarrow> abort + node" where
  "call_node utf8 c = then_do (map_sum NodeFatal id (node_of_string utf8 (call_Name c))) (\<lambda>name.
     map_sum NodeFatal id (node_of_map utf8 (nm_init [(''func'', name), (''args'', List (map Link (call_Args c)))])))"

definition sendCallToWorker :: "'s store \<Rightarrow> 'q request_ops \<Rightarrow> server_env \<Rightarrow> call \<Rightarrow> ('s, 'q) handler" where
  "sendCallToWorker S R E c s worker =
     (if rq_responded R worker then Inl AssertFailed
      else then_do (call_node (se_utf8 E) c) (\<lambda>n. send_node S R E n None Ephemeral s worker))"

definition worker_error_response :: "'q request_ops \<Rightarrow> worker_error \<Rightarrow> ('s, 'q) handler" where
  "worker_error_response R e = (case e of
     UnknownCID \<Rightarrow> bad_request R (Some ''/problems/unknown-cid'') ''Provided CID was missing from the store'' None
   | InvalidWorkerInfo \<Rightarrow> bad_request R (Some ''/problems/invalid-worker-info'') ''Provided worker info is invalid'' None)"

definition worker_reply :: "'s store \<Rightarrow> 'q request_ops \<Rightarrow> server_env \<Rightarrow> cid \<Rightarrow> ('s, 'q) handler" where
  "worker_reply S R E c s q =
     then_do (worker_section S c s) (\<lambda>(fs, s).
       case fs of
         Inl e \<Rightarrow> worker_error_response R e s q
       | Inr fs \<Rightarrow> then_do (worker_take (se_now E) fs s) (\<lambda>(c, s).
           case c of
             Some c \<Rightarrow> sendCallToWorker S R E c s q
           | None \<Rightarrow> send_node S R E Null None Ephemeral s q))"

definition handleRequestWorker :: "'s store \<Rightarrow> 'q request_ops \<Rightarrow> server_env \<Rightarrow> ('s, 'q) handler" where
  "handleRequestWorker S R E s q =
     (if rq_method R q \<noteq> Some POST then answer s (rq_sendMethodNotAllowed R q ''POST'')
      else with_cid R (worker_reply S R E) s q)"

definition handleEvaluateCall :: "'s store \<Rightarrow> 'q request_ops \<Rightarrow> server_env \<Rightarrow> call \<Rightarrow> ('s, 'q) handler" where
  "handleEvaluateCall S R E c s q =
     then_do (st_resolveOptional S (sv_store s) (CallName c)) (\<lambda>result.
       case result of
         Some r \<Rightarrow> send_node S R E (Link r) None Mutable s q
       | None \<Rightarrow> then_do (evaluate_section S (se_now E) c (ensure_group (call_Name c) s)) (\<lambda>(result, s).
           case result of
             Some r \<Rightarrow> send_node S R E (Link r) None Mutable s q
           | None \<Rightarrow> Inr (s, rq_sendAccepted R q)))"

fun parse_call_args :: "string list \<Rightarrow> string + cid list" where
  "parse_call_args [] = Inr []"
| "parse_call_args (arg_str # args_split) =
     (case cid_parse arg_str of
        None \<Rightarrow> Inl arg_str
      | Some arg \<Rightarrow> then_do (parse_call_args args_split) (\<lambda>args. Inr (arg # args)))"

definition call_uri :: "string \<Rightarrow> call \<Rightarrow> ub + uri" where
  "call_uri func_str c = then_do (args_text (call_Args c)) (\<lambda>args.
     Inr (uri_default\<lparr>path_segments := [''call'', func_str, args]\<rparr>))"

definition handle_call_evaluate :: "'s store \<Rightarrow> 'q request_ops \<Rightarrow> server_env \<Rightarrow> string \<Rightarrow> call \<Rightarrow> ('s, 'q) handler" where
  "handle_call_evaluate S R E sub_str call s q =
     (if sub_str \<noteq> ''evaluate'' then not_found R None s q
      else if rq_method R q \<noteq> Some POST then answer s (rq_sendMethodNotAllowed R q ''POST'')
      else then_do (rq_getContentNode R q (Some (Map []))) (\<lambda>(body, q).
        case body of
          None \<Rightarrow> Inr (s, q)
        | Some n \<Rightarrow> if kind n \<noteq> KMap then bad_request R None ''Invalid body kind'' None s q
            else handleEvaluateCall S R E call s q))"

definition handle_call_value :: "'s store \<Rightarrow> 'q request_ops \<Rightarrow> server_env \<Rightarrow> call \<Rightarrow> ('s, 'q) handler" where
  "handle_call_value S R E call s q =
     (if rq_method R q \<noteq> Some GET \<and> rq_method R q \<noteq> Some PUT
      then answer s (rq_sendMethodNotAllowed R q ''GET, HEAD, PUT'')
      else if rq_method R q = Some GET then
        then_do (st_resolveOptional S (sv_store s) (CallName call)) (\<lambda>c.
          case c of
            None \<Rightarrow> not_found R (Some ''Call not found in store.'') s q
          | Some c \<Rightarrow> send_node S R E (Link c) None Mutable s q)
      else with_cid R (\<lambda>c s q. then_do (st_set S (sv_store s) (CallName call) c) (\<lambda>st.
        then_do (handleCallResult call (s\<lparr>sv_store := st\<rparr>)) (\<lambda>s.
          answer s (rq_sendCreated R q None)))) s q)"

definition handle_call_func :: "'s store \<Rightarrow> 'q request_ops \<Rightarrow> server_env \<Rightarrow> string \<Rightarrow> ('s, 'q) handler" where
  "handle_call_func S R E func_str s q =
     (if rq_method R q = Some GET then
        then_do (st_eachCall S (sv_store s) func_str) (\<lambda>cs.
        then_do (map_sum Undefined id (sum_map (call_uri func_str) cs)) (\<lambda>uris. send_uris S R E uris Mutable s q))
      else if rq_method R q = Some DELETE then
        then_do (st_call_invalidate S (sv_store s) func_str) (\<lambda>st.
          Inr (s\<lparr>sv_store := st\<rparr>, rq_sendDeleted R q))
      else answer s (rq_sendMethodNotAllowed R q ''DELETE, GET, HEAD''))"

definition handleRequestCall ::
    "'s store \<Rightarrow> 'q request_ops \<Rightarrow> server_env \<Rightarrow> string option \<Rightarrow> string option \<Rightarrow> string option \<Rightarrow> ('s, 'q) handler" where
  "handleRequestCall S R E func_str args_str sub_str s q =
     (case func_str of
        Some func_str \<Rightarrow>
          if func_str = [] \<or> \<not> se_utf8 E func_str then invalid_string R s q
          else (case args_str of
              Some args_str \<Rightarrow>
                (case parse_call_args (split_all CHR '','' args_str) of
                   Inl arg_str \<Rightarrow> bad_request R (Some ''/problems/invalid-or-unsupported-cid'') ''Invalid or unsupported CID''
                     (Some (''CID '' @ [DQ] @ arg_str @ [DQ] @ '' could not be parsed.'')) s q
                 | Inr args \<Rightarrow>
                     (case sub_str of
                        Some sub_str \<Rightarrow> handle_call_evaluate S R E sub_str (make_call func_str args) s q
                      | None \<Rightarrow> handle_call_value S R E (make_call func_str args) s q))
            | None \<Rightarrow> handle_call_func S R E func_str s q)
      | None \<Rightarrow>
          if rq_method R q \<noteq> Some GET then answer s (rq_sendMethodNotAllowed R q ''GET, HEAD'')
          else then_do (st_list_funcs S (sv_store s)) (\<lambda>funcs.
            send_uris S R E (map (\<lambda>func. uri_default\<lparr>path_segments := [''call'', func]\<rparr>) funcs) Mutable s q))"

subsection \<open>Dispatch\<close>

definition handleNewRequest :: "'s store \<Rightarrow> 'q request_ops \<Rightarrow> server_env \<Rightarrow> ('s, 'q) handler" where
  "handleNewRequest S R E s q =
     (if rq_method R q = None then answer s (rq_sendError R q NotImplemented None ''Not Implemented'' None)
      else case rq_uri R q of
        None \<Rightarrow> bad_request R None ''Bad Request'' None s q
      | Some u \<Rightarrow>
          if rootless u \<and> path_segments u \<noteq> [] then bad_request R None ''Bad Request'' None s q
          else (case path_segments u of
              [a] \<Rightarrow>
                if a = ''cid'' then handleRequestCID S R E None None s q
                else if a = ''head'' then handleRequestHead S R E None s q
                else if a = ''call'' then handleRequestCall S R E None None None s q
                else if a = ''worker'' then handleRequestWorker S R E s q
                else not_found R None s q
            | a # b # rest \<Rightarrow>
                if a = ''cid'' \<and> rest = [] then handleRequestCID S R E (Some b) None s q
                else if a = ''cid'' \<and> length rest = 1 then handleRequestCID S R E (Some b) (Some (rest ! 0)) s q
                else if a = ''head'' then
                  then_do (map_sum Undefined id (getPathString u 1)) (\<lambda>str. handleRequestHead S R E (Some str) s q)
                else if a = ''call'' \<and> rest = [] then handleRequestCall S R E (Some b) None None s q
                else if a = ''call'' \<and> length rest = 1 then handleRequestCall S R E (Some b) (Some (rest ! 0)) None s q
                else if a = ''call'' \<and> length rest = 2
                  then handleRequestCall S R E (Some b) (Some (rest ! 0)) (Some (rest ! 1)) s q
                else not_found R None s q
            | [] \<Rightarrow> not_found R None s q))"

definition handleRequest :: "'s store \<Rightarrow> 'q request_ops \<Rightarrow> server_env \<Rightarrow> ('s, 'q) handler" where
  "handleRequest S R E s q = then_do (handleNewRequest S R E s q) (\<lambda>(s, q).
     if rq_responded R q then Inr (s, q) else Inl AssertFailed)"

section \<open>Interleavings\<close>

text \<open>
  A step of the server is one section under a lock, or any change of the store. Threads
  interleave at this granularity: between two sections of one handler, any number of steps
  of other handlers can happen.
\<close>

inductive server_step :: "'s store \<Rightarrow> 's server \<Rightarrow> 's server \<Rightarrow> bool" for S where
  step_store: "server_step S s (s\<lparr>sv_store := st\<rparr>)"
| step_ensure: "server_step S s (ensure_group f s)"
| step_evaluate: "evaluate_section S now c s = Inr (r, s') \<Longrightarrow> server_step S s s'"
| step_result: "handleCallResult c s = Inr s' \<Longrightarrow> server_step S s s'"
| step_worker: "worker_section S c s = Inr (r, s') \<Longrightarrow> server_step S s s'"
| step_unstarted: "with_group f (take_unstarted now) s = Inr (r, s') \<Longrightarrow> server_step S s s'"
| step_retry: "with_group f (take_retry now) s = Inr (r, s') \<Longrightarrow> server_step S s s'"

definition has_group :: "'s server \<Rightarrow> string \<Rightarrow> bool" where
  "has_group s f \<longleftrightarrow> sv_call_groups s f \<noteq> None"

definition server_inv :: "'s server \<Rightarrow> bool" where
  "server_inv s \<longleftrightarrow> (\<forall>f g. sv_call_groups s f = Some g \<longrightarrow> group_inv g)
     \<and> (\<forall>key fs. sv_worker_groups s key = Some fs \<longrightarrow> list_all (has_group s) fs)"

lemma server_inv_new: "server_inv (server_new st)"
  by (simp add: server_inv_def server_new_def)

lemma has_group_ensure: "has_group (ensure_group f s) f' \<longleftrightarrow> f' = f \<or> has_group s f'"
  by (auto simp: has_group_def ensure_group_def split: option.splits)

lemma ensure_workers [simp]: "sv_worker_groups (ensure_group f s) = sv_worker_groups s" "sv_store (ensure_group f s) = sv_store s"
  by (simp_all add: ensure_group_def split: option.splits)

lemma ensure_inv: "server_inv s \<Longrightarrow> server_inv (ensure_group f s)"
  by (auto simp: server_inv_def list_all_iff has_group_ensure)
    (auto simp: ensure_group_def group_inv_new split: option.splits if_splits)

lemma fold_ensure:
  "server_inv s \<Longrightarrow> server_inv (fold ensure_group fs s) \<and> (\<forall>f. has_group (fold ensure_group fs s) f \<longleftrightarrow> f \<in> set fs \<or> has_group s f)
    \<and> sv_worker_groups (fold ensure_group fs s) = sv_worker_groups s"
  by (induction fs arbitrary: s) (auto simp: ensure_inv has_group_ensure)

text \<open>A section that keeps the invariant of its group keeps that of the server.\<close>

lemma with_group_inv:
  assumes "server_inv s" and "with_group f A s = Inr (r, s')"
    and "\<And>g r g'. group_inv g \<Longrightarrow> A g = Inr (r, g') \<Longrightarrow> group_inv g'"
  shows "server_inv s' \<and> has_group s' = has_group s \<and> sv_worker_groups s' = sv_worker_groups s"
proof -
  obtain g g' where g: "sv_call_groups s f = Some g" "A g = Inr (r, g')"
    "s' = s\<lparr>sv_call_groups := (sv_call_groups s)(f \<mapsto> g')\<rparr>"
    using assms(2) by (auto simp: with_group_def then_do_Inr_iff split: option.splits)
  have "group_inv g" using assms(1) g(1) unfolding server_inv_def by blast
  then have "group_inv g'" using assms(3) g(2) by blast
  moreover have "has_group s' = has_group s" using g by (auto simp: has_group_def fun_eq_iff)
  ultimately show ?thesis using assms(1) g(3) by (auto simp: server_inv_def)
qed

lemma evaluate_locked_inv: "group_inv g \<Longrightarrow> \<exists>g'. evaluate_locked now c g = Inr g' \<and> group_inv g'"
  using evaluate_new [of g c now] evaluate_known [of g c now] by (cases "calls g c") auto

lemma worker_section_cases:
  assumes "worker_section S c s = Inr (r, s')"
  shows "(\<exists>fs. r = Inr fs \<and> sv_worker_groups s (of_bytes (cid_Bytes c)) = Some fs \<and> s' = s)
    \<or> (\<exists>e. r = Inl e \<and> s' = s)
    \<or> (\<exists>fs. r = Inr fs \<and> s' = (fold ensure_group fs s)
          \<lparr>sv_worker_groups := (sv_worker_groups s)(of_bytes (cid_Bytes c) \<mapsto> fs)\<rparr>)"
proof (cases "sv_worker_groups s (of_bytes (cid_Bytes c))")
  case None
  then obtain info where info: "st_getOptional S (sv_store s) c = Inr info"
    using assms by (auto simp: worker_section_def then_do_Inr_iff)
  show ?thesis
  proof (cases "\<exists>ms xs. info = Some (Map ms) \<and> nm_lookup ms ''funcs'' = Some (List xs)")
    case True
    then show ?thesis using assms None info by (auto simp: worker_section_def Let_def)
  next
    case False
    then have "\<exists>e. r = Inl e \<and> s' = s"
      using assms None info
      by (auto simp: worker_section_def Let_def split: option.splits node.splits)
    then show ?thesis by blast
  qed
next
  case (Some fs)
  then show ?thesis using assms by (simp add: worker_section_def)
qed

lemma server_step_inv:
  assumes "server_step S s s'" and "server_inv s"
  shows "server_inv s'"
  using assms
proof (induction rule: server_step.induct)
  case (step_store s st)
  then show ?case by (auto simp: server_inv_def has_group_def list_all_iff)
next
  case (step_ensure s f)
  then show ?case by (rule ensure_inv)
next
  case (step_evaluate now c s r s')
  show ?case
  proof (cases "s' = s")
    case False
    then have w: "with_group (call_Name c) (\<lambda>g. then_do (evaluate_locked now c g) (\<lambda>g. Inr (None, g))) s = Inr (r, s')"
      using step_evaluate(1) by (auto simp: evaluate_section_def then_do_Inr_iff split: if_splits)
    from with_group_inv [OF step_evaluate(2) w] show ?thesis
      using evaluate_locked_inv [of _ now c] by (fastforce simp: then_do_Inr_iff)
  qed (use step_evaluate in simp)
next
  case (step_result c s s')
  show ?case
  proof (cases "s' = s")
    case False
    then obtain r where w: "with_group (call_Name c) (\<lambda>g. then_do (result_locked c g) (\<lambda>g. Inr ((), g))) s = Inr (r, s')"
      using step_result(1) by (auto simp: handleCallResult_def then_do_Inr_iff split: option.splits)
    from with_group_inv [OF step_result(2) w] show ?thesis
      using result_ok [of _ c] by (fastforce simp: then_do_Inr_iff)
  qed (use step_result in simp)
next
  case (step_worker c s r s')
  show ?case
  proof (cases "s' = s")
    case False
    then obtain key fs where "s' = (fold ensure_group fs s)\<lparr>sv_worker_groups := (sv_worker_groups s)(key \<mapsto> fs)\<rparr>"
      using worker_section_cases [OF step_worker(1)] by blast
    then show ?thesis
      using fold_ensure [OF step_worker(2), of fs] step_worker(2)
      by (auto simp: server_inv_def list_all_iff has_group_def)
  qed (use step_worker in simp)
next
  case (step_unstarted f now s r s')
  have "group_inv g'" if "group_inv g" "take_unstarted now g = Inr (x, g')" for g g' x
    using that take_unstarted_ok [of g now] by auto
  from with_group_inv [OF step_unstarted(2,1) this] show ?case by simp
next
  case (step_retry f now s r s')
  have "group_inv g'" if "group_inv g" "take_retry now g = Inr (x, g')" for g g' x
    using that take_retry_ok [of g now] by auto
  from with_group_inv [OF step_retry(2,1) this] show ?case by simp
qed

text \<open>A call group is never deleted.\<close>

lemma with_group_keeps: "with_group f A s = Inr (r, s') \<Longrightarrow> has_group s h \<Longrightarrow> has_group s' h"
  by (auto simp: with_group_def has_group_def then_do_Inr_iff split: option.splits)

lemma has_group_fields [simp]: "has_group (s\<lparr>sv_worker_groups := w\<rparr>) h = has_group s h" "has_group (s\<lparr>sv_store := st\<rparr>) h = has_group s h"
  by (simp_all add: has_group_def)

lemma fold_ensure_keeps: "has_group s h \<Longrightarrow> has_group (fold ensure_group fs s) h"
  by (induction fs arbitrary: s) (simp_all add: has_group_ensure)

lemma server_step_keeps:
  assumes "server_step S s s'" and "has_group s h"
  shows "has_group s' h"
  using assms
proof (induction rule: server_step.induct)
  case (step_evaluate now c s r s')
  then show ?case by (auto simp: evaluate_section_def then_do_Inr_iff split: if_splits dest: with_group_keeps)
next
  case (step_result c s s')
  then show ?case
    by (auto simp: handleCallResult_def then_do_Inr_iff split: option.splits dest: with_group_keeps)
next
  case (step_worker c s r s')
  then show ?case using worker_section_cases [OF step_worker(1)] fold_ensure_keeps [of s h] by auto
qed (auto simp: has_group_ensure dest: with_group_keeps)

lemma server_steps_keep: "(server_step S)\<^sup>*\<^sup>* s s' \<Longrightarrow> has_group s h \<Longrightarrow> has_group s' h"
  by (induction rule: rtranclp_induct) (auto intro: server_step_keeps)

lemma server_steps_inv: "(server_step S)\<^sup>*\<^sup>* s s' \<Longrightarrow> server_inv s \<Longrightarrow> server_inv s'"
  by (induction rule: rtranclp_induct) (auto intro: server_step_inv)

section \<open>Giving calls to workers\<close>

definition group_list :: "(call_group \<Rightarrow> call list) \<Rightarrow> 's server \<Rightarrow> string \<Rightarrow> call list" where
  "group_list Q s f = (case sv_call_groups s f of None \<Rightarrow> [] | Some g \<Rightarrow> Q g)"

definition running :: "'s server \<Rightarrow> string \<Rightarrow> call \<Rightarrow> bool" where
  "running s f c \<longleftrightarrow> (case sv_call_groups s f of None \<Rightarrow> False | Some g \<Rightarrow> assigned g c)"

text \<open>
  The two loops of \<^verbatim>\<open>handleRequestWorker\<close> differ in the queue they take from. The locale is
  what the first or second loop needs of its section: it takes the first waiting call of
  its queue, which is then assigned, and leaves the other queue alone.
\<close>

locale call_taker =
  fixes A :: "call_group \<Rightarrow> abort + call option \<times> call_group"
    and queue other :: "call_group \<Rightarrow> call list"
  assumes take_law: "group_inv g \<Longrightarrow> \<exists>g'. A g = Inr (case queue g of [] \<Rightarrow> None | c # _ \<Rightarrow> Some c, g') \<and> group_inv g'
    \<and> queue g' = tl (queue g) \<and> other g' = other g
    \<and> (case queue g of [] \<Rightarrow> True | c # _ \<Rightarrow> assigned g' c)"
begin

lemma with_group_take:
  assumes "server_inv s" and "has_group s f"
  shows "\<exists>s'. with_group f A s = Inr (case group_list queue s f of [] \<Rightarrow> None | c # _ \<Rightarrow> Some c, s')
    \<and> server_inv s' \<and> has_group s' = has_group s
    \<and> group_list queue s' = (group_list queue s)(f := tl (group_list queue s f)) \<and> group_list other s' = group_list other s
    \<and> (case group_list queue s f of [] \<Rightarrow> True | c # _ \<Rightarrow> running s' f c)"
proof -
  obtain g where g: "sv_call_groups s f = Some g" "group_inv g"
    using assms by (auto simp: has_group_def server_inv_def)
  obtain g' where g': "A g = Inr (case queue g of [] \<Rightarrow> None | c # _ \<Rightarrow> Some c, g')" "group_inv g'"
    "queue g' = tl (queue g)" "other g' = other g" "case queue g of [] \<Rightarrow> True | c # _ \<Rightarrow> assigned g' c"
    using take_law [OF g(2)] by blast
  let ?s = "s\<lparr>sv_call_groups := (sv_call_groups s)(f \<mapsto> g')\<rparr>"
  have "has_group ?s = has_group s" using g(1) by (auto simp: has_group_def fun_eq_iff)
  moreover have "server_inv ?s" using assms(1) g'(2) calculation by (auto simp: server_inv_def)
  moreover have "group_list queue ?s = (group_list queue s)(f := tl (group_list queue s f))" "group_list other ?s = group_list other s"
    using g g' by (auto simp: group_list_def fun_eq_iff)
  moreover have "case group_list queue s f of [] \<Rightarrow> True | c # _ \<Rightarrow> running ?s f c"
    using g g'(5) by (auto simp: group_list_def running_def split: list.splits)
  ultimately show ?thesis using g g' by (auto simp: with_group_def group_list_def)
qed

lemma take_first_ok:
  assumes "server_inv s" and "list_all (has_group s) fs"
  shows "\<exists>r s'. take_first A fs s = Inr (r, s') \<and> server_inv s' \<and> has_group s' = has_group s \<and> group_list other s' = group_list other s
    \<and> (case r of
         None \<Rightarrow> group_list queue s' = group_list queue s \<and> (\<forall>f \<in> set fs. group_list queue s f = [])
       | Some c \<Rightarrow> \<exists>f \<in> set fs. \<exists>cs. group_list queue s f = c # cs \<and> group_list queue s' = (group_list queue s)(f := cs)
           \<and> running s' f c)"
  using assms
proof (induction fs arbitrary: s)
  case (Cons f fs)
  obtain s' where s': "with_group f A s = Inr (case group_list queue s f of [] \<Rightarrow> None | c # _ \<Rightarrow> Some c, s')"
    "server_inv s'" "has_group s' = has_group s"
    "group_list queue s' = (group_list queue s)(f := tl (group_list queue s f))" "group_list other s' = group_list other s"
    "case group_list queue s f of [] \<Rightarrow> True | c # _ \<Rightarrow> running s' f c"
    using with_group_take [of s f] Cons.prems by auto
  show ?case
  proof (cases "group_list queue s f")
    case Nil
    then have "group_list queue s' = group_list queue s" using s'(4) by (simp add: fun_upd_idem)
    moreover obtain r s'' where "take_first A fs s' = Inr (r, s'')" "server_inv s''" "has_group s'' = has_group s"
      "group_list other s'' = group_list other s" "case r of
         None \<Rightarrow> group_list queue s'' = group_list queue s' \<and> (\<forall>f \<in> set fs. group_list queue s' f = [])
       | Some c \<Rightarrow> \<exists>f \<in> set fs. \<exists>cs. group_list queue s' f = c # cs \<and> group_list queue s'' = (group_list queue s')(f := cs)
           \<and> running s'' f c"
      using Cons.IH [of s'] s' Cons.prems by auto
    ultimately show ?thesis using Nil s'(1) by (auto split: option.splits)
  next
    case (Cons c cs)
    then show ?thesis using s' by auto
  qed
qed simp

end

interpretation new_calls: call_taker "take_unstarted now" unstarted to_retry for now
proof
  fix g
  assume "group_inv g"
  from take_unstarted_ok [OF this, of now]
  show "\<exists>g'. take_unstarted now g = Inr (case unstarted g of [] \<Rightarrow> None | c # _ \<Rightarrow> Some c, g') \<and> group_inv g'
    \<and> unstarted g' = tl (unstarted g) \<and> to_retry g' = to_retry g
    \<and> (case unstarted g of [] \<Rightarrow> True | c # _ \<Rightarrow> assigned g' c)"
    by (auto split: list.splits)
qed

interpretation old_calls: call_taker "take_retry now" to_retry unstarted for now
proof
  fix g
  assume "group_inv g"
  from take_retry_ok [OF this, of now]
  show "\<exists>g'. take_retry now g = Inr (case to_retry g of [] \<Rightarrow> None | c # _ \<Rightarrow> Some c, g') \<and> group_inv g'
    \<and> to_retry g' = tl (to_retry g) \<and> unstarted g' = unstarted g
    \<and> (case to_retry g of [] \<Rightarrow> True | c # _ \<Rightarrow> assigned g' c)"
    by (auto split: list.splits)
qed

text \<open>The calls of some functions that wait for a worker, and how many there are.\<close>

definition waiting_calls_of :: "string list \<Rightarrow> 's server \<Rightarrow> call set" where
  "waiting_calls_of fs s = (\<Union>f \<in> set fs. set (group_list unstarted s f) \<union> set (group_list to_retry s f))"

definition waiting_count :: "string list \<Rightarrow> 's server \<Rightarrow> nat" where
  "waiting_count fs s = (\<Sum>f \<in> set fs. length (group_list unstarted s f) + length (group_list to_retry s f))"

lemma waiting_count_zero: "waiting_count fs s = 0 \<longleftrightarrow> waiting_calls_of fs s = {}"
  by (auto simp: waiting_count_def waiting_calls_of_def)

lemma take_count:
  fixes s s' :: "'s server"
  assumes "f \<in> set fs" and "group_list Q s f = c # cs" and "group_list Q s' = (group_list Q s)(f := cs)"
    and "group_list Q' s' = group_list Q' s" and "{Q, Q'} = {unstarted, to_retry}" and "Q \<noteq> Q'"
  shows "waiting_count fs s = Suc (waiting_count fs s') \<and> waiting_calls_of fs s \<subseteq> insert c (waiting_calls_of fs s')"
proof -
  let ?n = "\<lambda>s f. length (group_list Q s f) + length (group_list Q' s f)"
  have "(\<Sum>f \<in> set fs. ?n s f) = ?n s f + (\<Sum>f \<in> set fs - {f}. ?n s f)"
    and "(\<Sum>f \<in> set fs. ?n s' f) = ?n s' f + (\<Sum>f \<in> set fs - {f}. ?n s' f)"
    using assms(1) by (simp_all add: sum.remove)
  moreover have "(\<Sum>f \<in> set fs - {f}. ?n s' f) = (\<Sum>f \<in> set fs - {f}. ?n s f)"
    using assms(3,4) by (intro sum.cong) auto
  ultimately have "(\<Sum>f \<in> set fs. ?n s f) = Suc (\<Sum>f \<in> set fs. ?n s' f)" using assms(2-4) by simp
  moreover have "(\<Sum>f \<in> set fs. ?n t f) = waiting_count fs t" for t :: "'s server"
    using assms(5,6) by (auto simp: waiting_count_def doubleton_eq_iff add.commute)
  moreover have "(\<Union>f \<in> set fs. set (group_list Q t f) \<union> set (group_list Q' t f)) = waiting_calls_of fs t" for t :: "'s server"
    using assms(5,6) by (auto simp: waiting_calls_of_def doubleton_eq_iff)
  moreover have "(\<Union>f \<in> set fs. set (group_list Q s f) \<union> set (group_list Q' s f))
      \<subseteq> insert c (\<Union>f \<in> set fs. set (group_list Q s' f) \<union> set (group_list Q' s' f))"
  proof -
    have "set (group_list Q s f') \<subseteq> insert c (set (group_list Q s' f'))" for f'
      using assms(2,3) by (cases "f' = f") auto
    then show ?thesis using assms(4) by (auto simp: subset_iff)
  qed
  ultimately show ?thesis by simp
qed

text \<open>The call a worker is given: the oldest new one of a function, or, if none is new, the oldest to retry.\<close>

definition next_call :: "string list \<Rightarrow> 's server \<Rightarrow> string \<Rightarrow> call \<Rightarrow> bool" where
  "next_call fs s f c \<longleftrightarrow> (\<exists>cs. group_list unstarted s f = c # cs)
     \<or> (\<forall>h \<in> set fs. group_list unstarted s h = []) \<and> (\<exists>cs. group_list to_retry s f = c # cs)"

lemma queues_differ: "unstarted \<noteq> to_retry"
proof
  assume "unstarted = to_retry"
  then have "unstarted (group_new\<lparr>unstarted_calls := [0], objects := [0 \<mapsto> pending_new c]\<rparr>)
      = to_retry (group_new\<lparr>unstarted_calls := [0], objects := [0 \<mapsto> pending_new c]\<rparr>)" for c by simp
  then show False by (simp add: unstarted_def to_retry_def group_new_def pending_new_def)
qed

lemma worker_take_ok:
  assumes "server_inv s" and "list_all (has_group s) fs"
  shows "\<exists>r s'. worker_take now fs s = Inr (r, s') \<and> server_inv s' \<and> has_group s' = has_group s
    \<and> (case r of
         None \<Rightarrow> waiting_calls_of fs s = {} \<and> waiting_calls_of fs s' = {}
       | Some c \<Rightarrow> c \<in> waiting_calls_of fs s \<and> waiting_count fs s = Suc (waiting_count fs s')
           \<and> waiting_calls_of fs s \<subseteq> insert c (waiting_calls_of fs s')
           \<and> (\<exists>f \<in> set fs. next_call fs s f c \<and> running s' f c))"
proof -
  obtain r s1 where 1: "take_first (take_unstarted now) fs s = Inr (r, s1)" "server_inv s1" "has_group s1 = has_group s"
    "group_list to_retry s1 = group_list to_retry s" "case r of
         None \<Rightarrow> group_list unstarted s1 = group_list unstarted s \<and> (\<forall>f \<in> set fs. group_list unstarted s f = [])
       | Some c \<Rightarrow> \<exists>f \<in> set fs. \<exists>cs. group_list unstarted s f = c # cs \<and> group_list unstarted s1 = (group_list unstarted s)(f := cs)
           \<and> running s1 f c"
    using new_calls.take_first_ok [OF assms, of now] by blast
  show ?thesis
  proof (cases r)
    case (Some c)
    with 1(5) obtain f cs where f: "f \<in> set fs" "group_list unstarted s f = c # cs"
      "group_list unstarted s1 = (group_list unstarted s)(f := cs)" "running s1 f c" by auto
    have "c \<in> waiting_calls_of fs s" using f by (force simp: waiting_calls_of_def)
    moreover have "\<exists>f \<in> set fs. next_call fs s f c \<and> running s1 f c" using f by (auto simp: next_call_def)
    ultimately show ?thesis using Some 1 take_count [OF f(1-3) 1(4)] queues_differ by (simp add: worker_take_def)
  next
    case None
    have fs: "list_all (has_group s1) fs" using assms(2) 1(3) by simp
    obtain r' s2 where 2: "take_first (take_retry now) fs s1 = Inr (r', s2)" "server_inv s2" "has_group s2 = has_group s1"
      "group_list unstarted s2 = group_list unstarted s1" "case r' of
           None \<Rightarrow> group_list to_retry s2 = group_list to_retry s1 \<and> (\<forall>f \<in> set fs. group_list to_retry s1 f = [])
         | Some c \<Rightarrow> \<exists>f \<in> set fs. \<exists>cs. group_list to_retry s1 f = c # cs \<and> group_list to_retry s2 = (group_list to_retry s1)(f := cs)
             \<and> running s2 f c"
      using old_calls.take_first_ok [OF 1(2) fs, of now] by blast
    have same: "waiting_calls_of fs s1 = waiting_calls_of fs s" "waiting_count fs s1 = waiting_count fs s"
      using None 1 by (simp_all add: waiting_calls_of_def waiting_count_def)
    have w: "worker_take now fs s = Inr (r', s2)" using None 1(1) 2(1) by (simp add: worker_take_def)
    show ?thesis
    proof (cases r')
      case None
      then have "waiting_calls_of fs s = {} \<and> waiting_calls_of fs s2 = {}"
        using 1 2 \<open>r = None\<close> by (auto simp: waiting_calls_of_def)
      then show ?thesis using w None 1 2 by simp
    next
      case (Some c)
      with 2(5) obtain f cs where f: "f \<in> set fs" "group_list to_retry s1 f = c # cs"
        "group_list to_retry s2 = (group_list to_retry s1)(f := cs)" "running s2 f c" by auto
      have "c \<in> waiting_calls_of fs s1" using f by (force simp: waiting_calls_of_def)
      moreover have "\<exists>f \<in> set fs. next_call fs s f c \<and> running s2 f c"
        using f 1(4,5) \<open>r = None\<close> by (auto simp: next_call_def)
      ultimately show ?thesis
        using w Some 1 2 same take_count [OF f(1-3) 2(4)] queues_differ by (simp add: insert_commute)
    qed
  qed
qed

text \<open>Workers of one group that ask again and again, at the given times.\<close>

fun worker_polls :: "int list \<Rightarrow> string list \<Rightarrow> 's server \<Rightarrow> abort + call list \<times> 's server" where
  "worker_polls [] fs s = Inr ([], s)"
| "worker_polls (now # ts) fs s = then_do (worker_take now fs s) (\<lambda>(c, s).
     then_do (worker_polls ts fs s) (\<lambda>(cs, s). Inr ((case c of None \<Rightarrow> [] | Some c \<Rightarrow> [c]) @ cs, s)))"

lemma worker_polls_ok:
  assumes "server_inv s" and "list_all (has_group s) fs"
  shows "\<exists>cs s'. worker_polls ts fs s = Inr (cs, s') \<and> server_inv s'
    \<and> waiting_calls_of fs s \<subseteq> set cs \<union> waiting_calls_of fs s'
    \<and> (waiting_count fs s \<le> length ts \<longrightarrow> waiting_calls_of fs s' = {})"
  using assms
proof (induction ts arbitrary: s)
  case Nil
  then show ?case using waiting_count_zero [of fs s] by auto
next
  case (Cons now ts)
  obtain r s1 where 1: "worker_take now fs s = Inr (r, s1)" "server_inv s1" "has_group s1 = has_group s"
    "case r of
         None \<Rightarrow> waiting_calls_of fs s = {} \<and> waiting_calls_of fs s1 = {}
       | Some c \<Rightarrow> c \<in> waiting_calls_of fs s \<and> waiting_count fs s = Suc (waiting_count fs s1)
           \<and> waiting_calls_of fs s \<subseteq> insert c (waiting_calls_of fs s1)"
    using worker_take_ok [OF Cons.prems, of now] by (fastforce split: option.splits)
  obtain cs s2 where 2: "worker_polls ts fs s1 = Inr (cs, s2)" "server_inv s2"
    "waiting_calls_of fs s1 \<subseteq> set cs \<union> waiting_calls_of fs s2"
    "waiting_count fs s1 \<le> length ts \<longrightarrow> waiting_calls_of fs s2 = {}"
    using Cons.IH [OF 1(2)] Cons.prems(2) 1(3) by auto
  show ?case
  proof (cases r)
    case None
    then have "waiting_count fs s1 = 0" using 1(4) waiting_count_zero [of fs s1] by simp
    then show ?thesis using None 1 2 by auto
  next
    case (Some c)
    then show ?thesis using 1 2 by auto
  qed
qed

section \<open>Handlers\<close>

subsection \<open>A handler is a sequence of steps\<close>

lemma answer_iff [simp]: "answer s r = Inr (s', q') \<longleftrightarrow> s' = s \<and> r = Inr q'"
  by (auto simp: answer_def then_do_Inr_iff)

lemmas respond_defs = send_node_def send_uris_def not_found_def bad_request_def expected_cid_def invalid_string_def

abbreviation server_steps :: "'s store \<Rightarrow> 's server \<Rightarrow> 's server \<Rightarrow> bool" where
  "server_steps S \<equiv> (server_step S)\<^sup>*\<^sup>*"

lemma store_steps: "server_steps S s (s\<lparr>sv_store := st\<rparr>)"
  by (blast intro: step_store)

lemma CID_steps:
  assumes "handleRequestCID S R E cid_str sub_str s q = Inr (s', q')"
  shows "server_steps S s s'"
  using assms store_steps
  by (auto simp: handleRequestCID_def respond_defs then_do_Inr_iff split: option.splits if_splits)

lemma with_cid_steps:
  assumes "with_cid R k s q = Inr (s', q')" and "\<And>c q. k c s q = Inr (s', q') \<Longrightarrow> server_steps S s s'"
  shows "server_steps S s s'"
proof -
  obtain n q1 where "rq_getContentNode R q None = Inr (n, q1)"
    using assms(1) by (auto simp: with_cid_def then_do_Inr_iff)
  with assms show ?thesis
    by (cases n; cases "as_CID (the n)") (auto simp: with_cid_def respond_defs)
qed

lemma Head_steps:
  assumes "handleRequestHead S R E head_str s q = Inr (s', q')"
  shows "server_steps S s s'"
  using assms store_steps
  by (auto simp: handleRequestHead_def respond_defs then_do_Inr_iff split: option.splits if_splits
      elim!: with_cid_steps)

lemma take_first_steps:
  assumes "take_first A fs s = Inr (r, s')" and "\<And>f s r s'. with_group f A s = Inr (r, s') \<Longrightarrow> server_step S s s'"
  shows "server_steps S s s'"
  using assms(1)
proof (induction fs arbitrary: s)
  case (Cons f fs)
  then obtain c s1 where c: "with_group f A s = Inr (c, s1)" "c = None \<longrightarrow> take_first A fs s1 = Inr (r, s')" "c \<noteq> None \<longrightarrow> s' = s1"
    by (auto simp: then_do_Inr_iff split: option.splits)
  have "server_step S s s1" using assms(2) c(1) .
  moreover have "server_steps S s1 s'" using c Cons.IH [of s1] by (cases c) auto
  ultimately show ?case by (rule converse_rtranclp_into_rtranclp)
qed simp

lemma worker_take_steps:
  assumes "worker_take now fs s = Inr (r, s')"
  shows "server_steps S s s'"
proof -
  obtain c s1 where 1: "take_first (take_unstarted now) fs s = Inr (c, s1)"
    "c = None \<longrightarrow> take_first (take_retry now) fs s1 = Inr (r, s')" "c \<noteq> None \<longrightarrow> s' = s1"
    using assms by (auto simp: worker_take_def then_do_Inr_iff split: option.splits)
  have "server_steps S s s1" by (rule take_first_steps [OF 1(1)]) (rule step_unstarted)
  moreover have "server_steps S s1 s'" if "take_first (take_retry now) fs s1 = Inr (r, s')"
    by (rule take_first_steps [OF that]) (rule step_retry)
  ultimately show ?thesis using 1(2,3) by (cases c) auto
qed

lemma worker_reply_cases:
  assumes "worker_reply S R E c s q = Inr (s', q')"
  obtains (error) e s1 where "worker_section S c s = Inr (Inl e, s1)" "worker_error_response R e s1 q = Inr (s', q')"
    | (call) fs s1 d where "worker_section S c s = Inr (Inr fs, s1)" "worker_take (se_now E) fs s1 = Inr (Some d, s')"
        "sendCallToWorker S R E d s' q = Inr (s', q')"
    | (no_call) fs s1 where "worker_section S c s = Inr (Inr fs, s1)" "worker_take (se_now E) fs s1 = Inr (None, s')"
        "send_node S R E Null None Ephemeral s' q = Inr (s', q')"
proof -
  obtain fs s1 where 1: "worker_section S c s = Inr (fs, s1)"
    using assms by (cases "worker_section S c s") (auto simp: worker_reply_def)
  show ?thesis
  proof (cases fs)
    case (Inl e)
    then show ?thesis using assms 1 error by (simp add: worker_reply_def)
  next
    case (Inr gs)
    then obtain r s2 where 2: "worker_take (se_now E) gs s1 = Inr (r, s2)"
      using assms 1 by (cases "worker_take (se_now E) gs s1") (auto simp: worker_reply_def)
    show ?thesis
    proof (cases r)
      case None
      then have eq: "send_node S R E Null None Ephemeral s2 q = Inr (s', q')"
        using assms 1 2 Inr by (simp add: worker_reply_def)
      then have "s2 = s'" by (simp add: send_node_def)
      then show ?thesis using no_call 1 2 Inr None eq by simp
    next
      case (Some d)
      then have eq: "sendCallToWorker S R E d s2 q = Inr (s', q')"
        using assms 1 2 Inr by (simp add: worker_reply_def)
      then have "s2 = s'" by (auto simp: sendCallToWorker_def send_node_def then_do_Inr_iff split: if_splits)
      then show ?thesis using call 1 2 Inr Some eq by simp
    qed
  qed
qed

lemma Worker_steps:
  assumes "handleRequestWorker S R E s q = Inr (s', q')"
  shows "server_steps S s s'"
proof (cases "rq_method R q = Some POST")
  case True
  then have "with_cid R (worker_reply S R E) s q = Inr (s', q')" using assms by (simp add: handleRequestWorker_def)
  then show ?thesis
  proof (rule with_cid_steps)
    fix c q
    assume "worker_reply S R E c s q = Inr (s', q')"
    then show "server_steps S s s'"
    proof (cases rule: worker_reply_cases)
      case (error e s1)
      then have "s' = s1" by (cases e) (simp_all add: worker_error_response_def bad_request_def)
      then show ?thesis using step_worker [OF error(1)] by blast
    next
      case (call fs s1 d)
      show ?thesis
        using step_worker [OF call(1)] worker_take_steps [OF call(2)] by (rule converse_rtranclp_into_rtranclp)
    next
      case (no_call fs s1)
      show ?thesis
        using step_worker [OF no_call(1)] worker_take_steps [OF no_call(2)] by (rule converse_rtranclp_into_rtranclp)
    qed
  qed
qed (use assms in \<open>simp add: handleRequestWorker_def\<close>)

lemma Evaluate_steps:
  assumes "handleEvaluateCall S R E c s q = Inr (s', q')"
  shows "server_steps S s s'"
proof (cases "s' = s")
  case False
  then obtain r where "evaluate_section S (se_now E) c (ensure_group (call_Name c) s) = Inr (r, s')"
    using assms by (auto simp: handleEvaluateCall_def respond_defs then_do_Inr_iff split: option.splits)
  then have "server_step S (ensure_group (call_Name c) s) s'" by (rule step_evaluate)
  with step_ensure [of S s "call_Name c"] show ?thesis by (blast intro: rtranclp_trans)
qed simp

lemma call_value_steps:
  assumes "handle_call_value S R E c s q = Inr (s', q')"
  shows "server_steps S s s'"
proof -
  have "server_steps S s s'" if "handleCallResult c (s\<lparr>sv_store := st\<rparr>) = Inr s'" for st
    using store_steps [of S s st] step_result [OF that] by (rule rtranclp.rtrancl_into_rtrancl)
  then show ?thesis
    using assms
    by (auto simp: handle_call_value_def respond_defs then_do_Inr_iff split: option.splits if_splits
        elim!: with_cid_steps)
qed

lemma Call_steps:
  assumes "handleRequestCall S R E func_str args_str sub_str s q = Inr (s', q')"
  shows "server_steps S s s'"
proof -
  have "server_steps S s s'" if "handle_call_func S R E f s q = Inr (s', q')" for f
    using that store_steps by (auto simp: handle_call_func_def respond_defs then_do_Inr_iff split: if_splits)
  moreover have "server_steps S s s'" if "handle_call_evaluate S R E sub c s q = Inr (s', q')" for sub c
    using that Evaluate_steps
    by (fastforce simp: handle_call_evaluate_def respond_defs then_do_Inr_iff split: if_splits option.splits)
  ultimately show ?thesis
    using assms call_value_steps
    by (auto simp: handleRequestCall_def respond_defs then_do_Inr_iff split: option.splits if_splits sum.splits)
qed

lemma NewRequest_steps:
  assumes "handleNewRequest S R E s q = Inr (s', q')"
  shows "server_steps S s s'"
  using assms CID_steps Head_steps Call_steps Worker_steps
  by (auto simp: handleNewRequest_def respond_defs then_do_Inr_iff split: option.splits if_splits list.splits)

subsection \<open>A handler answers once\<close>

context request_impl
begin

lemma send_node_finished: "ready q \<Longrightarrow> send_node S R E n cid cc s q = Inr (s', q') \<Longrightarrow> finished q'"
  by (auto simp: send_node_def intro: sendContentNode_finished)

lemma send_uris_finished: "ready q \<Longrightarrow> send_uris S R E uris cc s q = Inr (s', q') \<Longrightarrow> finished q'"
  by (auto simp: send_uris_def intro: sendContentURIs_finished)

lemma not_found_finished: "ready q \<Longrightarrow> not_found R detail s q = Inr (s', q') \<Longrightarrow> finished q'"
  by (auto simp: not_found_def intro: error_sent)

lemma bad_request_finished: "ready q \<Longrightarrow> bad_request R ty title detail s q = Inr (s', q') \<Longrightarrow> finished q'"
  by (auto simp: bad_request_def intro: error_sent)

lemma expected_cid_finished: "ready q \<Longrightarrow> expected_cid R s q = Inr (s', q') \<Longrightarrow> finished q'"
  by (simp add: expected_cid_def bad_request_finished)

lemma invalid_string_finished: "ready q \<Longrightarrow> invalid_string R s q = Inr (s', q') \<Longrightarrow> finished q'"
  by (simp add: invalid_string_def bad_request_finished)

lemmas response_finished = send_node_finished send_uris_finished not_found_finished bad_request_finished
  expected_cid_finished invalid_string_finished error_sent not_allowed created deleted accepted

lemma with_cid_finished:
  assumes "ready q" and "rq_method R q = Some POST \<or> rq_method R q = Some PUT" and "with_cid R k s q = Inr (s', q')"
    and "\<And>c q1. ready q1 \<Longrightarrow> k c s q1 = Inr (s', q') \<Longrightarrow> finished q'"
  shows "finished q'"
proof -
  obtain n q1 where content: "rq_getContentNode R q None = Inr (n, q1)"
    using assms(3) by (auto simp: with_cid_def then_do_Inr_iff)
  show ?thesis
  proof (cases n)
    case None
    then show ?thesis using content assms(3) content_none [OF assms(1,2)] by (simp add: with_cid_def)
  next
    case (Some n')
    then have "ready q1" using content content_some [OF assms(1,2)] by simp
    then show ?thesis
      using Some content assms(3,4) expected_cid_finished [of q1 s]
      by (cases "as_CID n'") (auto simp: with_cid_def)
  qed
qed

lemma CID_finished:
  assumes "ready q" and "handleRequestCID S R E cid_str sub_str s q = Inr (s', q')"
  shows "finished q'"
proof (cases cid_str)
  case (Some c)
  then show ?thesis
    using assms by (auto simp: handleRequestCID_def then_do_Inr_iff split: option.splits if_splits intro: response_finished)
next
  case None
  show ?thesis
  proof (cases "sub_str = None \<and> rq_method R q = Some POST")
    case True
    obtain n q1 where content: "rq_getContentNode R q None = Inr (n, q1)"
      using assms(2) None True by (auto simp: handleRequestCID_def then_do_Inr_iff)
    then show ?thesis
      using assms None True content_none [OF assms(1), of None] content_some [OF assms(1), of None]
      by (cases n) (auto simp: handleRequestCID_def then_do_Inr_iff intro: created)
  next
    case False
    then show ?thesis
      using assms None by (auto simp: handleRequestCID_def split: if_splits intro: response_finished)
  qed
qed

lemma Head_finished:
  assumes "ready q" and "handleRequestHead S R E head_str s q = Inr (s', q')"
  shows "finished q'"
  using assms
  by (auto simp: handleRequestHead_def then_do_Inr_iff split: option.splits if_splits
      intro: response_finished elim!: with_cid_finished [rotated 2])

lemma worker_reply_finished:
  assumes "ready q" and "worker_reply S R E c s q = Inr (s', q')"
  shows "finished q'"
  using assms(2)
proof (cases rule: worker_reply_cases)
  case (error e s1)
  then show ?thesis using assms(1) by (cases e) (auto simp: worker_error_response_def intro: bad_request_finished)
next
  case (call fs s1 d)
  then show ?thesis
    using assms(1) by (auto simp: sendCallToWorker_def then_do_Inr_iff split: if_splits intro: send_node_finished)
next
  case (no_call fs s1)
  then show ?thesis using assms(1) by (auto intro: send_node_finished)
qed

lemma Worker_finished:
  assumes "ready q" and "handleRequestWorker S R E s q = Inr (s', q')"
  shows "finished q'"
proof (cases "rq_method R q = Some POST")
  case True
  then have "with_cid R (worker_reply S R E) s q = Inr (s', q')" using assms(2) by (simp add: handleRequestWorker_def)
  with assms(1) True show ?thesis using with_cid_finished worker_reply_finished by metis
qed (use assms in \<open>auto simp: handleRequestWorker_def intro: not_allowed\<close>)

lemma Evaluate_finished:
  assumes "ready q" and "handleEvaluateCall S R E c s q = Inr (s', q')"
  shows "finished q'"
  using assms
  by (auto simp: handleEvaluateCall_def then_do_Inr_iff split: option.splits intro: send_node_finished accepted)

lemma call_evaluate_finished:
  assumes "ready q" and "handle_call_evaluate S R E sub_str c s q = Inr (s', q')"
  shows "finished q'"
proof (cases "sub_str = ''evaluate'' \<and> rq_method R q = Some POST")
  case True
  obtain n q1 where content: "rq_getContentNode R q (Some (Map [])) = Inr (n, q1)"
    using assms(2) True by (auto simp: handle_call_evaluate_def then_do_Inr_iff)
  then show ?thesis
    using assms True content_none [OF assms(1), of "Some (Map [])"] content_some [OF assms(1), of "Some (Map [])"]
    by (cases n) (auto simp: handle_call_evaluate_def split: if_splits intro: Evaluate_finished bad_request_finished)
qed (use assms in \<open>auto simp: handle_call_evaluate_def split: if_splits intro: not_allowed not_found_finished\<close>)

lemma call_value_finished:
  assumes "ready q" and "handle_call_value S R E c s q = Inr (s', q')"
  shows "finished q'"
  using assms
  by (auto simp: handle_call_value_def then_do_Inr_iff split: option.splits if_splits
      intro: response_finished elim!: with_cid_finished [rotated 2])

lemma Call_finished:
  assumes "ready q" and "handleRequestCall S R E func_str args_str sub_str s q = Inr (s', q')"
  shows "finished q'"
  using assms
  by (auto simp: handleRequestCall_def handle_call_func_def then_do_Inr_iff split: option.splits if_splits sum.splits
      intro: response_finished call_value_finished call_evaluate_finished)

lemma NewRequest_finished:
  assumes "ready q" and "handleNewRequest S R E s q = Inr (s', q')"
  shows "finished q'"
  using assms
  by (auto simp: handleNewRequest_def then_do_Inr_iff split: option.splits if_splits list.splits
      intro: response_finished CID_finished Head_finished Call_finished Worker_finished)

lemma Request_answered:
  assumes "ready q" and "handleNewRequest S R E s q = Inr (s', q')"
  shows "handleRequest S R E s q = Inr (s', q') \<and> finished q'"
  using assms NewRequest_finished [OF assms] responded [of q'] by (simp add: handleRequest_def)

end

section \<open>Properties of the server\<close>

definition server_reachable :: "'s store \<Rightarrow> 's server \<Rightarrow> bool" where
  "server_reachable S s \<longleftrightarrow> (\<exists>st. server_steps S (server_new st) s)"

lemma reachable_inv:
  assumes "server_reachable S s"
  shows "server_inv s"
proof -
  obtain st where "server_steps S (server_new st) s" using assms by (auto simp: server_reachable_def)
  then show ?thesis using server_inv_new by (rule server_steps_inv)
qed

text \<open>A store with nothing in it, and a server with one call in its queue.\<close>

definition empty_store :: "unit store" where
  "empty_store = \<lparr>st_getOptional = (\<lambda>_ _. Inr None), st_resolveOptional = (\<lambda>_ _. Inr None),
     st_put = (\<lambda>_ _. Inl Unreachable), st_set = (\<lambda>_ _ _. Inr ()), st_list_names_using = (\<lambda>_ _. Inr []),
     st_list_funcs = (\<lambda>_. Inr []), st_eachHead = (\<lambda>_. Inr []), st_eachCall = (\<lambda>_ _. Inr []),
     st_head_delete = (\<lambda>_ _. Inr ()), st_call_invalidate = (\<lambda>_ _. Inr ())\<rparr>"

definition example_call :: call where
  "example_call = make_call ''f'' []"

definition example_group :: call_group where
  "example_group = \<lparr>unstarted_calls = [0], calls_to_retry = [], calls = [example_call \<mapsto> 0],
     objects = [0 \<mapsto> pending_new example_call], next_object = 1\<rparr>"

definition example_server :: "unit server" where
  "example_server = \<lparr>sv_store = (), sv_call_groups = [''f'' \<mapsto> example_group], sv_worker_groups = (\<lambda>_. None)\<rparr>"

lemma example_reachable: "server_reachable empty_store example_server"
proof -
  have "evaluate_section empty_store 0 example_call (ensure_group ''f'' (server_new ())) = Inr (None, example_server)"
    by (simp add: evaluate_section_def empty_store_def with_group_def ensure_group_def server_new_def evaluate_locked_def
        group_new_def example_server_def example_group_def example_call_def make_call_def Let_def)
  then have "server_step empty_store (ensure_group ''f'' (server_new ())) example_server" by (rule step_evaluate)
  with step_ensure [of empty_store "server_new ()" "''f''"] show ?thesis
    unfolding server_reachable_def by (blast intro: rtranclp_trans)
qed

lemma section_aborts:
  assumes "server_inv s"
  shows "has_group s (call_Name c) \<Longrightarrow> evaluate_section S now c s = Inl e \<Longrightarrow> st_resolveOptional S (sv_store s) (CallName c) = Inl e"
    and "worker_section S w s = Inl e \<Longrightarrow> st_getOptional S (sv_store s) w = Inl e"
proof -
  assume "has_group s (call_Name c)" and e: "evaluate_section S now c s = Inl e"
  then obtain g where g: "sv_call_groups s (call_Name c) = Some g" "group_inv g"
    using assms by (auto simp: has_group_def server_inv_def)
  obtain g' where "evaluate_locked now c g = Inr g'" using evaluate_locked_inv [OF g(2)] by blast
  with e g(1) show "st_resolveOptional S (sv_store s) (CallName c) = Inl e"
    by (cases "st_resolveOptional S (sv_store s) (CallName c)") (auto simp: evaluate_section_def with_group_def split: if_splits)
next
  assume "worker_section S w s = Inl e"
  then show "st_getOptional S (sv_store s) w = Inl e"
    by (cases "st_getOptional S (sv_store s) w")
      (auto simp: worker_section_def Let_def split: option.splits node.splits)
qed

text \<open>
  C3: under every interleaving of the server's threads, the queues keep their invariant (a
  pending call is queued, exactly once and in one queue, if and only if it is not assigned
  to a worker; an assigned call is not finished; the map and the objects agree), a worker
  group only refers to call groups that exist, and call groups are never deleted. Therefore
  no locked section ever follows a pointer to a deleted pending call or call group: adding
  a call, recording a result and both ways of taking a call succeed in every reachable
  state; and the two sections that also read the store, that of \<^verbatim>\<open>handleEvaluateCall\<close> and the
  one that looks up a worker group, abort only if that read itself aborts, and then with
  its error.
\<close>

theorem server_memory_safe:
  assumes "server_reachable S s"
  shows "server_inv s
    \<and> (\<forall>f g. sv_call_groups s f = Some g \<longrightarrow>
         (\<exists>g'. evaluate_locked now c g = Inr g') \<and> (\<exists>g'. result_locked c g = Inr g')
         \<and> (\<exists>r. take_unstarted now g = Inr r) \<and> (\<exists>r. take_retry now g = Inr r))
    \<and> (\<exists>s'. handleCallResult c s = Inr s')
    \<and> (\<forall>key fs. sv_worker_groups s key = Some fs \<longrightarrow> (\<exists>r. worker_take now fs s = Inr r))
    \<and> (\<forall>f s'. has_group s f \<and> (server_step S)\<^sup>*\<^sup>* s s' \<longrightarrow> has_group s' f)
    \<and> (\<forall>e. has_group s (call_Name c) \<and> evaluate_section S now c s = Inl e \<longrightarrow>
         st_resolveOptional S (sv_store s) (CallName c) = Inl e)
    \<and> (\<forall>w e. worker_section S w s = Inl e \<longrightarrow> st_getOptional S (sv_store s) w = Inl e)"
proof (intro conjI allI impI)
  show inv: "server_inv s" using assms by (rule reachable_inv)
  have g: "group_inv g" if "sv_call_groups s f = Some g" for f g
    using inv that by (auto simp: server_inv_def)
  show "\<exists>g'. evaluate_locked now c g = Inr g'" if "sv_call_groups s f = Some g" for f g
    using evaluate_locked_inv [OF g [OF that]] by blast
  show res: "\<exists>g'. result_locked c g = Inr g'" if "sv_call_groups s f = Some g" for f g
    using result_ok [OF g [OF that]] by blast
  show "\<exists>r. take_unstarted now g = Inr r" if "sv_call_groups s f = Some g" for f g
    using take_unstarted_ok [OF g [OF that]] by blast
  show "\<exists>r. take_retry now g = Inr r" if "sv_call_groups s f = Some g" for f g
    using take_retry_ok [OF g [OF that]] by blast
  show "\<exists>s'. handleCallResult c s = Inr s'"
    using res [of "call_Name c"] by (cases "sv_call_groups s (call_Name c)") (auto simp: handleCallResult_def with_group_def)
  show "\<exists>r. worker_take now fs s = Inr r" if "sv_worker_groups s key = Some fs" for key fs
    using worker_take_ok [OF inv, of fs now] inv that by (auto simp: server_inv_def)
  show "has_group s' f" if "has_group s f \<and> (server_step S)\<^sup>*\<^sup>* s s'" for f s'
    using that server_steps_keep by blast
  show "st_resolveOptional S (sv_store s) (CallName c) = Inl e"
    if "has_group s (call_Name c) \<and> evaluate_section S now c s = Inl e" for e
    using that section_aborts(1) [OF inv] by blast
  show "st_getOptional S (sv_store s) w = Inl e" if "worker_section S w s = Inl e" for w e
    using section_aborts(2) [OF inv that] .
qed

theorem server_memory_safe_witness:
  "\<exists>r. take_unstarted 5 example_group = Inr r"
  using server_memory_safe [OF example_reachable, of 5 example_call] by (simp add: example_server_def)

definition example_env :: server_env where
  "example_env = \<lparr>se_lib = hl_req example_http, se_utf8 = (\<lambda>_. True), se_now = 0\<rparr>"

definition example_request :: http_request where
  "example_request = http_request_new ''GET'' (Some (uri_default\<lparr>path_segments := [''nothing'']\<rparr>)) (\<lambda>_. None) []"

lemma example_handled:
  "\<exists>q'. handleNewRequest empty_store (http_ops example_http) example_env (server_new ()) example_request
     = Inr (server_new (), q') \<and> hd (hq_sent q') = SendStatus 404"
proof -
  have "hq_method example_request = Some GET" by (simp add: example_request_def http_request_new_def parseMethod_def equals_lower_def)
  then show ?thesis
    by (simp add: handleNewRequest_def example_request_def http_request_new_def http_ops_def uri_default_def not_found_def
        http_sendError_def sendErrorAfterStatus_def getAcceptQuality_def startResponse_def put_sent_def answer_def)
qed

text \<open>
  A request handler, run from start to end, changes the shared state only by the atomic
  steps of the interleaving semantics.
\<close>

lemma handleRequest_steps:
  assumes "handleRequest S R E s q = Inr (s', q')"
  shows "(server_step S)\<^sup>*\<^sup>* s s'"
  using assms NewRequest_steps by (auto simp: handleRequest_def then_do_Inr_iff split: if_splits)

subsection \<open>The way of a call through the server\<close>















text \<open>
  C10: a request over HTTP that the server has handled has been answered exactly once: one
  status line, then headers, then one body, and nothing after it; the assertion at the end
  of \<^verbatim>\<open>handleRequest\<close> holds.
\<close>

theorem http_answered_once:
  assumes "http_ready q" and "handleNewRequest S (http_ops L) E s q = Inr (s', q')"
  shows "handleRequest S (http_ops L) E s q = Inr (s', q') \<and> http_finished q'"
  using assms by (rule http.Request_answered)

theorem http_answered_once_witness:
  "\<exists>q'. handleRequest empty_store (http_ops example_http) example_env (server_new ()) example_request = Inr (server_new (), q')
     \<and> http_finished q' \<and> hd (hq_sent q') = SendStatus 404"
proof -
  have "http_ready example_request" by (simp add: http_ready_def example_request_def http_request_new_def)
  with example_handled http_answered_once show ?thesis by blast
qed

text \<open>
  C11: no waiting call is forgotten: from every reachable state, if workers of a group ask
  for work as often as there are calls waiting for its functions (new ones and ones that
  timed out), every one of these calls has been given to a worker, and none waits any more.
\<close>

theorem workers_get_every_call:
  assumes "server_reachable S s" and "list_all (has_group s) fs" and "waiting_count fs s \<le> length polls"
  shows "\<exists>cs s'. worker_polls polls fs s = Inr (cs, s') \<and> waiting_calls_of fs s \<subseteq> set cs \<and> waiting_calls_of fs s' = {}"
  using worker_polls_ok [OF reachable_inv [OF assms(1)] assms(2), of polls] assms(3) by auto

theorem workers_get_every_call_witness:
  "\<exists>cs s'. worker_polls [7] [''f''] example_server = Inr (cs, s') \<and> example_call \<in> set cs"
proof -
  have "waiting_count [''f''] example_server = 1" and "example_call \<in> waiting_calls_of [''f''] example_server"
    by (simp_all add: waiting_count_def waiting_calls_of_def group_list_def example_server_def example_group_def
        unstarted_def to_retry_def pending_new_def)
  moreover have "list_all (has_group example_server) [''f'']" by (simp add: has_group_def example_server_def)
  ultimately show ?thesis
    using workers_get_every_call [OF example_reachable, of "[''f'']" "[7]"] by auto
qed

end
