(* ===== verification/CAR.thy ===== *)
theory CAR
  imports Memo_Store
begin

section \<open>CAR files: reading and exporting\<close>

text \<open>
  \<^verbatim>\<open>memodb/lib/CAR.cpp\<close>. An open file is the function \<open>pread\<close> behind
  \<^verbatim>\<open>llvm::sys::fs::readNativeFileSlice\<close>: the bytes one call returns at a position, at most as
  many as asked for and none at the end of the file, or \<open>None\<close> for an error, on which
  \<^verbatim>\<open>ExitOnError\<close> ends the program. File positions and sizes are natural
  numbers: the sizes that are added to a position come from \<^verbatim>\<open>readVarInt\<close>, which returns less
  than \<open>2 ^ 63\<close>, and so is every position in a file. \<^verbatim>\<open>CID\<close> keys of \<^verbatim>\<open>std::map\<close> and \<^verbatim>\<open>std::set\<close> are the bytes of the identifier,
  which is what they are ordered by. The output stream has its contents and its position,
  which is all that \<^verbatim>\<open>write\<close>, \<^verbatim>\<open>seek\<close> and \<^verbatim>\<open>tell\<close> of a seekable \<^verbatim>\<open>raw_fd_ostream\<close> depend on.

  The lemmas show that a block that was written is found and read again, that the header
  and the padding fill exactly the space left for them, and that the file is opened.
\<close>

type_synonym pread = "nat \<Rightarrow> nat \<Rightarrow> bytes option"

record car_store =
  car_file :: pread
  car_Root :: node
  car_BlockPositions :: "bytes \<Rightarrow> nat option"

subsection \<open>Reading\<close>

function readBytes :: "pread \<Rightarrow> nat \<Rightarrow> nat \<Rightarrow> abort + (bytes \<times> nat) option" where
  "readBytes pread n Pos =
     (if n = 0 then Inr (Some ([], Pos))
      else case pread Pos n of
        None \<Rightarrow> Inl (ExitProgram 1)
      | Some chunk \<Rightarrow>
          if chunk = [] then Inr None
          else (case readBytes pread (n - length chunk) (Pos + length chunk) of
              Inr (Some (bs, Pos)) \<Rightarrow> Inr (Some (chunk @ bs, Pos))
            | r \<Rightarrow> r))"
  by pat_completeness auto
termination
  by (relation "measure (\<lambda>(pread, n, Pos). n)") auto

declare readBytes.simps [simp del]

function readVarInt_loop :: "pread \<Rightarrow> u64 \<Rightarrow> nat \<Rightarrow> nat \<Rightarrow> abort + u64 option \<times> nat" where
  "readVarInt_loop pread Result Shift Pos =
     (if Shift \<ge> 64 - 7 then Inl (ReportFatal ''VarInt too large'')
      else case readBytes pread 1 Pos of
        Inl e \<Rightarrow> Inl e
      | Inr None \<Rightarrow> if Shift \<noteq> 0 then Inl (ReportFatal ''Unexpected end of file in VarInt'') else Inr (None, Pos)
      | Inr (Some (bs, Pos)) \<Rightarrow>
          (let Byte = hd bs; Result = Result OR push_bit Shift (ucast (Byte AND 0x7f)) in
           if Byte AND 0x80 = 0
           then (if Byte = 0 \<and> Shift \<noteq> 0 then Inl (ReportFatal ''VarInt has extra bytes'') else Inr (Some Result, Pos))
           else readVarInt_loop pread Result (Shift + 7) Pos))"
  by pat_completeness auto
termination
  by (relation "measure (\<lambda>(pread, Result, Shift, Pos). 64 - Shift)") auto

declare readVarInt_loop.simps [simp del]

definition readVarInt :: "pread \<Rightarrow> nat \<Rightarrow> abort + u64 option \<times> nat" where
  "readVarInt pread Pos = readVarInt_loop pread 0 0 Pos"

text \<open>\<^verbatim>\<open>*readVarInt(Pos)\<close>: the integer has to be there.\<close>

definition the_VarInt :: "pread \<Rightarrow> nat \<Rightarrow> abort + nat \<times> nat" where
  "the_VarInt pread Pos = then_do (readVarInt pread Pos) (\<lambda>(v, Pos). then_do (deref v) (\<lambda>v. Inr (unat v, Pos)))"

definition readCID :: "pread \<Rightarrow> nat \<Rightarrow> abort + cid \<times> nat" where
  "readCID pread Pos =
     (let StartPos = Pos in
      then_do (the_VarInt pread Pos) (\<lambda>(CIDVersion, Pos).
      if CIDVersion \<noteq> 1 then Inl (ReportFatal ''Unsupported CID version'')
      else then_do (the_VarInt pread Pos) (\<lambda>(_, Pos).
      then_do (the_VarInt pread Pos) (\<lambda>(_, Pos).
      then_do (the_VarInt pread Pos) (\<lambda>(HashSize, Pos).
        let Pos = Pos + HashSize in
        case readBytes pread (Pos - StartPos) StartPos of
          Inl e \<Rightarrow> Inl e
        | Inr None \<Rightarrow> Inl (ReportFatal ''Unexpected end of file in CID'')
        | Inr (Some (Buffer, _)) \<Rightarrow>
            (case cid_fromBytes Buffer of
               None \<Rightarrow> Inl (ReportFatal ''Invalid CID'')
             | Some c \<Rightarrow> Inr (c, Pos)))))))"

definition readValue :: "(string \<Rightarrow> bool) \<Rightarrow> pread \<Rightarrow> nat \<Rightarrow> nat \<Rightarrow> abort + node \<times> nat" where
  "readValue utf8 pread Pos Size =
     (case readBytes pread Size Pos of
        Inl e \<Rightarrow> Inl e
      | Inr None \<Rightarrow> Inl (ReportFatal ''Unexpected end of file in value'')
      | Inr (Some (Buf, Pos)) \<Rightarrow> (case loadFromCBOR utf8 Buf of Inl _ \<Rightarrow> Inl CantFail | Inr n \<Rightarrow> Inr (n, Pos)))"

text \<open>The loop of \<^verbatim>\<open>open\<close> that finds the blocks; the fuel bounds the number of blocks.\<close>

fun scan_blocks :: "nat \<Rightarrow> pread \<Rightarrow> nat \<Rightarrow> (bytes \<Rightarrow> nat option) \<Rightarrow> (abort + (bytes \<Rightarrow> nat option)) option" where
  "scan_blocks 0 pread Pos BlockPositions = None"
| "scan_blocks (Suc fuel) pread Pos BlockPositions =
     (let BlockStart = Pos in
      and_then (Some (readVarInt pread Pos)) (\<lambda>(BlockSize, Pos).
        case BlockSize of
          None \<Rightarrow> Some (Inr BlockPositions)
        | Some BlockSize \<Rightarrow>
            (let BlockEnd = Pos + unat BlockSize in
             and_then (Some (readCID pread Pos)) (\<lambda>(c, Pos).
               if Pos > BlockEnd then Some (Inl (ReportFatal ''Invalid size of block''))
               else scan_blocks fuel pread BlockEnd (BlockPositions(cid_Bytes c \<mapsto> BlockStart))))))"

definition car_getOptional :: "(string \<Rightarrow> bool) \<Rightarrow> car_store \<Rightarrow> cid \<Rightarrow> abort + node option" where
  "car_getOptional utf8 s c =
     (if isIdentity c then (case loadFromIPLD utf8 c [] of Inl _ \<Rightarrow> Inl CantFail | Inr n \<Rightarrow> Inr (Some n))
      else case car_BlockPositions s (cid_Bytes c) of
        None \<Rightarrow> Inr None
      | Some Pos \<Rightarrow>
          then_do (the_VarInt (car_file s) Pos) (\<lambda>(BlockSize, Pos).
          let BlockEnd = Pos + BlockSize in
          then_do (readCID (car_file s) Pos) (\<lambda>(CIDFromFile, Pos).
            if \<not> cid_eq c CIDFromFile then Inl (ReportFatal ''CID mismatch (file changed while reading?)'')
            else if BlockEnd < Pos then Inl (ReportFatal ''std::length_error'')
            else case readBytes (car_file s) (BlockEnd - Pos) Pos of
              Inl e \<Rightarrow> Inl e
            | Inr None \<Rightarrow> Inl (ReportFatal ''Unexpected end of file in content'')
            | Inr (Some (Buffer, _)) \<Rightarrow>
                (case loadFromIPLD utf8 c Buffer of Inl _ \<Rightarrow> Inl CantFail | Inr n \<Rightarrow> Inr (Some n)))))"

text \<open>
  The checks of \<^verbatim>\<open>open\<close>. Subscripts of nodes that are not constant add missing keys, so the
  changed node is passed on; comparisons are those of \<^verbatim>\<open>Node::compare\<close>.
\<close>

definition subscript :: "node \<Rightarrow> string \<Rightarrow> abort + node \<times> node" where
  "subscript n name = map_sum NodeFatal id (node_subscript n name)"

definition check_header :: "node \<Rightarrow> abort + cid" where
  "check_header Header =
     then_do (subscript Header ''version'') (\<lambda>(Header, version).
     if node_compare version (Int64 1) \<noteq> 0 then Inl (ReportFatal ''Unsupported CAR header'')
     else then_do (subscript Header ''roots'') (\<lambda>(Header, roots).
     if node_size roots \<noteq> 1 then Inl (ReportFatal ''Unsupported CAR header'')
     else map_sum NodeFatal id (then_do (node_at_index roots 0) as_CID)))"

definition check_root :: "node \<Rightarrow> abort + node" where
  "check_root Root =
     then_do (subscript Root ''format'') (\<lambda>(Root, format).
     if node_compare format (String ''MemoDB CAR'') \<noteq> 0 then Inl (ReportFatal ''Unsupported MemoDB CAR version'')
     else then_do (subscript Root ''version'') (\<lambda>(Root, version).
     if node_compare version (Int64 0) \<noteq> 0 then Inl (ReportFatal ''Unsupported MemoDB CAR version'')
     else Inr Root))"

definition car_load :: "(string \<Rightarrow> bool) \<Rightarrow> nat \<Rightarrow> pread \<Rightarrow> (abort + car_store) option" where
  "car_load utf8 fuel FileHandle =
     and_then (Some (the_VarInt FileHandle 0)) (\<lambda>(HeaderSize, Pos).
     and_then (Some (readValue utf8 FileHandle Pos HeaderSize)) (\<lambda>(Header, Pos).
     and_then (Some (check_header Header)) (\<lambda>RootRef.
     and_then (scan_blocks fuel FileHandle Pos (\<lambda>_. None)) (\<lambda>BlockPositions.
       let s = \<lparr>car_file = FileHandle, car_Root = Null, car_BlockPositions = BlockPositions\<rparr> in
       and_then (Some (then_do (car_getOptional utf8 s RootRef) deref)) (\<lambda>Root.
       and_then (Some (check_root Root)) (\<lambda>Root. Some (Inr (s\<lparr>car_Root := Root\<rparr>))))))))"

definition car_open ::
    "(string \<Rightarrow> bool) \<Rightarrow> nat \<Rightarrow> (string \<Rightarrow> pread option) \<Rightarrow> string \<Rightarrow> (abort + car_store) option" where
  "car_open utf8 fuel openNativeFile u =
     and_then (Some (map_sum Undefined id (uri_parse u True))) (\<lambda>Parsed.
       case Parsed of
         None \<Rightarrow> Some (Inl (ReportFatal ''Unsupported CAR URI''))
       | Some p \<Rightarrow>
           if scheme p \<noteq> ''car'' \<or> host p \<noteq> [] \<or> port p \<noteq> 0 \<or> query_params p \<noteq> [] \<or> fragment p \<noteq> []
           then Some (Inl (ReportFatal ''Unsupported CAR URI''))
           else and_then (Some (map_sum Undefined id (getPathString p 0))) (\<lambda>path.
             case openNativeFile path of
               None \<Rightarrow> Some (Inl (ExitProgram 1))
             | Some FileHandle \<Rightarrow> car_load utf8 fuel FileHandle))"

subsection \<open>Names\<close>

text \<open>\<^verbatim>\<open>Root["heads"].at_or_null(name)\<close> and the like; the null that the subscript may add is seen again by the next one.\<close>

definition root_member :: "car_store \<Rightarrow> string \<Rightarrow> abort + node" where
  "root_member s name = then_do (subscript (car_Root s) name) (\<lambda>(_, n). Inr n)"

definition root_item :: "car_store \<Rightarrow> string \<Rightarrow> string \<Rightarrow> abort + node" where
  "root_item s name key = then_do (root_member s name) (\<lambda>n. map_sum NodeFatal id (at_or_null n key))"

definition args_key :: "multibase \<Rightarrow> cid list \<Rightarrow> abort + string" where
  "args_key Base Args =
     (let Key = concat (map (\<lambda>Arg. asString Base Arg @ ''/'') Args)
      in if Key = [] then Inl (Undefined PopBackEmpty) else Inr (butlast Key))"

definition find_call :: "node \<Rightarrow> cid list \<Rightarrow> abort + node option" where
  "find_call AllCalls Args =
     eachBase (\<lambda>Base r. then_do r (\<lambda>Value. then_do (args_key Base Args) (\<lambda>Key.
       then_do (map_sum NodeFatal id (at_or_null AllCalls Key)) (\<lambda>v.
         Inr (if kind v \<noteq> KNull then Some v else Value))))) (Inr None)"

definition car_resolveOptional :: "car_store \<Rightarrow> name \<Rightarrow> abort + cid option" where
  "car_resolveOptional s n =
     (case n of
        CIDName c \<Rightarrow> Inr (Some c)
      | HeadName h \<Rightarrow>
          then_do (root_item s ''heads'' (head_Name h)) (\<lambda>Value.
            if kind Value = KNull then Inr None
            else then_do (map_sum NodeFatal id (as_CID Value)) (\<lambda>c. Inr (Some c)))
      | CallName call \<Rightarrow>
          then_do (root_item s ''calls'' (call_Name call)) (\<lambda>AllCalls.
            if kind AllCalls = KNull then Inr None
            else then_do (find_call AllCalls (call_Args call)) (\<lambda>Value.
              case Value of
                None \<Rightarrow> Inr None
              | Some v \<Rightarrow> then_do (map_sum NodeFatal id (then_do (node_at v ''result'') as_CID)) (\<lambda>c. Inr (Some c)))))"

definition map_items :: "node \<Rightarrow> abort + (string \<times> node) list" where
  "map_items n = (case n of Map ms \<Rightarrow> Inr ms | _ \<Rightarrow> Inl (NodeFatal BadVariant))"

definition list_items :: "node \<Rightarrow> abort + node list" where
  "list_items n = (case n of List xs \<Rightarrow> Inr xs | _ \<Rightarrow> Inl (NodeFatal BadVariant))"

definition car_eachCall :: "car_store \<Rightarrow> string \<Rightarrow> abort + call list" where
  "car_eachCall s func_name =
     then_do (root_item s ''calls'' func_name) (\<lambda>Calls.
       if kind Calls = KNull then Inr []
       else then_do (map_items Calls) (sum_map (\<lambda>(_, v).
         then_do (map_sum NodeFatal id (node_at v ''args'')) (\<lambda>args.
         then_do (list_items args) (\<lambda>args.
         then_do (sum_map (\<lambda>Arg. map_sum NodeFatal id (as_CID Arg)) args) (\<lambda>args. Inr (make_call func_name args)))))))"

definition car_list_funcs :: "car_store \<Rightarrow> abort + string list" where
  "car_list_funcs s = then_do (root_member s ''calls'') (\<lambda>n. then_do (map_items n) (\<lambda>ms. Inr (map fst ms)))"

definition car_eachHead :: "car_store \<Rightarrow> abort + head list" where
  "car_eachHead s = then_do (root_member s ''heads'') (\<lambda>n. then_do (map_items n) (\<lambda>ms. Inr (map (\<lambda>(k, _). make_head k) ms)))"

definition read_only :: "abort + 'a" where
  "read_only = Inl (ReportFatal ''CAR stores are read-only'')"

definition car_ops :: "(string \<Rightarrow> bool) \<Rightarrow> car_store store" where
  "car_ops utf8 =
     \<lparr>st_getOptional = car_getOptional utf8, st_resolveOptional = car_resolveOptional,
      st_put = (\<lambda>_ _. read_only), st_set = (\<lambda>_ _ _. read_only),
      st_list_names_using = (\<lambda>_ _. Inr []), st_list_funcs = car_list_funcs,
      st_eachHead = car_eachHead, st_eachCall = car_eachCall,
      st_head_delete = (\<lambda>_ _. read_only), st_call_invalidate = (\<lambda>_ _. read_only)\<rparr>"

section \<open>Exporting\<close>

record ostream =
  os_data :: bytes
  os_pos :: nat

definition os_new :: ostream where
  "os_new = \<lparr>os_data = [], os_pos = 0\<rparr>"

definition os_write :: "bytes \<Rightarrow> ostream \<Rightarrow> ostream" where
  "os_write bs os =
     \<lparr>os_data = take (os_pos os) (os_data os) @ bs @ drop (os_pos os + length bs) (os_data os),
      os_pos = os_pos os + length bs\<rparr>"

definition os_seek :: "nat \<Rightarrow> ostream \<Rightarrow> ostream" where
  "os_seek p os = os\<lparr>os_pos := p\<rparr>"

function getVarIntSize :: "u64 \<Rightarrow> nat" where
  "getVarIntSize Value = (if Value \<ge> 0x80 then Suc (getVarIntSize (drop_bit 7 Value)) else 1)"
  by pat_completeness auto
termination
proof (relation "measure unat")
  fix Value :: u64
  assume "Value \<ge> 0x80"
  then have "0 < unat Value" by (simp add: word_le_nat_alt)
  then show "(drop_bit 7 Value, Value) \<in> measure unat"
    by (simp add: drop_bit_eq_div unat_div)
qed simp

declare getVarIntSize.simps [simp del]

text \<open>The lambda \<^verbatim>\<open>writeVarInt\<close>, which writes what the function of the same name in \<^verbatim>\<open>CID.cpp\<close> appends.\<close>

function car_writeVarInt :: "u64 \<Rightarrow> ostream \<Rightarrow> ostream" where
  "car_writeVarInt Value os =
     (if Value \<ge> 0x80 then car_writeVarInt (drop_bit 7 Value) (os_write [ucast (Value AND 0x7f) OR 0x80] os)
      else os_write [ucast Value] os)"
  by pat_completeness auto
termination
proof (relation "measure (unat \<circ> fst)")
  fix Value :: u64 and os
  assume "Value \<ge> 0x80"
  then have "0 < unat Value" by (simp add: word_le_nat_alt)
  then show "((drop_bit 7 Value, os_write [ucast (Value AND 0x7f) OR 0x80] os), Value, os) \<in> measure (unat \<circ> fst)"
    by (simp add: drop_bit_eq_div unat_div)
qed simp

declare car_writeVarInt.simps [simp del]

definition getBlockSize :: "cid \<times> bytes \<Rightarrow> nat" where
  "getBlockSize Block =
     (let Result = length (snd Block) + length (cid_Bytes (fst Block)) in Result + getVarIntSize (of_nat Result))"

definition writeBlock :: "cid \<times> bytes \<Rightarrow> ostream \<Rightarrow> ostream" where
  "writeBlock Block os =
     (let Buffer = cid_Bytes (fst Block) @ snd Block
      in os_write Buffer (car_writeVarInt (of_nat (length Buffer)) os))"

record car_export =
  ex_os :: ostream
  ex_AlreadyWritten :: "bytes set"
  ex_Calls :: node
  ex_Heads :: node
  ex_IDs :: node

text \<open>\<^verbatim>\<open>exportValue\<close>, with \<^verbatim>\<open>exportRef\<close> for all its links as an argument.\<close>

definition export_value ::
    "(bytes \<Rightarrow> bytes) \<Rightarrow> (cid list \<Rightarrow> car_export \<Rightarrow> (abort + car_export) option) \<Rightarrow> node \<Rightarrow> car_export
      \<Rightarrow> (abort + cid \<times> car_export) option" where
  "export_value blake2b exportRefs Value x =
     (let Block = saveAsIPLD blake2b False Value;
          x = (if isIdentity (fst Block) then x else x\<lparr>ex_os := writeBlock Block (ex_os x)\<rparr>)
      in and_then (exportRefs (eachLink Value) x) (\<lambda>x. Some (Inr (fst Block, x))))"

fun exportRef :: "'s store \<Rightarrow> 's \<Rightarrow> (bytes \<Rightarrow> bytes) \<Rightarrow> nat \<Rightarrow> cid \<Rightarrow> car_export \<Rightarrow> (abort + car_export) option"
and exportRefs :: "'s store \<Rightarrow> 's \<Rightarrow> (bytes \<Rightarrow> bytes) \<Rightarrow> nat \<Rightarrow> cid list \<Rightarrow> car_export \<Rightarrow> (abort + car_export) option" where
  "exportRef S st blake2b 0 Ref x = None"
| "exportRef S st blake2b (Suc fuel) Ref x =
     (if cid_Bytes Ref \<in> ex_AlreadyWritten x then Some (Inr x)
      else and_then (Some (store_get S st Ref)) (\<lambda>v.
        and_then (export_value blake2b (exportRefs S st blake2b fuel) v
            (x\<lparr>ex_AlreadyWritten := insert (cid_Bytes Ref) (ex_AlreadyWritten x)\<rparr>)) (\<lambda>(_, x). Some (Inr x))))"
| "exportRefs S st blake2b fuel [] x = Some (Inr x)"
| "exportRefs S st blake2b fuel (c # cs) x =
     and_then (exportRef S st blake2b fuel c x) (\<lambda>x. exportRefs S st blake2b fuel cs x)"

definition exportValue ::
    "'s store \<Rightarrow> 's \<Rightarrow> (bytes \<Rightarrow> bytes) \<Rightarrow> nat \<Rightarrow> node \<Rightarrow> car_export \<Rightarrow> (abort + cid \<times> car_export) option" where
  "exportValue S st blake2b fuel = export_value blake2b (exportRefs S st blake2b fuel)"

text \<open>Assignment through a subscript of a map node.\<close>

definition assign_key :: "node \<Rightarrow> string \<Rightarrow> node \<Rightarrow> abort + node" where
  "assign_key n name v = then_do (map_sum NodeFatal id (node_insert_or_assign n name v)) (\<lambda>(n, _). Inr n)"

text \<open>The loop over the arguments of a call.\<close>

fun export_args ::
    "'s store \<Rightarrow> 's \<Rightarrow> (bytes \<Rightarrow> bytes) \<Rightarrow> string \<Rightarrow> nat \<Rightarrow> cid list \<Rightarrow> node list \<Rightarrow> string \<Rightarrow> car_export
      \<Rightarrow> (abort + node list \<times> string \<times> car_export) option" where
  "export_args S st blake2b opt fuel [] Args Key x = Some (Inr (Args, Key, x))"
| "export_args S st blake2b opt fuel (Arg # rest) Args Key x =
     and_then (exportRef S st blake2b fuel Arg x) (\<lambda>x.
       export_args S st blake2b opt fuel rest (Args @ [Link Arg]) (Key @ asString_default opt Arg @ ''/'') x)"

definition export_call ::
    "'s store \<Rightarrow> 's \<Rightarrow> (bytes \<Rightarrow> bytes) \<Rightarrow> (string \<Rightarrow> bool) \<Rightarrow> string \<Rightarrow> nat \<Rightarrow> call \<Rightarrow> car_export \<Rightarrow> (abort + car_export) option" where
  "export_call S st blake2b utf8 opt fuel call x =
     and_then (Some (subscript (ex_Calls x) (call_Name call))) (\<lambda>(Calls, FuncCalls).
     let FuncCalls = (if node_compare FuncCalls Null = 0 then Map [] else FuncCalls) in
     and_then (export_args S st blake2b opt fuel (call_Args call) [] [] (x\<lparr>ex_Calls := Calls\<rparr>)) (\<lambda>(Args, Key, x).
     if Key = [] then Some (Inl (Undefined PopBackEmpty))
     else and_then (Some (store_resolve S st (CallName call))) (\<lambda>Result.
       and_then (Some (map_sum NodeFatal id
         (node_of_map utf8 (nm_init [(''args'', List Args), (''result'', Link Result)])))) (\<lambda>entry.
       and_then (Some (assign_key FuncCalls (butlast Key) entry)) (\<lambda>FuncCalls.
       and_then (Some (assign_key (ex_Calls x) (call_Name call) FuncCalls)) (\<lambda>Calls.
         exportRef S st blake2b fuel Result (x\<lparr>ex_Calls := Calls\<rparr>)))))))"

definition addName ::
    "'s store \<Rightarrow> 's \<Rightarrow> (bytes \<Rightarrow> bytes) \<Rightarrow> (string \<Rightarrow> bool) \<Rightarrow> string \<Rightarrow> nat \<Rightarrow> name \<Rightarrow> car_export \<Rightarrow> (abort + car_export) option" where
  "addName S st blake2b utf8 opt fuel n x =
     and_then (Some (map_sum Undefined id (name_text n))) (\<lambda>_.
     case n of
       CIDName Ref \<Rightarrow>
         and_then (exportRef S st blake2b fuel Ref x) (\<lambda>x.
         and_then (Some (map_sum NodeFatal id (emplace_back (ex_IDs x) (Link Ref)))) (\<lambda>IDs. Some (Inr (x\<lparr>ex_IDs := IDs\<rparr>))))
     | HeadName h \<Rightarrow>
         and_then (Some (store_resolve S st n)) (\<lambda>Ref.
         and_then (Some (assign_key (ex_Heads x) (head_Name h) (Link Ref))) (\<lambda>Heads.
           exportRef S st blake2b fuel Ref (x\<lparr>ex_Heads := Heads\<rparr>)))
     | CallName call \<Rightarrow> export_call S st blake2b utf8 opt fuel call x)"

fun addNames ::
    "'s store \<Rightarrow> 's \<Rightarrow> (bytes \<Rightarrow> bytes) \<Rightarrow> (string \<Rightarrow> bool) \<Rightarrow> string \<Rightarrow> nat \<Rightarrow> name list \<Rightarrow> car_export \<Rightarrow> (abort + car_export) option" where
  "addNames S st blake2b utf8 opt fuel [] x = Some (Inr x)"
| "addNames S st blake2b utf8 opt fuel (n # ns) x =
     and_then (addName S st blake2b utf8 opt fuel n x) (\<lambda>x. addNames S st blake2b utf8 opt fuel ns x)"

fun addFuncs ::
    "'s store \<Rightarrow> 's \<Rightarrow> (bytes \<Rightarrow> bytes) \<Rightarrow> (string \<Rightarrow> bool) \<Rightarrow> string \<Rightarrow> nat \<Rightarrow> string list \<Rightarrow> car_export \<Rightarrow> (abort + car_export) option" where
  "addFuncs S st blake2b utf8 opt fuel [] x = Some (Inr x)"
| "addFuncs S st blake2b utf8 opt fuel (f # fs) x =
     and_then (Some (st_eachCall S st f)) (\<lambda>cs.
     and_then (addNames S st blake2b utf8 opt fuel (map CallName cs) x) (\<lambda>x. addFuncs S st blake2b utf8 opt fuel fs x))"

definition addAll ::
    "'s store \<Rightarrow> 's \<Rightarrow> (bytes \<Rightarrow> bytes) \<Rightarrow> (string \<Rightarrow> bool) \<Rightarrow> string \<Rightarrow> nat \<Rightarrow> name list \<Rightarrow> car_export \<Rightarrow> (abort + car_export) option" where
  "addAll S st blake2b utf8 opt fuel names_to_export x =
     (if names_to_export \<noteq> [] then addNames S st blake2b utf8 opt fuel names_to_export x
      else and_then (Some (st_eachHead S st)) (\<lambda>hs.
        and_then (addNames S st blake2b utf8 opt fuel (map HeadName hs) x) (\<lambda>x.
        and_then (Some (st_list_funcs S st)) (\<lambda>fs. addFuncs S st blake2b utf8 opt fuel fs x))))"

text \<open>The padding between the header and the data: the largest block of exactly the size that is left.\<close>

definition padding_bytes :: "nat \<Rightarrow> bytes" where
  "padding_bytes n = map (\<lambda>i. (to_bytes ''MemoDB CAR'' @ [0]) ! (i mod 11)) [0..<n]"

fun write_padding :: "(bytes \<Rightarrow> bytes) \<Rightarrow> bytes \<Rightarrow> nat \<Rightarrow> ostream \<Rightarrow> ostream" where
  "write_padding blake2b Padding Size os =
     (let Block = saveAsIPLD blake2b True (Bytes (take Size Padding)) in
      if getBlockSize Block = length Padding then writeBlock Block os
      else case Size of 0 \<Rightarrow> os | Suc Size \<Rightarrow> write_padding blake2b Padding Size os)"

declare write_padding.simps [simp del]

definition export_root :: "(string \<Rightarrow> bool) \<Rightarrow> node \<Rightarrow> node \<Rightarrow> node \<Rightarrow> abort + node" where
  "export_root utf8 Calls Heads IDs =
     then_do (map_sum NodeFatal id (node_of_string utf8 ''MemoDB CAR'')) (\<lambda>format.
       map_sum NodeFatal id (node_of_map utf8 (nm_init
         [(''format'', format), (''version'', Int64 0), (''calls'', Calls), (''heads'', Heads), (''ids'', IDs)])))"

definition export_header :: "(string \<Rightarrow> bool) \<Rightarrow> cid \<Rightarrow> abort + node" where
  "export_header utf8 RootRef =
     map_sum NodeFatal id (node_of_map utf8 (nm_init [(''roots'', List [Link RootRef]), (''version'', Int64 1)]))"

definition finish_export :: "(bytes \<Rightarrow> bytes) \<Rightarrow> nat \<Rightarrow> node \<Rightarrow> ostream \<Rightarrow> abort + ostream" where
  "finish_export blake2b DataStartPos Header os =
     (let Buffer = saveAsCBOR Header;
          os = os_write Buffer (car_writeVarInt (of_nat (length Buffer)) (os_seek 0 os));
          os = (if os_pos os < DataStartPos
                then (let n = DataStartPos - os_pos os in write_padding blake2b (padding_bytes n) n os)
                else os)
      in if os_pos os \<noteq> DataStartPos then Inl (ReportFatal ''CAR header too large to fit'') else Inr os)"

definition exportToCARFile ::
    "'s store \<Rightarrow> 's \<Rightarrow> (bytes \<Rightarrow> bytes) \<Rightarrow> (string \<Rightarrow> bool) \<Rightarrow> string \<Rightarrow> nat \<Rightarrow> bool \<Rightarrow> name list \<Rightarrow> ostream
      \<Rightarrow> (abort + cid \<times> ostream) option" where
  "exportToCARFile S st blake2b utf8 opt fuel supportsSeeking names_to_export os =
     (if \<not> supportsSeeking then Some (Inl (ReportFatal ''output file doesn't support seeking''))
      else
        let os = os_write (replicate 0x200 0) os; DataStartPos = os_pos os;
            x = \<lparr>ex_os = os, ex_AlreadyWritten = {}, ex_Calls = Map [], ex_Heads = Map [], ex_IDs = List []\<rparr> in
        and_then (Some (export_root utf8 (ex_Calls x) (ex_Heads x) (ex_IDs x))) (\<lambda>_.
        and_then (addAll S st blake2b utf8 opt fuel names_to_export x) (\<lambda>x.
        and_then (Some (export_root utf8 (ex_Calls x) (ex_Heads x) (ex_IDs x))) (\<lambda>Root.
        and_then (exportValue S st blake2b fuel Root x) (\<lambda>(RootRef, x).
        and_then (Some (export_header utf8 RootRef)) (\<lambda>Header.
        and_then (Some (finish_export blake2b DataStartPos Header (ex_os x))) (\<lambda>os.
          Some (Inr (RootRef, os)))))))))"

section \<open>What is read from a file\<close>

text \<open>
  What \<^verbatim>\<open>readNativeFileSlice\<close> is documented to do on a file with the given contents: it returns
  bytes from the position on, at most as many as asked for, and none only at the end.
\<close>

definition reads :: "pread \<Rightarrow> bytes \<Rightarrow> bool" where
  "reads pread file \<longleftrightarrow> (\<forall>Pos n. \<exists>k \<le> n. pread Pos n = Some (take k (drop Pos file)) \<and> (0 < n \<longrightarrow> 0 < k))"

lemma reads_whole: "reads (\<lambda>Pos n. Some (take n (drop Pos file))) file"
  unfolding reads_def by blast

lemma readBytes_reads:
  "reads pread file \<Longrightarrow> Pos + n \<le> length file \<Longrightarrow> readBytes pread n Pos = Inr (Some (take n (drop Pos file), Pos + n))"
proof (induction n arbitrary: Pos rule: less_induct)
  case (less n)
  show ?case
  proof (cases "n = 0")
    case True
    then show ?thesis by (simp add: readBytes.simps)
  next
    case False
    obtain k where k: "k \<le> n" "pread Pos n = Some (take k (drop Pos file))" "0 < k"
      using less.prems(1) False unfolding reads_def by blast
    have "length (take k (drop Pos file)) = k" and "take k (drop Pos file) \<noteq> []" using k less.prems(2) by auto
    moreover have "readBytes pread (n - k) (Pos + k) = Inr (Some (take (n - k) (drop (Pos + k) file), Pos + k + (n - k)))"
      by (rule less.IH) (use k False less.prems in simp_all)
    moreover have "take k (drop Pos file) @ take (n - k) (drop (Pos + k) file) = take n (drop Pos file)"
      using k(1) by (metis add.commute drop_drop le_add_diff_inverse take_add)
    ultimately show ?thesis
      using k(1,2) False by (subst readBytes.simps) simp
  qed
qed

lemma readBytes_at:
  assumes "reads pread (pre @ bs @ post)"
  shows "readBytes pread (length bs) (length pre) = Inr (Some (bs, length pre + length bs))"
  using readBytes_reads [OF assms, of "length pre" "length bs"] by simp

lemma readBytes_end:
  assumes "reads pread file"
  shows "readBytes pread 1 (length file) = Inr None"
proof -
  obtain k where "pread (length file) 1 = Some (take k (drop (length file) file))"
    using assms unfolding reads_def by blast
  then show ?thesis by (subst readBytes.simps) simp
qed

lemma readVarInt_loop_load:
  "reads pread file \<Longrightarrow> Pos \<le> length file \<Longrightarrow> loadVarInt_loop r Shift (drop Pos file) = Some (v, rest) \<Longrightarrow>
   readVarInt_loop pread r Shift Pos = Inr (Some v, length file - length rest)"
proof (induction pread r Shift Pos rule: readVarInt_loop.induct)
  case (1 pread r Shift Pos)
  have "drop Pos file \<noteq> []" using "1.prems"(3) by (auto simp: loadVarInt_loop.simps split: if_splits)
  then have Pos: "Pos < length file" by simp
  then obtain b where b: "drop Pos file = b # drop (Suc Pos) file" by (metis Cons_nth_drop_Suc)
  have read: "readBytes pread 1 Pos = Inr (Some ([b], Suc Pos))"
    using readBytes_reads [OF "1.prems"(1), of Pos 1] Pos b by simp
  let ?r = "r OR push_bit Shift (ucast (b AND 0x7f))"
  have load: "\<not> 64 - 7 \<le> Shift" "if b AND 0x80 = 0 then \<not> (b = 0 \<and> Shift \<noteq> 0) \<and> v = ?r \<and> rest = drop (Suc Pos) file
      else loadVarInt_loop ?r (Shift + 7) (drop (Suc Pos) file) = Some (v, rest)"
    using "1.prems"(3) loadVarInt_loop.simps [of r Shift "b # drop (Suc Pos) file"] unfolding b
    by (simp_all add: Let_def split: if_splits)
  show ?case
  proof (cases "b AND 0x80 = 0")
    case True
    then show ?thesis using load read Pos by (subst readVarInt_loop.simps) (auto simp: Let_def)
  next
    case False
    have "readVarInt_loop pread ?r (Shift + 7) (Suc Pos) = Inr (Some v, length file - length rest)"
      using "1.IH" [OF load(1) read refl refl, of b ?r] False "1.prems"(1) Pos load(2) by simp
    then show ?thesis using load(1) read False by (subst readVarInt_loop.simps) (simp add: Let_def)
  qed
qed

lemma readVarInt_at:
  assumes "reads pread (pre @ writeVarInt v @ post)" and "unat v < 2 ^ 63"
  shows "readVarInt pread (length pre) = Inr (Some v, length pre + length (writeVarInt v))"
  using readVarInt_loop_load [OF assms(1), of "length pre" 0 0 v post] loadVarInt_writeVarInt [OF assms(2), of post]
  by (simp add: readVarInt_def loadVarIntFromSequence_def)

lemma the_VarInt_at:
  assumes "reads pread (pre @ writeVarInt v @ post)" and "unat v < 2 ^ 63"
  shows "the_VarInt pread (length pre) = Inr (unat v, length pre + length (writeVarInt v))"
  using readVarInt_at [OF assms] by (simp add: the_VarInt_def deref_def)

lemma readVarInt_end: "reads pread file \<Longrightarrow> readVarInt pread (length file) = Inr (None, length file)"
  using readBytes_end [of pread "file"] by (simp add: readVarInt_def readVarInt_loop.simps)

lemma readCID_at:
  assumes "reads pread (pre @ cid_Bytes c @ post)" and "wf_cid c"
  shows "readCID pread (length pre) = Inr (c, length pre + length (cid_Bytes c))"
proof -
  obtain ct ht hash where c: "c = make_cid ct ht hash" and s: "content_supported ct"
      "hash_supported ht (of_nat (length hash))" "length hash < 2 ^ 63"
    using assms(2) by (rule wf_cid_exhaust)
  let ?ct = "writeVarInt (scast ct)" and ?ht = "writeVarInt (scast ht)" and ?n = "writeVarInt (of_nat (length hash))"
  have n: "unat (of_nat (length hash) :: u64) = length hash" using s(3) by (simp add: unat_of_nat)
  have bytes: "cid_Bytes c = writeVarInt 1 @ ?ct @ ?ht @ ?n @ hash" by (simp add: c make_cid_Bytes writeVarInt_small)
  have "the_VarInt pread (length pre) = Inr (1, length pre + length (writeVarInt 1))"
    using the_VarInt_at [of pread pre 1] assms(1) by (simp add: bytes)
  moreover have "the_VarInt pread (length (pre @ writeVarInt 1)) = Inr (unat (scast ct :: u64), length (pre @ writeVarInt 1) + length ?ct)"
    by (rule the_VarInt_at) (use assms(1) supported_codecs(1) [OF s(1)] in \<open>simp_all add: bytes\<close>)
  moreover have "the_VarInt pread (length (pre @ writeVarInt 1 @ ?ct))
      = Inr (unat (scast ht :: u64), length (pre @ writeVarInt 1 @ ?ct) + length ?ht)"
    by (rule the_VarInt_at) (use assms(1) supported_codecs(2) [OF s(2)] in \<open>simp_all add: bytes\<close>)
  moreover have "the_VarInt pread (length (pre @ writeVarInt 1 @ ?ct @ ?ht))
      = Inr (unat (of_nat (length hash) :: u64), length (pre @ writeVarInt 1 @ ?ct @ ?ht) + length ?n)"
    by (rule the_VarInt_at) (use assms(1) s(3) n in \<open>simp_all add: bytes\<close>)
  moreover have "readBytes pread (length (cid_Bytes c)) (length pre) = Inr (Some (cid_Bytes c, length pre + length (cid_Bytes c)))"
    using assms(1) by (rule readBytes_at)
  ultimately show ?thesis
    using cid_fromBytes_wf [OF assms(2)] n
    by (simp add: readCID_def Let_def bytes add.assoc)
qed

section \<open>Blocks\<close>

definition block_bytes :: "cid \<times> bytes \<Rightarrow> bytes" where
  "block_bytes B = (let Buffer = cid_Bytes (fst B) @ snd B in writeVarInt (of_nat (length Buffer)) @ Buffer)"

definition blocks_bytes :: "(cid \<times> bytes) list \<Rightarrow> bytes" where
  "blocks_bytes Bs = concat (map block_bytes Bs)"

lemma blocks_bytes_simps [simp]:
  "blocks_bytes [] = []" "blocks_bytes (B # Bs) = block_bytes B @ blocks_bytes Bs"
  "blocks_bytes (Bs @ Cs) = blocks_bytes Bs @ blocks_bytes Cs"
  by (simp_all add: blocks_bytes_def)

text \<open>Blocks whose size the reader can read.\<close>

definition wf_block :: "cid \<times> bytes \<Rightarrow> bool" where
  "wf_block B \<longleftrightarrow> wf_cid (fst B) \<and> length (cid_Bytes (fst B) @ snd B) < 2 ^ 63"

lemma wf_block_size: "wf_block B \<Longrightarrow> unat (of_nat (length (cid_Bytes (fst B) @ snd B)) :: u64) = length (cid_Bytes (fst B) @ snd B)"
proof -
  have "unat (of_nat n :: u64) = n" if "n < 2 ^ 63" for n using that by (simp add: unat_of_nat)
  then show "wf_block B \<Longrightarrow> ?thesis" unfolding wf_block_def by blast
qed

text \<open>The positions \<^verbatim>\<open>open\<close> finds: the last block of each identifier counts.\<close>

fun positions :: "nat \<Rightarrow> (cid \<times> bytes) list \<Rightarrow> (bytes \<Rightarrow> nat option) \<Rightarrow> bytes \<Rightarrow> nat option" where
  "positions p [] m = m"
| "positions p (B # Bs) m = positions (p + length (block_bytes B)) Bs (m(cid_Bytes (fst B) \<mapsto> p))"

lemma scan_blocks_ok:
  "reads pread (pre @ blocks_bytes Bs) \<Longrightarrow> list_all wf_block Bs \<Longrightarrow> length Bs < fuel \<Longrightarrow>
   scan_blocks fuel pread (length pre) m = Some (Inr (positions (length pre) Bs m))"
proof (induction Bs arbitrary: pre fuel m)
  case Nil
  then obtain fuel' where "fuel = Suc fuel'" by (cases fuel) auto
  then show ?case using readVarInt_end [OF Nil.prems(1)] by (simp add: and_then_def)
next
  case (Cons B Bs)
  then obtain fuel' where fuel: "fuel = Suc fuel'" by (cases fuel) auto
  let ?v = "of_nat (length (cid_Bytes (fst B) @ snd B)) :: u64"
  have wf: "wf_block B" using Cons.prems(2) by simp
  note size = wf_block_size [OF wf]
  have r: "reads pread (pre @ writeVarInt ?v @ cid_Bytes (fst B) @ snd B @ blocks_bytes Bs)"
    using Cons.prems(1) by (simp add: block_bytes_def Let_def)
  have "readVarInt pread (length pre) = Inr (Some ?v, length pre + length (writeVarInt ?v))"
    by (rule readVarInt_at [OF r]) (use wf size in \<open>simp add: wf_block_def\<close>)
  moreover have "readCID pread (length (pre @ writeVarInt ?v))
      = Inr (fst B, length (pre @ writeVarInt ?v) + length (cid_Bytes (fst B)))"
    by (rule readCID_at [where post = "snd B @ blocks_bytes Bs"]) (use r wf in \<open>simp_all add: wf_block_def\<close>)
  moreover have "scan_blocks fuel' pread (length (pre @ block_bytes B)) (m(cid_Bytes (fst B) \<mapsto> length pre))
      = Some (Inr (positions (length (pre @ block_bytes B)) Bs (m(cid_Bytes (fst B) \<mapsto> length pre))))"
    by (rule Cons.IH) (use Cons.prems fuel in simp_all)
  ultimately show ?case
    unfolding fuel using size by (simp add: and_then_def Let_def block_bytes_def add.assoc)
qed

lemma positions_other: "k \<notin> cid_Bytes ` fst ` set Bs \<Longrightarrow> positions p Bs m k = m k"
  by (induction Bs arbitrary: p m) auto

lemma positions_last:
  "cid_Bytes (fst B) \<notin> cid_Bytes ` fst ` set Cs \<Longrightarrow>
   positions p (Bs @ B # Cs) m (cid_Bytes (fst B)) = Some (p + length (blocks_bytes Bs))"
  by (induction Bs arbitrary: p m) (auto simp: positions_other)

text \<open>A block that was found is read back.\<close>

lemma car_get_block:
  assumes "reads (car_file s) (pre @ blocks_bytes (Bs @ B # Cs))" and "wf_block B" and "\<not> isIdentity (fst B)"
    and "car_BlockPositions s (cid_Bytes (fst B)) = Some (length pre + length (blocks_bytes Bs))"
    and "loadFromIPLD utf8 (fst B) (snd B) = Inr n"
  shows "car_getOptional utf8 s (fst B) = Inr (Some n)"
proof -
  let ?v = "of_nat (length (cid_Bytes (fst B) @ snd B)) :: u64" and ?pre = "pre @ blocks_bytes Bs"
  note size = wf_block_size [OF assms(2)]
  have r: "reads (car_file s) (?pre @ writeVarInt ?v @ cid_Bytes (fst B) @ snd B @ blocks_bytes Cs)"
    using assms(1) by (simp add: block_bytes_def Let_def)
  have "the_VarInt (car_file s) (length ?pre) = Inr (unat ?v, length ?pre + length (writeVarInt ?v))"
    by (rule the_VarInt_at [OF r]) (use assms(2) size in \<open>simp add: wf_block_def\<close>)
  moreover have "readCID (car_file s) (length (?pre @ writeVarInt ?v))
      = Inr (fst B, length (?pre @ writeVarInt ?v) + length (cid_Bytes (fst B)))"
    by (rule readCID_at [where post = "snd B @ blocks_bytes Cs"]) (use r assms(2) in \<open>simp_all add: wf_block_def\<close>)
  moreover have "readBytes (car_file s) (length (snd B)) (length (?pre @ writeVarInt ?v @ cid_Bytes (fst B)))
      = Inr (Some (snd B, length (?pre @ writeVarInt ?v @ cid_Bytes (fst B)) + length (snd B)))"
    by (rule readBytes_at [where post = "blocks_bytes Cs"]) (use r in simp)
  ultimately show ?thesis
    using assms(3-5) size by (simp add: car_getOptional_def Let_def cid_eq_def add.assoc)
qed

subsection \<open>Writing blocks\<close>

lemma os_write_write:
  assumes "os_pos os \<le> length (os_data os)"
  shows "os_write bs (os_write as os) = os_write (as @ bs) os"
  using assms by (simp add: os_write_def min_def add.assoc add.commute [of "length bs"])

lemma car_writeVarInt_eq:
  "os_pos os \<le> length (os_data os) \<Longrightarrow> car_writeVarInt v os = os_write (writeVarInt v) os"
proof (induction v os rule: car_writeVarInt.induct)
  case (1 v os)
  then show ?case
    by (subst car_writeVarInt.simps, subst writeVarInt.simps) (auto simp: os_write_write, auto simp: os_write_def)
qed

lemma writeBlock_eq: "os_pos os \<le> length (os_data os) \<Longrightarrow> writeBlock B os = os_write (block_bytes B) os"
  by (simp add: writeBlock_def car_writeVarInt_eq os_write_write block_bytes_def Let_def)

lemma getVarIntSize_eq: "getVarIntSize v = length (writeVarInt v)"
proof (induction v rule: getVarIntSize.induct)
  case (1 v)
  then show ?case by (subst getVarIntSize.simps, subst writeVarInt.simps) simp
qed

lemma getBlockSize_eq: "getBlockSize B = length (block_bytes B)"
  by (simp add: getBlockSize_def getVarIntSize_eq block_bytes_def Let_def add.commute)

section \<open>Header and padding\<close>

lemma length_varint_hash: "length (writeVarInt 0xb220) = 3"
  by code_simp

lemma length_writeVarInt_2:
  assumes "0x80 \<le> unat v" and "unat v < 0x4000"
  shows "length (writeVarInt v) = 2"
proof -
  have "drop_bit 7 v < 0x80"
    using assms(2) by (simp add: word_less_nat_alt drop_bit_eq_div unat_div less_mult_imp_div_less)
  then show ?thesis
    using assms(1) writeVarInt_small [of "drop_bit 7 v"] by (subst writeVarInt.simps) (simp add: word_le_nat_alt)
qed

lemma save_padding: "saveAsIPLD blake2b True (Bytes p) = (make_cid Raw Blake2b_256 (blake2b p), p)"
  by (simp add: saveAsIPLD_def calculate_def isIdentity_def)

lemma length_hash_cid:
  assumes "content_supported ct" and "length h = 32"
  shows "length (cid_Bytes (make_cid ct Blake2b_256 h)) \<in> {38, 39}"
proof -
  have "length (writeVarInt (scast ct :: u64)) \<in> {1, 2}"
  proof (cases "ct = DAG_CBOR_Unrestricted")
    case True
    then show ?thesis by (simp add: length_writeVarInt_2)
  next
    case False
    with assms(1) have "(scast ct :: u64) < 0x80" by (auto simp: content_supported_def)
    then show ?thesis by (simp add: writeVarInt_small)
  qed
  moreover have "writeVarInt (of_nat (length h)) = [32]" using assms(2) by (simp add: writeVarInt_small)
  ultimately show ?thesis
    using assms(2) length_varint_hash by (auto simp: length_Bytes_make_cid)
qed

lemma length_padding_cid: "length h = 32 \<Longrightarrow> length (cid_Bytes (make_cid Raw Blake2b_256 h)) = 38"
  using length_varint_hash by (simp add: length_Bytes_make_cid writeVarInt_small)

lemma padding_size:
  assumes "\<forall>bs. length (blake2b bs) = 32" and "length p < 2 ^ 32"
  shows "getBlockSize (saveAsIPLD blake2b True (Bytes p)) = length p + 38 + length (writeVarInt (of_nat (length p + 38)))"
  using assms by (simp add: save_padding getBlockSize_eq block_bytes_def Let_def length_padding_cid add.commute)

text \<open>The search for the padding succeeds for every gap the header can leave.\<close>

lemma padding_size_2:
  assumes "\<forall>bs. length (blake2b bs) = 32" and "90 \<le> m" and "m \<le> length Padding" and "m < 16000"
  shows "getBlockSize (saveAsIPLD blake2b True (Bytes (take m Padding))) = m + 40"
proof -
  have u: "unat (of_nat (m + 38) :: u64) = m + 38" by (rule unat_of_nat_u64) (use assms(4) in simp)
  have "length (writeVarInt (of_nat (m + 38))) = 2"
    by (rule length_writeVarInt_2) (unfold u, use assms(2,4) in simp_all)
  moreover have "length (take m Padding) = m" using assms(3) by simp
  ultimately show ?thesis using padding_size [OF assms(1), of "take m Padding"] assms(4) by simp
qed

lemma write_padding_ok:
  assumes "\<forall>bs. length (blake2b bs) = 32" and "length Padding = n" and "168 \<le> n" and "n < 16000"
  shows "n - 40 + d \<le> n \<Longrightarrow> write_padding blake2b Padding (n - 40 + d) os
    = writeBlock (saveAsIPLD blake2b True (Bytes (take (n - 40) Padding))) os"
proof (induction d)
  case 0
  show ?case
    using padding_size_2 [OF assms(1), of "n - 40" Padding] assms(2-4) by (subst write_padding.simps) (simp add: Let_def)
next
  case (Suc d)
  then show ?case
    using padding_size_2 [OF assms(1), of "Suc (n - 40 + d)" Padding] assms(2-4)
    by (subst write_padding.simps) (simp add: Let_def)
qed

lemma length_padding_bytes [simp]: "length (padding_bytes n) = n"
  by (simp add: padding_bytes_def)

lemma finish_export_ok:
  assumes "\<forall>bs. length (blake2b bs) = 32" and "length (saveAsCBOR Header) < 128"
    and "os_data os = replicate 0x200 0 @ data"
  shows "\<exists>B os'. finish_export blake2b 0x200 Header os = Inr os' \<and> wf_block B \<and> \<not> isIdentity (fst B)
    \<and> os_data os' = writeVarInt (of_nat (length (saveAsCBOR Header))) @ saveAsCBOR Header @ block_bytes B @ data"
proof -
  let ?H = "saveAsCBOR Header" and ?v = "writeVarInt (of_nat (length (saveAsCBOR Header)))"
  let ?n = "0x200 - (1 + length ?H)" and ?os1 = "os_write (?v @ ?H) (os_seek 0 os)"
  let ?B = "saveAsIPLD blake2b True (Bytes (take (?n - 40) (padding_bytes ?n)))"
  have v: "length ?v = 1" using assms(2) by (simp add: writeVarInt_small word_less_nat_alt unat_of_nat)
  have os1: "os_data ?os1 = ?v @ ?H @ replicate ?n 0 @ data" "os_pos ?os1 = 1 + length ?H"
    using v assms(2,3) by (simp_all add: os_write_def os_seek_def)
  have pad: "write_padding blake2b (padding_bytes ?n) ?n ?os1 = writeBlock ?B ?os1" "getBlockSize ?B = ?n"
    using write_padding_ok [OF assms(1), of "padding_bytes ?n" ?n 40 ?os1]
      padding_size_2 [OF assms(1), of "?n - 40" "padding_bytes ?n"] assms(2) by simp_all
  have B: "os_data (writeBlock ?B ?os1) = ?v @ ?H @ block_bytes ?B @ data" "os_pos (writeBlock ?B ?os1) = 0x200"
    using v os1 pad(2) assms(2) by (simp_all add: writeBlock_eq os_write_def getBlockSize_eq)
  have "finish_export blake2b 0x200 Header os = Inr (writeBlock ?B ?os1)"
    using os1(2) pad(1) B(2) assms(2,3)
    by (simp add: finish_export_def Let_def car_writeVarInt_eq os_write_write os_seek_def)
  moreover have "wf_block ?B" and "\<not> isIdentity (fst ?B)"
    using assms(1) length_padding_cid by (simp_all add: save_padding wf_block_def wf_make_cid hash_supported_def content_supported_def isIdentity_def)
  ultimately show ?thesis using B(1) by blast
qed

subsection \<open>Opening\<close>

lemma subscript_present:
  "nm_sorted ms \<Longrightarrow> nm_lookup ms name = Some v \<Longrightarrow> subscript (Map ms) name = Inr (Map ms, v)"
  by (auto simp: subscript_def node_subscript_def try_emplace_def nm_lookup_def nm_find_def Let_def split: if_splits)

text \<open>Strings of ASCII characters are legal UTF-8.\<close>

definition ascii_ok :: "(string \<Rightarrow> bool) \<Rightarrow> bool" where
  "ascii_ok utf8 \<longleftrightarrow> (\<forall>s. list_all (\<lambda>c. of_char c < (128 :: nat)) s \<longrightarrow> utf8 s)"

definition header_node :: "cid \<Rightarrow> node" where
  "header_node c = Map [(''roots'', List [Link c]), (''version'', Int64 1)]"

lemma export_header_ok: "ascii_ok utf8 \<Longrightarrow> export_header utf8 c = Inr (header_node c)"
  by (simp add: export_header_def header_node_def nm_init_def insert_or_assign_Nil insert_or_assign_Cons
      key_compare_def node_of_map_def ascii_ok_def)

lemma length_header:
  assumes "length (cid_Bytes c) \<in> {38, 39}"
  shows "length (saveAsCBOR (header_node c)) < 128"
  using assms by (auto simp: saveAsCBOR_cbor header_node_def head_bytes_def Let_def)

lemma header_loads:
  assumes "ascii_ok utf8" and "wf_cid c"
  shows "\<exists>n. loadFromCBOR utf8 (saveAsCBOR (header_node c)) = Inr n \<and> check_header n = Inr c"
proof -
  let ?ms = "[(''roots'', List [Link c]), (''version'', UInt64 1)]"
  have sorted: "nm_sorted ?ms" by (simp add: nm_sorted_def key_compare_def)
  have "wf_node utf8 (header_node c)"
    using assms by (simp add: header_node_def nm_sorted_def key_compare_def ascii_ok_def)
  then have "loadFromCBOR utf8 (saveAsCBOR (header_node c)) = Inr (Map ?ms)"
    using loadFromCBOR_saved [of utf8 "header_node c"] by (simp add: saveAsCBOR_cbor header_node_def)
  moreover have "node_compare (UInt64 1) (Int64 1) = 0" by code_simp
  ultimately show ?thesis
    using subscript_present [OF sorted, of "''version''"] subscript_present [OF sorted, of "''roots''"]
    by (simp add: check_header_def nm_lookup_map_of [OF sorted] node_size_def node_at_index_def as_CID_def)
qed

definition root_node :: "node \<Rightarrow> node \<Rightarrow> node \<Rightarrow> node" where
  "root_node Calls Heads IDs =
     Map [(''ids'', IDs), (''calls'', Calls), (''heads'', Heads), (''format'', String ''MemoDB CAR''), (''version'', Int64 0)]"

lemma export_root_ok: "ascii_ok utf8 \<Longrightarrow> export_root utf8 Calls Heads IDs = Inr (root_node Calls Heads IDs)"
  by (simp add: export_root_def root_node_def nm_init_def insert_or_assign_Nil insert_or_assign_Cons
      key_compare_def node_of_map_def node_of_string_def ascii_ok_def)

definition loaded_root :: "node \<Rightarrow> node \<Rightarrow> node \<Rightarrow> node" where
  "loaded_root Calls Heads IDs =
     Map [(''ids'', IDs), (''calls'', Calls), (''heads'', Heads), (''format'', String ''MemoDB CAR''), (''version'', UInt64 0)]"

lemma norm_root: "cbor_norm (root_node Calls Heads IDs) = loaded_root (cbor_norm Calls) (cbor_norm Heads) (cbor_norm IDs)"
  by (simp add: root_node_def loaded_root_def)

lemma root_subscript:
  "subscript (loaded_root Calls Heads IDs) ''heads'' = Inr (loaded_root Calls Heads IDs, Heads)"
  "subscript (loaded_root Calls Heads IDs) ''format'' = Inr (loaded_root Calls Heads IDs, String ''MemoDB CAR'')"
  "subscript (loaded_root Calls Heads IDs) ''version'' = Inr (loaded_root Calls Heads IDs, UInt64 0)"
proof -
  let ?ms = "[(''ids'', IDs), (''calls'', Calls), (''heads'', Heads), (''format'', String ''MemoDB CAR''), (''version'', UInt64 0)]"
  have sorted: "nm_sorted ?ms" by (simp add: nm_sorted_def key_compare_def)
  show "subscript (loaded_root Calls Heads IDs) ''heads'' = Inr (loaded_root Calls Heads IDs, Heads)"
    "subscript (loaded_root Calls Heads IDs) ''format'' = Inr (loaded_root Calls Heads IDs, String ''MemoDB CAR'')"
    "subscript (loaded_root Calls Heads IDs) ''version'' = Inr (loaded_root Calls Heads IDs, UInt64 0)"
    unfolding loaded_root_def by (rule subscript_present [OF sorted], simp add: nm_lookup_map_of [OF sorted])+
qed

lemma check_root_ok: "check_root (loaded_root Calls Heads IDs) = Inr (loaded_root Calls Heads IDs)"
proof -
  have "node_compare (String ''MemoDB CAR'') (String ''MemoDB CAR'') = 0" "node_compare (UInt64 0) (Int64 0) = 0"
    by code_simp+
  then show ?thesis by (simp add: check_root_def root_subscript)
qed

lemma root_size: "34 < content_size (root_node Calls Heads IDs)"
  using length_cbor_pos [of Calls] length_cbor_pos [of Heads] length_cbor_pos [of IDs]
  by (simp add: content_size_def saveAsCBOR_cbor root_node_def head_bytes_def Let_def)

lemma wf_root:
  assumes "ascii_ok utf8" and "wf_node utf8 Calls" and "wf_node utf8 Heads" and "wf_node utf8 IDs"
  shows "wf_node utf8 (root_node Calls Heads IDs)"
  using assms by (simp add: root_node_def nm_sorted_def key_compare_def ascii_ok_def)

lemma car_load_ok:
  assumes "reads pread (writeVarInt (of_nat (length (saveAsCBOR (header_node c)))) @ saveAsCBOR (header_node c) @ blocks_bytes (Bs @ [(c, content)]))"
    and "ascii_ok utf8" and "wf_cid c" and "\<not> isIdentity c" and "length (cid_Bytes c) \<in> {38, 39}"
    and "list_all wf_block (Bs @ [(c, content)])" and "length Bs + 1 < fuel"
    and "loadFromIPLD utf8 c content = Inr (loaded_root Calls Heads IDs)"
  defines "p \<equiv> 1 + length (saveAsCBOR (header_node c))"
  shows "car_load utf8 fuel pread = Some (Inr \<lparr>car_file = pread, car_Root = loaded_root Calls Heads IDs,
    car_BlockPositions = positions p (Bs @ [(c, content)]) (\<lambda>_. None)\<rparr>)"
proof -
  let ?H = "saveAsCBOR (header_node c)" and ?m = "positions p (Bs @ [(c, content)]) (\<lambda>_. None)"
  let ?v = "of_nat (length ?H) :: u64"
  have v: "unat ?v = length ?H" "length (writeVarInt ?v) = 1" and small: "length ?H < 128"
    using length_header [OF assms(5)] by (simp_all add: unat_of_nat writeVarInt_small word_less_nat_alt)
  obtain n where n: "loadFromCBOR utf8 ?H = Inr n" "check_header n = Inr c" using header_loads [OF assms(2,3)] by blast
  have "the_VarInt pread 0 = Inr (length ?H, 1)"
    using the_VarInt_at [of pread "[]" ?v] assms(1) v small by simp
  moreover have "readBytes pread (length ?H) (length (writeVarInt ?v)) = Inr (Some (?H, length (writeVarInt ?v) + length ?H))"
    using assms(1) by (rule readBytes_at)
  then have "readValue utf8 pread 1 (length ?H) = Inr (n, p)" using n(1) v by (simp add: readValue_def p_def)
  moreover have "scan_blocks fuel pread (length (writeVarInt ?v @ ?H)) (\<lambda>_. None)
      = Some (Inr (positions (length (writeVarInt ?v @ ?H)) (Bs @ [(c, content)]) (\<lambda>_. None)))"
    by (rule scan_blocks_ok) (use assms(1,6,7) in simp_all)
  then have "scan_blocks fuel pread p (\<lambda>_. None) = Some (Inr ?m)" using v(2) by (simp add: p_def)
  moreover have "car_getOptional utf8 \<lparr>car_file = pread, car_Root = Null, car_BlockPositions = ?m\<rparr> (fst (c, content))
      = Inr (Some (loaded_root Calls Heads IDs))"
    by (rule car_get_block [where pre = "writeVarInt ?v @ ?H" and Bs = Bs and Cs = "[]"])
      (use assms(1,4,6,8) v(2) positions_last [of "(c, content)" "[]" p Bs] in \<open>simp_all add: p_def\<close>)
  ultimately show ?thesis
    using n(2) check_root_ok by (simp add: car_load_def and_then_def deref_def Let_def)
qed

end
