(* ===== verification/CAR_Export.thy ===== *)
theory CAR_Export
  imports CAR RocksDB_Store
begin

section \<open>An exported file has everything that can be reached\<close>

text \<open>
  The export of \<^verbatim>\<open>CAR.cpp\<close> from any store that satisfies the contract of stores: the traversal
  terminates and writes one block for every node that can be reached, and what was written
  is found again by \<^verbatim>\<open>CARStore::open\<close>, by \<^verbatim>\<open>resolveOptional\<close> for the exported heads and by
  \<^verbatim>\<open>getOptional\<close> for every node that can be reached from them.
\<close>

text \<open>A finite set of identifiers of nodes the store has, closed under links, each stored under its hash.\<close>

definition exportable :: "(bytes \<Rightarrow> bytes) \<Rightarrow> (string \<Rightarrow> bool) \<Rightarrow> spec \<Rightarrow> cid set \<Rightarrow> bool" where
  "exportable blake2b utf8 sp U \<longleftrightarrow> finite U
     \<and> (\<forall>c \<in> U. wf_cid c \<and> (\<exists>v. spec_get utf8 sp c = Inr (Some v) \<and> wf_node utf8 v \<and> content_size v < 2 ^ 62
          \<and> cbor_norm v = v \<and> fst (saveAsIPLD blake2b False v) = c \<and> set (eachLink v) \<subseteq> U))"

text \<open>The links of everything written are written, except for the nodes in \<open>P\<close>.\<close>

definition written_closed :: "(string \<Rightarrow> bool) \<Rightarrow> spec \<Rightarrow> cid set \<Rightarrow> cid set \<Rightarrow> bytes set \<Rightarrow> bool" where
  "written_closed utf8 sp U P W \<longleftrightarrow>
     (\<forall>c \<in> U. \<forall>v. cid_Bytes c \<in> W \<longrightarrow> c \<notin> P \<longrightarrow> spec_get utf8 sp c = Inr (Some v) \<longrightarrow> cid_Bytes ` set (eachLink v) \<subseteq> W)"

text \<open>The blocks in the file are those of nodes of the store, and every node marked as written has its block.\<close>

definition block_of :: "(bytes \<Rightarrow> bytes) \<Rightarrow> (string \<Rightarrow> bool) \<Rightarrow> spec \<Rightarrow> cid set \<Rightarrow> cid \<times> bytes \<Rightarrow> bool" where
  "block_of blake2b utf8 sp U B \<longleftrightarrow> fst B \<in> U \<and> \<not> isIdentity (fst B)
     \<and> (\<exists>v. spec_get utf8 sp (fst B) = Inr (Some v) \<and> saveAsIPLD blake2b False v = B)"

definition export_inv ::
    "(bytes \<Rightarrow> bytes) \<Rightarrow> (string \<Rightarrow> bool) \<Rightarrow> spec \<Rightarrow> cid set \<Rightarrow> (cid \<times> bytes) list \<Rightarrow> car_export \<Rightarrow> bool" where
  "export_inv blake2b utf8 sp U Bs x \<longleftrightarrow>
     os_data (ex_os x) = replicate 0x200 0 @ blocks_bytes Bs \<and> os_pos (ex_os x) = length (os_data (ex_os x))
     \<and> list_all (block_of blake2b utf8 sp U) Bs
     \<and> (\<forall>c \<in> U. cid_Bytes c \<in> ex_AlreadyWritten x \<longrightarrow> isIdentity c \<or> c \<in> fst ` set Bs)"

definition unwritten :: "cid set \<Rightarrow> bytes set \<Rightarrow> cid set" where
  "unwritten U W = {c \<in> U. cid_Bytes c \<notin> W}"

definition same_names :: "car_export \<Rightarrow> car_export \<Rightarrow> bool" where
  "same_names x x' \<longleftrightarrow> ex_Calls x' = ex_Calls x \<and> ex_Heads x' = ex_Heads x \<and> ex_IDs x' = ex_IDs x"

lemma cid_Bytes_inject: "wf_cid c \<Longrightarrow> wf_cid d \<Longrightarrow> cid_Bytes c = cid_Bytes d \<Longrightarrow> c = d"
  using cid_fromBytes_wf by (metis option.inject)

lemma linked_written:
  assumes "linked utf8 sp r c" and "exportable blake2b utf8 sp U" and "written_closed utf8 sp U {} W"
    and "r \<in> U" and "cid_Bytes r \<in> W"
  shows "c \<in> U \<and> cid_Bytes c \<in> W"
  using assms(1)
proof induction
  case linked_refl
  then show ?case using assms(4,5) by simp
next
  case (linked_step c v d)
  then show ?case using assms(2,3) unfolding exportable_def written_closed_def by fastforce
qed

lemma written_closed_insert:
  "written_closed utf8 sp U P W \<Longrightarrow> c \<in> U \<Longrightarrow> (\<And>d. d \<in> U \<Longrightarrow> wf_cid d) \<Longrightarrow>
   written_closed utf8 sp U (insert c P) (insert (cid_Bytes c) W)"
  unfolding written_closed_def by (metis cid_Bytes_inject insertE insertI1 insertI2 subset_insertI2)

lemma written_closed_done:
  "written_closed utf8 sp U (insert c P) W \<Longrightarrow> spec_get utf8 sp c = Inr (Some v) \<Longrightarrow> cid_Bytes ` set (eachLink v) \<subseteq> W \<Longrightarrow>
   written_closed utf8 sp U P W"
  unfolding written_closed_def by (metis Inr_inject insertE option.inject)

text \<open>Writing the block of a node.\<close>

lemma export_inv_write:
  assumes "export_inv blake2b utf8 sp U Bs x" and "block_of blake2b utf8 sp U B" and "\<And>d. d \<in> U \<Longrightarrow> wf_cid d"
  shows "export_inv blake2b utf8 sp U (Bs @ [B])
    (x\<lparr>ex_AlreadyWritten := insert (cid_Bytes (fst B)) (ex_AlreadyWritten x), ex_os := writeBlock B (ex_os x)\<rparr>)"
proof -
  have "fst B \<in> U" using assms(2) by (simp add: block_of_def)
  moreover have "writeBlock B (ex_os x) = os_write (block_bytes B) (ex_os x)"
    using assms(1) by (intro writeBlock_eq) (simp add: export_inv_def)
  ultimately show ?thesis
    using assms cid_Bytes_inject [of _ "fst B"] by (auto simp: export_inv_def os_write_def)
qed

lemma export_inv_identity:
  assumes "export_inv blake2b utf8 sp U Bs x" and "isIdentity c" and "c \<in> U" and "\<And>d. d \<in> U \<Longrightarrow> wf_cid d"
  shows "export_inv blake2b utf8 sp U Bs (x\<lparr>ex_AlreadyWritten := insert (cid_Bytes c) (ex_AlreadyWritten x)\<rparr>)"
  using assms cid_Bytes_inject [of _ c] by (auto simp: export_inv_def)

subsection \<open>The traversal\<close>

context store_impl
begin

definition exports :: "'s \<Rightarrow> cid set \<Rightarrow> nat \<Rightarrow> bool" where
  "exports s U fuel \<longleftrightarrow> (\<forall>c x Bs P. c \<in> U \<longrightarrow> export_inv blake2b utf8 (abs s) U Bs x
     \<longrightarrow> written_closed utf8 (abs s) U P (ex_AlreadyWritten x) \<longrightarrow> card (unwritten U (ex_AlreadyWritten x)) < fuel
     \<longrightarrow> (\<exists>x' Bs'. exportRef S s blake2b fuel c x = Some (Inr x') \<and> export_inv blake2b utf8 (abs s) U Bs' x'
          \<and> written_closed utf8 (abs s) U P (ex_AlreadyWritten x') \<and> insert (cid_Bytes c) (ex_AlreadyWritten x) \<subseteq> ex_AlreadyWritten x'
          \<and> same_names x x'))"

lemma exportRefs_ok:
  assumes "exports s U fuel" and "finite U"
  shows "set cs \<subseteq> U \<Longrightarrow> export_inv blake2b utf8 (abs s) U Bs x
     \<Longrightarrow> written_closed utf8 (abs s) U P (ex_AlreadyWritten x) \<Longrightarrow> card (unwritten U (ex_AlreadyWritten x)) < fuel
     \<Longrightarrow> \<exists>x' Bs'. exportRefs S s blake2b fuel cs x = Some (Inr x') \<and> export_inv blake2b utf8 (abs s) U Bs' x'
          \<and> written_closed utf8 (abs s) U P (ex_AlreadyWritten x') \<and> ex_AlreadyWritten x \<subseteq> ex_AlreadyWritten x'
          \<and> cid_Bytes ` set cs \<subseteq> ex_AlreadyWritten x' \<and> same_names x x'"
proof (induction cs arbitrary: x Bs)
  case Nil
  then show ?case by (auto simp: same_names_def)
next
  case (Cons c cs)
  obtain x1 Bs1 where x1: "exportRef S s blake2b fuel c x = Some (Inr x1)" "export_inv blake2b utf8 (abs s) U Bs1 x1"
      "written_closed utf8 (abs s) U P (ex_AlreadyWritten x1)" "insert (cid_Bytes c) (ex_AlreadyWritten x) \<subseteq> ex_AlreadyWritten x1"
      "same_names x x1"
    using assms(1) Cons.prems unfolding exports_def by (metis list.set_intros(1) subsetD)
  have "card (unwritten U (ex_AlreadyWritten x1)) \<le> card (unwritten U (ex_AlreadyWritten x))"
    by (rule card_mono) (use assms(2) x1(4) in \<open>auto simp: unwritten_def\<close>)
  then obtain x2 Bs2 where x2: "exportRefs S s blake2b fuel cs x1 = Some (Inr x2)" "export_inv blake2b utf8 (abs s) U Bs2 x2"
      "written_closed utf8 (abs s) U P (ex_AlreadyWritten x2)" "ex_AlreadyWritten x1 \<subseteq> ex_AlreadyWritten x2"
      "cid_Bytes ` set cs \<subseteq> ex_AlreadyWritten x2" "same_names x1 x2"
    using Cons.IH [OF _ x1(2,3)] Cons.prems(1,4) by auto
  have "exportRefs S s blake2b fuel (c # cs) x = Some (Inr x2)" using x1(1) x2(1) by (simp add: and_then_def)
  moreover have "same_names x x2" using x1(5) x2(6) by (simp add: same_names_def)
  ultimately show ?case using x1(4) x2 by auto
qed

lemma exportRef_new:
  assumes "inv s" and "exportable blake2b utf8 (abs s) U" and "c \<in> U" and "export_inv blake2b utf8 (abs s) U Bs x"
    and "cid_Bytes c \<notin> ex_AlreadyWritten x"
  obtains v y Cs where "spec_get utf8 (abs s) c = Inr (Some v)" "set (eachLink v) \<subseteq> U"
    "\<And>fuel. exportRef S s blake2b (Suc fuel) c x = exportRefs S s blake2b fuel (eachLink v) y"
    "export_inv blake2b utf8 (abs s) U Cs y" "ex_AlreadyWritten y = insert (cid_Bytes c) (ex_AlreadyWritten x)" "same_names x y"
proof -
  have wf: "\<And>d. d \<in> U \<Longrightarrow> wf_cid d" using assms(2) by (simp add: exportable_def)
  obtain v where v: "spec_get utf8 (abs s) c = Inr (Some v)" "fst (saveAsIPLD blake2b False v) = c" "set (eachLink v) \<subseteq> U"
    using assms(2,3) unfolding exportable_def by blast
  let ?x = "x\<lparr>ex_AlreadyWritten := insert (cid_Bytes c) (ex_AlreadyWritten x)\<rparr>" and ?B = "saveAsIPLD blake2b False v"
  define y where "y = (if isIdentity c then ?x else ?x\<lparr>ex_os := writeBlock ?B (ex_os ?x)\<rparr>)"
  have "\<exists>Cs. export_inv blake2b utf8 (abs s) U Cs y"
  proof (cases "isIdentity c")
    case True
    then show ?thesis using export_inv_identity [OF assms(4) True assms(3) wf] by (auto simp: y_def)
  next
    case False
    have "block_of blake2b utf8 (abs s) U ?B" using False v assms(3) by (auto simp: block_of_def)
    from export_inv_write [OF assms(4) this wf] False v(2) show ?thesis by (auto simp: y_def)
  qed
  then obtain Cs where Cs: "export_inv blake2b utf8 (abs s) U Cs y" by blast
  have "store_get S s c = Inr v"
    using get_spec [OF assms(1) wf [OF assms(3)]] v(1) by (simp add: store_get_def deref_def)
  then have "exportRef S s blake2b (Suc fuel) c x = exportRefs S s blake2b fuel (eachLink v) y" for fuel
    using assms(5) v(2) by (simp add: export_value_def and_then_def y_def Let_def split: option.split sum.split)
  moreover have "ex_AlreadyWritten y = insert (cid_Bytes c) (ex_AlreadyWritten x)" "same_names x y"
    by (simp_all add: y_def same_names_def)
  ultimately show thesis using that [of v y Cs] v(1,3) Cs by blast
qed

lemma exportRef_ok:
  assumes "inv s" and "exportable blake2b utf8 (abs s) U"
  shows "exports s U fuel"
proof (induction fuel)
  case 0
  then show ?case by (simp add: exports_def)
next
  case (Suc fuel)
  have wf: "\<And>d. d \<in> U \<Longrightarrow> wf_cid d" and fin: "finite U" using assms(2) by (simp_all add: exportable_def)
  show ?case unfolding exports_def
  proof (intro allI impI)
    fix c x Bs P
    assume c: "c \<in> U" and x: "export_inv blake2b utf8 (abs s) U Bs x"
      and P: "written_closed utf8 (abs s) U P (ex_AlreadyWritten x)" and fuel: "card (unwritten U (ex_AlreadyWritten x)) < Suc fuel"
    let ?W = "insert (cid_Bytes c) (ex_AlreadyWritten x)"
    show "\<exists>x' Bs'. exportRef S s blake2b (Suc fuel) c x = Some (Inr x') \<and> export_inv blake2b utf8 (abs s) U Bs' x'
        \<and> written_closed utf8 (abs s) U P (ex_AlreadyWritten x') \<and> ?W \<subseteq> ex_AlreadyWritten x' \<and> same_names x x'"
    proof (cases "cid_Bytes c \<in> ex_AlreadyWritten x")
      case True
      then show ?thesis using x P by (auto simp: same_names_def)
    next
      case False
      from exportRef_new [OF assms c x False] obtain v y Cs where v: "spec_get utf8 (abs s) c = Inr (Some v)" "set (eachLink v) \<subseteq> U"
        and y: "\<And>fuel. exportRef S s blake2b (Suc fuel) c x = exportRefs S s blake2b fuel (eachLink v) y"
          "export_inv blake2b utf8 (abs s) U Cs y" and W: "ex_AlreadyWritten y = ?W" and names: "same_names x y" by blast
      have "unwritten U ?W \<subset> unwritten U (ex_AlreadyWritten x)" using c False by (auto simp: unwritten_def)
      then have "card (unwritten U ?W) < card (unwritten U (ex_AlreadyWritten x))"
        by (rule psubset_card_mono [rotated]) (use fin in \<open>simp add: unwritten_def\<close>)
      then have less: "card (unwritten U (ex_AlreadyWritten y)) < fuel" using fuel W by simp
      have "written_closed utf8 (abs s) U (insert c P) (ex_AlreadyWritten y)"
        unfolding W using P c wf by (rule written_closed_insert)
      then obtain x' Bs' where x': "exportRefs S s blake2b fuel (eachLink v) y = Some (Inr x')" "export_inv blake2b utf8 (abs s) U Bs' x'"
          "written_closed utf8 (abs s) U (insert c P) (ex_AlreadyWritten x')" "?W \<subseteq> ex_AlreadyWritten x'"
          "cid_Bytes ` set (eachLink v) \<subseteq> ex_AlreadyWritten x'" "same_names y x'"
        using exportRefs_ok [OF Suc.IH fin v(2) y(2) _ less] unfolding W by blast
      moreover have "written_closed utf8 (abs s) U P (ex_AlreadyWritten x')"
        using x'(3) v(1) x'(5) by (rule written_closed_done)
      moreover have "same_names x x'" using names x'(6) by (simp add: same_names_def)
      ultimately show ?thesis unfolding y(1) by blast
    qed
  qed
qed

lemma exportRefs_written:
  "cid_Bytes ` set cs \<subseteq> ex_AlreadyWritten x \<Longrightarrow> exportRefs S s blake2b (Suc fuel) cs x = Some (Inr x)"
  by (induction cs) (simp_all add: and_then_def)

end

section \<open>The exported names\<close>

text \<open>Names that can be exported: identifiers of, and heads that lead to, exportable nodes.\<close>

definition name_ok :: "(string \<Rightarrow> bool) \<Rightarrow> spec \<Rightarrow> cid set \<Rightarrow> name \<Rightarrow> bool" where
  "name_ok utf8 sp U n = (case n of
     CIDName c \<Rightarrow> c \<in> U
   | HeadName h \<Rightarrow> utf8 (head_Name h) \<and> length (head_Name h) < 2 ^ 64 \<and> (\<exists>ref \<in> U. sp_heads sp (head_Name h) = Some ref)
   | CallName _ \<Rightarrow> False)"

definition name_ref :: "spec \<Rightarrow> name \<Rightarrow> cid" where
  "name_ref sp n = the (spec_resolve sp n)"

fun head_entries :: "spec \<Rightarrow> name list \<Rightarrow> (string \<times> node) list \<Rightarrow> (string \<times> node) list" where
  "head_entries sp [] ms = ms"
| "head_entries sp (HeadName h # ns) ms = head_entries sp ns (fst (insert_or_assign ms (head_Name h) (Link (name_ref sp (HeadName h)))))"
| "head_entries sp (_ # ns) ms = head_entries sp ns ms"

fun id_entries :: "name list \<Rightarrow> cid list" where
  "id_entries [] = []"
| "id_entries (CIDName c # ns) = c # id_entries ns"
| "id_entries (_ # ns) = id_entries ns"

lemma head_entries_lookup:
  "nm_sorted ms \<Longrightarrow> nm_sorted (head_entries sp ns ms) \<and> nm_lookup (head_entries sp ns ms) k
     = (if \<exists>h. HeadName h \<in> set ns \<and> head_Name h = k then Some (Link (the (sp_heads sp k))) else nm_lookup ms k)"
proof (induction sp ns ms rule: head_entries.induct)
  case (2 sp h ns ms)
  then show ?case
    by (auto simp: nm_sorted_insert_or_assign nm_lookup_insert_or_assign name_ref_def spec_resolve_def)
qed auto

lemma head_entries_set:
  "(k, v) \<in> set (head_entries sp ns ms) \<Longrightarrow>
   (k, v) \<in> set ms \<or> (\<exists>h. HeadName h \<in> set ns \<and> k = head_Name h \<and> v = Link (name_ref sp (HeadName h)))"
proof (induction sp ns ms rule: head_entries.induct)
  case (2 sp h ns ms)
  then show ?case using set_insert_or_assign [of ms "head_Name h" "Link (name_ref sp (HeadName h))"] by auto
qed auto

lemma length_head_entries: "length (head_entries sp ns ms) \<le> length ms + length ns"
proof (induction sp ns ms rule: head_entries.induct)
  case (2 sp h ns ms)
  then show ?case using length_insert_or_assign [of ms "head_Name h" "Link (name_ref sp (HeadName h))"] by simp
qed auto

lemma id_entries_set: "c \<in> set (id_entries ns) \<longleftrightarrow> CIDName c \<in> set ns"
  by (induction ns rule: id_entries.induct) auto

lemma length_id_entries: "length (id_entries ns) \<le> length ns"
  by (induction ns rule: id_entries.induct) auto

lemma eachLink_members_iff: "c \<in> set (eachLink_members ms) \<longleftrightarrow> (\<exists>(k, v) \<in> set ms. c \<in> set (eachLink v))"
  by (induction ms) auto

lemma eachLink_items_links: "eachLink_items (map Link cs) = cs"
  by (induction cs) auto

lemma norm_members_links: "\<forall>(k, v) \<in> set ms. \<exists>c. v = Link c \<Longrightarrow> cbor_norm_members ms = ms"
  by (induction ms) auto

lemma norm_items_links: "cbor_norm_items (map Link cs) = map Link cs"
  by (induction cs) auto

text \<open>The root node of an export of the names \<open>ns\<close>.\<close>

definition names_root :: "spec \<Rightarrow> name list \<Rightarrow> node" where
  "names_root sp ns = root_node (Map []) (Map (head_entries sp ns [])) (List (map Link (id_entries ns)))"

lemma name_ref_ok: "name_ok utf8 sp U n \<Longrightarrow> name_ref sp n \<in> U"
  by (auto simp: name_ok_def name_ref_def spec_resolve_def split: name.splits)

lemma name_ref_simps [simp]:
  "name_ref sp (CIDName c) = c" "name_ref sp (HeadName h) = the (sp_heads sp (head_Name h))"
  by (simp_all add: name_ref_def spec_resolve_def)

lemma names_root_links:
  assumes "c \<in> set (eachLink (names_root sp ns))"
  shows "\<exists>n \<in> set ns. c = name_ref sp n"
proof -
  consider "CIDName c \<in> set ns" | k v where "(k, v) \<in> set (head_entries sp ns [])" "c \<in> set (eachLink v)"
    using assms by (auto simp: names_root_def root_node_def eachLink_members_iff eachLink_items_links id_entries_set)
  then show ?thesis
  proof cases
    case 1
    then show ?thesis by (intro bexI [of _ "CIDName c"]) simp_all
  next
    case 2
    then obtain h where "HeadName h \<in> set ns" "v = Link (name_ref sp (HeadName h))" using head_entries_set by fastforce
    with 2(2) show ?thesis by (intro bexI [of _ "HeadName h"]) simp_all
  qed
qed

lemma names_root_wf:
  assumes "ascii_ok utf8" and "list_all (name_ok utf8 sp U) ns" and "\<And>c. c \<in> U \<Longrightarrow> wf_cid c" and "length ns < 2 ^ 63"
  shows "wf_node utf8 (names_root sp ns)"
proof -
  have ok: "name_ok utf8 sp U n" if "n \<in> set ns" for n using assms(2) that by (simp add: list_all_iff)
  have "utf8 k \<and> length k < 2 ^ 64 \<and> wf_node utf8 v" if kv: "(k, v) \<in> set (head_entries sp ns [])" for k v
  proof -
    obtain h where h: "HeadName h \<in> set ns" "k = head_Name h" "v = Link (name_ref sp (HeadName h))"
      using head_entries_set [OF kv] by auto
    show ?thesis using ok [OF h(1)] assms(3) [OF name_ref_ok [OF ok [OF h(1)]]] h(2,3) by (simp add: name_ok_def)
  qed
  then have "wf_members utf8 (head_entries sp ns [])" unfolding wf_members_iff by blast
  moreover have "nm_sorted (head_entries sp ns [])" using head_entries_lookup [of "[]" sp ns] by simp
  moreover have "wf_items utf8 (map Link (id_entries ns))"
    using assms(3) ok by (auto simp: wf_items_iff id_entries_set name_ok_def dest!: ok)
  ultimately show ?thesis
    unfolding names_root_def using assms(1,4) length_head_entries [of sp ns "[]"] length_id_entries [of ns]
    by (intro wf_root) simp_all
qed

lemma names_root_norm:
  "cbor_norm (names_root sp ns) = loaded_root (Map []) (Map (head_entries sp ns [])) (List (map Link (id_entries ns)))"
proof -
  have "cbor_norm_members (head_entries sp ns []) = head_entries sp ns []"
    by (rule norm_members_links) (auto dest: head_entries_set)
  then show ?thesis by (simp add: names_root_def norm_root norm_items_links)
qed

context store_impl
begin

lemma addName_ok:
  assumes "inv s" and "exportable blake2b utf8 (abs s) U" and "name_ok utf8 (abs s) U n"
    and "export_inv blake2b utf8 (abs s) U Bs x" and "written_closed utf8 (abs s) U {} (ex_AlreadyWritten x)" and "card U < fuel"
    and "ex_Heads x = Map hm" and "ex_IDs x = List (map Link ids)"
  shows "\<exists>x' Bs'. addName S s blake2b utf8 opt fuel n x = Some (Inr x') \<and> export_inv blake2b utf8 (abs s) U Bs' x'
     \<and> written_closed utf8 (abs s) U {} (ex_AlreadyWritten x')
     \<and> insert (cid_Bytes (name_ref (abs s) n)) (ex_AlreadyWritten x) \<subseteq> ex_AlreadyWritten x'
     \<and> ex_Calls x' = ex_Calls x \<and> ex_Heads x' = Map (head_entries (abs s) [n] hm) \<and> ex_IDs x' = List (map Link (ids @ id_entries [n]))"
proof -
  let ?c = "name_ref (abs s) n"
  have fin: "finite U" and c: "?c \<in> U" using assms(2,3) name_ref_ok by (auto simp: exportable_def)
  have fuel: "card (unwritten U W) < fuel" for W
    using card_mono [OF fin, of "unwritten U W"] assms(6) by (auto simp: unwritten_def)
  have step: "\<exists>y Cs. exportRef S s blake2b fuel ?c z = Some (Inr y) \<and> export_inv blake2b utf8 (abs s) U Cs y
      \<and> written_closed utf8 (abs s) U {} (ex_AlreadyWritten y) \<and> insert (cid_Bytes ?c) (ex_AlreadyWritten z) \<subseteq> ex_AlreadyWritten y
      \<and> same_names z y"
    if "export_inv blake2b utf8 (abs s) U Bs z" "ex_AlreadyWritten z = ex_AlreadyWritten x" for z
    using exportRef_ok [OF assms(1,2), of fuel] c that assms(5) fuel unfolding exports_def by metis
  show ?thesis
  proof (cases n)
    case (CIDName r)
    then have "name_ref (abs s) n = r" by (simp add: name_ref_def spec_resolve_def)
    moreover obtain str where "name_text n = Inr str" by (simp add: CIDName name_text_def name_asURI_def)
    moreover obtain y Cs where y: "exportRef S s blake2b fuel ?c x = Some (Inr y)" "export_inv blake2b utf8 (abs s) U Cs y"
        "written_closed utf8 (abs s) U {} (ex_AlreadyWritten y)" "insert (cid_Bytes ?c) (ex_AlreadyWritten x) \<subseteq> ex_AlreadyWritten y"
        "same_names x y"
      using step [OF assms(4) refl] by blast
    ultimately have "addName S s blake2b utf8 opt fuel n x = Some (Inr (y\<lparr>ex_IDs := List (map Link (ids @ [r]))\<rparr>))"
      using assms(8) CIDName by (simp add: addName_def and_then_def emplace_back_def same_names_def)
    moreover have "export_inv blake2b utf8 (abs s) U Cs (y\<lparr>ex_IDs := List (map Link (ids @ [r]))\<rparr>)"
      using y(2) by (simp add: export_inv_def)
    ultimately show ?thesis
      using y(3-5) assms(7) CIDName by (auto simp: same_names_def)
  next
    case (HeadName h)
    let ?z = "x\<lparr>ex_Heads := Map (fst (insert_or_assign hm (head_Name h) (Link ?c)))\<rparr>"
    have "spec_resolve (abs s) n = Some ?c"
      using assms(3) by (auto simp: HeadName name_ok_def name_ref_def spec_resolve_def)
    then have "store_resolve S s n = Inr ?c"
      using resolve_spec [OF assms(1), of n] by (simp add: HeadName wf_name_def store_resolve_def deref_def)
    moreover obtain str where "name_text n = Inr str" by (simp add: HeadName name_text_def name_asURI_def)
    moreover have "assign_key (ex_Heads x) (head_Name h) (Link ?c) = Inr (ex_Heads ?z)"
      using assms(7) by (simp add: assign_key_def node_insert_or_assign_def split: prod.split)
    moreover have "export_inv blake2b utf8 (abs s) U Bs ?z" using assms(4) by (simp add: export_inv_def)
    moreover from this obtain y Cs where y: "exportRef S s blake2b fuel ?c ?z = Some (Inr y)" "export_inv blake2b utf8 (abs s) U Cs y"
        "written_closed utf8 (abs s) U {} (ex_AlreadyWritten y)" "insert (cid_Bytes ?c) (ex_AlreadyWritten ?z) \<subseteq> ex_AlreadyWritten y"
        "same_names ?z y"
      using step [of ?z] by auto
    ultimately have "addName S s blake2b utf8 opt fuel n x = Some (Inr y)"
      using HeadName by (simp add: addName_def and_then_def)
    then show ?thesis using y(2-5) assms(8) HeadName by (auto simp: same_names_def)
  next
    case (CallName call)
    then show ?thesis using assms(3) by (simp add: name_ok_def)
  qed
qed

lemma head_entries_Cons: "head_entries sp (n # ns) ms = head_entries sp ns (head_entries sp [n] ms)"
  by (cases n) simp_all

lemma id_entries_Cons: "id_entries (n # ns) = id_entries [n] @ id_entries ns"
  by (cases n) simp_all

lemma addNames_ok:
  assumes "inv s" and "exportable blake2b utf8 (abs s) U" and "card U < fuel"
  shows "list_all (name_ok utf8 (abs s) U) ns \<Longrightarrow> export_inv blake2b utf8 (abs s) U Bs x
     \<Longrightarrow> written_closed utf8 (abs s) U {} (ex_AlreadyWritten x) \<Longrightarrow> ex_Heads x = Map hm \<Longrightarrow> ex_IDs x = List (map Link ids)
     \<Longrightarrow> \<exists>x' Bs'. addNames S s blake2b utf8 opt fuel ns x = Some (Inr x') \<and> export_inv blake2b utf8 (abs s) U Bs' x'
     \<and> written_closed utf8 (abs s) U {} (ex_AlreadyWritten x')
     \<and> cid_Bytes ` name_ref (abs s) ` set ns \<union> ex_AlreadyWritten x \<subseteq> ex_AlreadyWritten x'
     \<and> ex_Calls x' = ex_Calls x \<and> ex_Heads x' = Map (head_entries (abs s) ns hm) \<and> ex_IDs x' = List (map Link (ids @ id_entries ns))"
proof (induction ns arbitrary: x Bs hm ids)
  case Nil
  then show ?case by auto
next
  case (Cons n ns)
  then have ok: "name_ok utf8 (abs s) U n" "list_all (name_ok utf8 (abs s) U) ns" by simp_all
  obtain x1 Bs1 where x1: "addName S s blake2b utf8 opt fuel n x = Some (Inr x1)" "export_inv blake2b utf8 (abs s) U Bs1 x1"
      "written_closed utf8 (abs s) U {} (ex_AlreadyWritten x1)"
      "insert (cid_Bytes (name_ref (abs s) n)) (ex_AlreadyWritten x) \<subseteq> ex_AlreadyWritten x1" "ex_Calls x1 = ex_Calls x"
      "ex_Heads x1 = Map (head_entries (abs s) [n] hm)" "ex_IDs x1 = List (map Link (ids @ id_entries [n]))"
    using addName_ok [OF assms(1,2) ok(1) Cons.prems(2,3) assms(3) Cons.prems(4,5), of opt] by blast
  obtain x2 Bs2 where x2: "addNames S s blake2b utf8 opt fuel ns x1 = Some (Inr x2)" "export_inv blake2b utf8 (abs s) U Bs2 x2"
      "written_closed utf8 (abs s) U {} (ex_AlreadyWritten x2)"
      "cid_Bytes ` name_ref (abs s) ` set ns \<union> ex_AlreadyWritten x1 \<subseteq> ex_AlreadyWritten x2" "ex_Calls x2 = ex_Calls x1"
      "ex_Heads x2 = Map (head_entries (abs s) ns (head_entries (abs s) [n] hm))"
      "ex_IDs x2 = List (map Link ((ids @ id_entries [n]) @ id_entries ns))"
    using Cons.IH [OF ok(2) x1(2,3,6,7)] by blast
  have "addNames S s blake2b utf8 opt fuel (n # ns) x = Some (Inr x2)" using x1(1) x2(1) by (simp add: and_then_def)
  moreover have "cid_Bytes ` name_ref (abs s) ` set (n # ns) \<union> ex_AlreadyWritten x \<subseteq> ex_AlreadyWritten x2"
    using x1(4) x2(4) by auto
  moreover have "ex_Heads x2 = Map (head_entries (abs s) (n # ns) hm)"
    using x2(6) by (simp only: head_entries_Cons [of "abs s" n ns hm])
  moreover have "ex_IDs x2 = List (map Link (ids @ id_entries (n # ns)))"
    using x2(7) by (simp only: id_entries_Cons [of n ns] append_assoc)
  moreover have "ex_Calls x2 = ex_Calls x" using x1(5) x2(5) by simp
  ultimately show ?case using x2(2,3) by blast
qed

end

section \<open>The exported file is read back\<close>

lemma saved_block:
  assumes "\<forall>bs. length (blake2b bs) = 32" and "content_size v < 2 ^ 62" and "saveAsIPLD blake2b False v = B"
    and "\<not> isIdentity (fst B)"
  shows "wf_block B" and "length (cid_Bytes (fst B)) \<in> {38, 39}"
proof -
  let ?codec = "case v of Bytes bs \<Rightarrow> Raw | _ \<Rightarrow> if dag_ok v then DAG_CBOR else DAG_CBOR_Unrestricted"
  let ?content = "case v of Bytes bs \<Rightarrow> bs | _ \<Rightarrow> cbor v"
  have B: "snd B = ?content"
    using saveAsIPLD_content(2) [of blake2b False v "fst B" "snd B"] assms(3,4) by simp
  have "fst B = calculate blake2b ?codec ?content None"
    using assms(3) by (auto simp: saveAsIPLD_cases Let_def)
  then have "fst B = make_cid ?codec Blake2b_256 (blake2b ?content)"
    using assms(4) by (auto simp: calculate_def Let_def isIdentity_def default_hash_def split: if_splits)
  then show len: "length (cid_Bytes (fst B)) \<in> {38, 39}" using length_hash_cid [OF codec_supported] assms(1) by metis
  have "length (snd B) = content_size v"
    unfolding B by (cases v) (simp_all add: content_size_def saveAsCBOR_cbor del: cbor.simps)
  moreover have "wf_cid (fst B)" using saveAsIPLD_cid(1) [OF assms(1), of v False "fst B" "snd B"] assms(2,3) by simp
  ultimately show "wf_block B" using len assms(2) by (auto simp: wf_block_def)
qed

lemma block_of_facts:
  assumes "exportable blake2b utf8 sp U" and "\<forall>bs. length (blake2b bs) = 32" and "block_of blake2b utf8 sp U B"
  shows "wf_block B" and "\<exists>v. spec_get utf8 sp (fst B) = Inr (Some v) \<and> loadFromIPLD utf8 (fst B) (snd B) = Inr v"
proof -
  obtain v where v: "spec_get utf8 sp (fst B) = Inr (Some v)" "saveAsIPLD blake2b False v = B"
    using assms(3) unfolding block_of_def by blast
  obtain w where "spec_get utf8 sp (fst B) = Inr (Some w)" "wf_node utf8 w" "content_size w < 2 ^ 62" "cbor_norm w = w"
    using assms(1,3) unfolding exportable_def block_of_def by blast
  with v have w: "wf_node utf8 v" "content_size v < 2 ^ 62" "cbor_norm v = v" by simp_all
  show "wf_block B" using saved_block(1) [OF assms(2) w(2) v(2)] assms(3) by (simp add: block_of_def)
  have "loadFromIPLD utf8 (fst B) (snd B) = Inr v"
    using saveAsIPLD_roundtrip [OF w(1), of blake2b False "fst B" "snd B"] v(2) w(3) by simp
  with v(1) show "\<exists>v. spec_get utf8 sp (fst B) = Inr (Some v) \<and> loadFromIPLD utf8 (fst B) (snd B) = Inr v" by blast
qed

lemma length_blocks: "length Bs \<le> length (blocks_bytes Bs)"
proof (induction Bs)
  case (Cons B Bs)
  have "1 \<le> length (block_bytes B)" by (simp add: block_bytes_def Let_def Suc_le_eq)
  with Cons show ?case by simp
qed simp

text \<open>A node of the store whose block is in the file is read as in the store.\<close>

lemma exported_get:
  assumes "exportable blake2b utf8 sp U" and "\<forall>bs. length (blake2b bs) = 32"
    and "reads (car_file car) (pre @ blocks_bytes (P # Bs @ [R]))"
    and "car_BlockPositions car = positions (length pre) (P # Bs @ [R]) (\<lambda>_. None)"
    and "list_all (block_of blake2b utf8 sp U) Bs" and "wf_block R"
    and "loadFromIPLD utf8 (fst R) (snd R) = Inr root" and "sp_blocks sp (fst R) \<in> {None, Some root}"
    and "c \<in> U" and "isIdentity c \<or> c \<in> fst ` set Bs"
  shows "car_getOptional utf8 car c = spec_get utf8 sp c"
proof (cases "isIdentity c")
  case True
  then show ?thesis by (simp add: car_getOptional_def spec_get_def)
next
  case False
  have wf: "wf_cid d" if "d \<in> U" for d using assms(1) that by (simp add: exportable_def)
  have Bs: "block_of blake2b utf8 sp U B" if "B \<in> set Bs" for B using assms(5) that by (simp add: list_all_iff)
  show ?thesis
  proof (cases "c = fst R")
    case True
    have "reads (car_file car) (pre @ blocks_bytes ((P # Bs) @ R # []))" using assms(3) by simp
    moreover have "car_BlockPositions car (cid_Bytes (fst R)) = Some (length pre + length (blocks_bytes (P # Bs)))"
      using positions_last [of R "[]" "length pre" "P # Bs"] assms(4) by simp
    moreover have "\<not> isIdentity (fst R)" using False True by simp
    ultimately have "car_getOptional utf8 car (fst R) = Inr (Some root)"
      using car_get_block [OF _ assms(6) _ _ assms(7)] by blast
    moreover have "\<exists>v. spec_get utf8 sp c = Inr (Some v)" using assms(1,9) unfolding exportable_def by blast
    ultimately show ?thesis using assms(8) False True by (auto simp: spec_get_def)
  next
    case other: False
    have "\<exists>B \<in> set Bs. fst B = c" using assms(10) False by auto
    from split_list_last_prop [OF this] obtain B1 B B2
      where split: "Bs = B1 @ B # B2" "fst B = c" "\<forall>C \<in> set B2. fst C \<noteq> c" by blast
    have B: "block_of blake2b utf8 sp U B" using Bs split(1) by simp
    note facts = block_of_facts [OF assms(1,2) B]
    obtain v where v: "spec_get utf8 sp c = Inr (Some v)" "loadFromIPLD utf8 (fst B) (snd B) = Inr v"
      using facts(2) split(2) by blast
    have "wf_cid (fst C)" if "C \<in> set (B2 @ [R])" for C
    proof (cases "C = R")
      case False
      then have "C \<in> set Bs" using that split(1) by simp
      then have "fst C \<in> U" using Bs unfolding block_of_def by blast
      then show ?thesis by (rule wf)
    next
      case True
      then show ?thesis using assms(6) by (simp add: wf_block_def)
    qed
    then have differ: "cid_Bytes (fst C) \<noteq> cid_Bytes (fst B)" if "C \<in> set (B2 @ [R])" for C
      using that cid_Bytes_inject [OF wf [OF assms(9)], of "fst C"] split(2,3) other by auto
    have last: "cid_Bytes (fst B) \<notin> cid_Bytes ` fst ` set (B2 @ [R])"
      unfolding image_image by (rule notI, erule imageE, drule differ, simp)
    have "reads (car_file car) (pre @ blocks_bytes ((P # B1) @ B # (B2 @ [R])))" using assms(3) split(1) by simp
    moreover have "car_BlockPositions car (cid_Bytes (fst B)) = Some (length pre + length (blocks_bytes (P # B1)))"
      using positions_last [OF last, of "length pre" "P # B1"] assms(4) split(1) by simp
    moreover have "\<not> isIdentity (fst B)" using False split(2) by simp
    ultimately have "car_getOptional utf8 car (fst B) = Inr (Some v)"
      using car_get_block [OF _ facts(1) _ _ v(2)] by blast
    then show ?thesis using v(1) split(2) by simp
  qed
qed

context store_impl
begin

lemma export_file:
  assumes "inv s" and "exportable blake2b utf8 (abs s) U" and "ascii_ok utf8" and "ns \<noteq> []"
    and "list_all (name_ok utf8 (abs s) U) ns" and "length ns < 2 ^ 63" and "content_size (names_root (abs s) ns) < 2 ^ 62"
    and "card U < fuel"
  defines "R \<equiv> saveAsIPLD blake2b False (names_root (abs s) ns)"
  shows "\<exists>os P Bs W. exportToCARFile S s blake2b utf8 opt fuel True ns os_new = Some (Inr (fst R, os))
    \<and> os_data os = writeVarInt (of_nat (length (saveAsCBOR (header_node (fst R))))) @ saveAsCBOR (header_node (fst R))
        @ blocks_bytes (P # Bs @ [R])
    \<and> wf_block P \<and> list_all (block_of blake2b utf8 (abs s) U) Bs
    \<and> written_closed utf8 (abs s) U {} W \<and> cid_Bytes ` name_ref (abs s) ` set ns \<subseteq> W
    \<and> (\<forall>c \<in> U. cid_Bytes c \<in> W \<longrightarrow> isIdentity c \<or> c \<in> fst ` set Bs)"
proof -
  let ?root = "names_root (abs s) ns"
  define x0 where "x0 = \<lparr>ex_os = os_write (replicate 0x200 0) os_new, ex_AlreadyWritten = {}, ex_Calls = Map [], ex_Heads = Map [], ex_IDs = List []\<rparr>"
  have hash: "\<forall>bs. length (blake2b bs) = 32" using hash_length [OF assms(1)] by blast
  have start: "export_inv blake2b utf8 (abs s) U [] x0" "written_closed utf8 (abs s) U {} (ex_AlreadyWritten x0)"
      "ex_Heads x0 = Map []" "ex_IDs x0 = List (map Link [])"
    by (simp_all add: x0_def export_inv_def os_write_def os_new_def written_closed_def)
  obtain x Bs where x: "addNames S s blake2b utf8 opt fuel ns x0 = Some (Inr x)" "export_inv blake2b utf8 (abs s) U Bs x"
      "written_closed utf8 (abs s) U {} (ex_AlreadyWritten x)"
      "cid_Bytes ` name_ref (abs s) ` set ns \<union> ex_AlreadyWritten x0 \<subseteq> ex_AlreadyWritten x" "ex_Calls x = ex_Calls x0"
      "ex_Heads x = Map (head_entries (abs s) ns [])" "ex_IDs x = List (map Link ([] @ id_entries ns))"
    using addNames_ok [OF assms(1,2,8,5) start, of opt] by blast
  then have names: "ex_Calls x = Map []" "ex_Heads x = Map (head_entries (abs s) ns [])" "ex_IDs x = List (map Link (id_entries ns))"
    by (simp_all add: x0_def)
  have root: "export_root utf8 (ex_Calls x) (ex_Heads x) (ex_IDs x) = Inr ?root"
    using export_root_ok [OF assms(3)] by (simp add: names names_root_def)
  have ident: "\<not> isIdentity (fst R)"
    using saveAsIPLD_cid(2) [OF hash, of ?root False "fst R" "snd R"] assms(7)
      root_size [of "Map []" "Map (head_entries (abs s) ns [])" "List (map Link (id_entries ns))"]
    by (simp add: R_def names_root_def)
  have saved: "saveAsIPLD blake2b False ?root = R" by (simp add: R_def)
  note R = saved_block [OF hash assms(7) saved ident]
  obtain fuel' where fuel: "fuel = Suc fuel'" using assms(8) by (cases fuel) auto
  let ?x1 = "x\<lparr>ex_os := writeBlock R (ex_os x)\<rparr>"
  have "cid_Bytes ` set (eachLink ?root) \<subseteq> ex_AlreadyWritten ?x1"
    using x(4) by (auto dest!: names_root_links)
  then have "exportValue S s blake2b fuel ?root x = Some (Inr (fst R, ?x1))"
    using ident exportRefs_written [of "eachLink ?root" ?x1 s fuel']
    by (simp add: exportValue_def export_value_def saved fuel and_then_def Let_def)
  moreover have "os_data (ex_os ?x1) = replicate 0x200 0 @ blocks_bytes (Bs @ [R])"
    using x(2) by (simp add: export_inv_def writeBlock_eq os_write_def)
  then obtain P os' where "finish_export blake2b 0x200 (header_node (fst R)) (ex_os ?x1) = Inr os'" and P: "wf_block P"
      "os_data os' = writeVarInt (of_nat (length (saveAsCBOR (header_node (fst R))))) @ saveAsCBOR (header_node (fst R))
        @ block_bytes P @ blocks_bytes (Bs @ [R])"
    using finish_export_ok [OF hash length_header [OF R(2)]] by blast
  moreover have "os_pos (os_write (replicate 0x200 0) os_new) = 0x200" by (simp add: os_write_def os_new_def)
  moreover note x(1) [unfolded x0_def]
  ultimately have "exportToCARFile S s blake2b utf8 opt fuel True ns os_new = Some (Inr (fst R, os'))"
    using root export_root_ok [OF assms(3)] export_header_ok [OF assms(3)] assms(4)
    by (simp add: exportToCARFile_def addAll_def and_then_def Let_def)
  moreover have "list_all (block_of blake2b utf8 (abs s) U) Bs"
    and "\<forall>c \<in> U. cid_Bytes c \<in> ex_AlreadyWritten x \<longrightarrow> isIdentity c \<or> c \<in> fst ` set Bs"
    using x(2) by (simp_all add: export_inv_def)
  ultimately show ?thesis using P x(3,4) by (intro exI [of _ os'] exI [of _ P] exI [of _ Bs] exI [of _ "ex_AlreadyWritten x"]) simp
qed

lemma exported_resolve:
  assumes "inv s" and "name_ok utf8 (abs s) U n" and "n \<in> set ns" and "\<And>c. c \<in> U \<Longrightarrow> wf_cid c"
  shows "car_resolveOptional \<lparr>car_file = f, car_Root = loaded_root Calls (Map (head_entries (abs s) ns [])) IDs, car_BlockPositions = m\<rparr> n
    = st_resolveOptional S s n"
proof (cases n)
  case (HeadName h)
  have "nm_lookup (head_entries (abs s) ns []) (head_Name h) = Some (Link (the (sp_heads (abs s) (head_Name h))))"
    using head_entries_lookup [of "[]" "abs s" ns "head_Name h"] assms(3) HeadName by auto
  moreover have "st_resolveOptional S s n = Inr (sp_heads (abs s) (head_Name h))"
    using resolve_spec [OF assms(1), of n] by (simp add: HeadName wf_name_def spec_resolve_def)
  ultimately show ?thesis
    using assms(2) by (auto simp: HeadName car_resolveOptional_def root_item_def root_member_def root_subscript at_or_null_def as_CID_def name_ok_def)
qed (use assms resolve_spec [OF assms(1), of n] in \<open>auto simp: car_resolveOptional_def name_ok_def wf_name_def spec_resolve_def\<close>)

lemma export_import:
  assumes "inv s" and "exportable blake2b utf8 (abs s) U" and "ascii_ok utf8" and "ns \<noteq> []"
    and "list_all (name_ok utf8 (abs s) U) ns" and "length ns < 2 ^ 63" and "content_size (names_root (abs s) ns) < 2 ^ 62"
    and "card U < fuel" and "no_collision blake2b (abs s) (names_root (abs s) ns)"
  shows "\<exists>RootRef os. exportToCARFile S s blake2b utf8 opt fuel True ns os_new = Some (Inr (RootRef, os))
    \<and> (\<forall>pread fuel'. reads pread (os_data os) \<longrightarrow> length (os_data os) < fuel' \<longrightarrow>
        (\<exists>car. car_load utf8 fuel' pread = Some (Inr car)
          \<and> (\<forall>n \<in> set ns. car_resolveOptional car n = st_resolveOptional S s n)
          \<and> (\<forall>n \<in> set ns. \<forall>c. linked utf8 (abs s) (name_ref (abs s) n) c \<longrightarrow> car_getOptional utf8 car c = st_getOptional S s c)))"
proof -
  let ?root = "names_root (abs s) ns" and ?R = "saveAsIPLD blake2b False (names_root (abs s) ns)"
  let ?c = "fst ?R" and ?loaded = "loaded_root (Map []) (Map (head_entries (abs s) ns [])) (List (map Link (id_entries ns)))"
  have hash: "\<forall>bs. length (blake2b bs) = 32" using hash_length [OF assms(1)] by blast
  have wf: "wf_cid c" if "c \<in> U" for c using assms(2) that by (simp add: exportable_def)
  have ok: "name_ok utf8 (abs s) U n" if "n \<in> set ns" for n using assms(5) that by (simp add: list_all_iff)
  have ident: "\<not> isIdentity ?c"
    using saveAsIPLD_cid(2) [OF hash, of ?root False ?c "snd ?R"] assms(7)
      root_size [of "Map []" "Map (head_entries (abs s) ns [])" "List (map Link (id_entries ns))"] by (simp add: names_root_def)
  note R = saved_block [OF hash assms(7) refl ident]
  have load: "loadFromIPLD utf8 ?c (snd ?R) = Inr ?loaded"
    using saveAsIPLD_roundtrip [OF names_root_wf [OF assms(3,5) wf assms(6)], of blake2b False ?c "snd ?R"]
    by (simp add: names_root_norm)
  have coll: "sp_blocks (abs s) ?c \<in> {None, Some ?loaded}"
    using assms(9) by (auto simp: no_collision_def names_root_norm Let_def)
  obtain os P Bs W where os: "exportToCARFile S s blake2b utf8 opt fuel True ns os_new = Some (Inr (?c, os))"
      "os_data os = writeVarInt (of_nat (length (saveAsCBOR (header_node ?c)))) @ saveAsCBOR (header_node ?c) @ blocks_bytes (P # Bs @ [?R])"
    and P: "wf_block P" and Bs: "list_all (block_of blake2b utf8 (abs s) U) Bs"
    and W: "written_closed utf8 (abs s) U {} W" "cid_Bytes ` name_ref (abs s) ` set ns \<subseteq> W"
      "\<forall>c \<in> U. cid_Bytes c \<in> W \<longrightarrow> isIdentity c \<or> c \<in> fst ` set Bs"
    using export_file [OF assms(1-8), of opt] by blast
  let ?pre = "writeVarInt (of_nat (length (saveAsCBOR (header_node ?c)))) @ saveAsCBOR (header_node ?c)"
  have blocks: "list_all wf_block ((P # Bs) @ [(?c, snd ?R)])"
    using P R(1) Bs block_of_facts(1) [OF assms(2) hash] by (auto simp: list_all_iff)
  have "length ?pre = 1 + length (saveAsCBOR (header_node ?c))"
    using length_header [OF R(2)] by (simp add: writeVarInt_small word_less_nat_alt unat_of_nat)
  note pre = this
  have reached: "c \<in> U \<and> (isIdentity c \<or> c \<in> fst ` set Bs)"
    if "n \<in> set ns" and "linked utf8 (abs s) (name_ref (abs s) n) c" for n c
    using linked_written [OF that(2) assms(2) W(1) name_ref_ok [OF ok [OF that(1)]]] W(2,3) that(1) by blast
  have "\<exists>car. car_load utf8 fuel' pread = Some (Inr car)
      \<and> (\<forall>n \<in> set ns. car_resolveOptional car n = st_resolveOptional S s n)
      \<and> (\<forall>n \<in> set ns. \<forall>c. linked utf8 (abs s) (name_ref (abs s) n) c \<longrightarrow> car_getOptional utf8 car c = st_getOptional S s c)"
    if r: "reads pread (os_data os)" and fuel: "length (os_data os) < fuel'" for pread fuel'
  proof -
    let ?car = "\<lparr>car_file = pread, car_Root = ?loaded,
      car_BlockPositions = positions (length ?pre) ((P # Bs) @ [(?c, snd ?R)]) (\<lambda>_. None)\<rparr>"
    have "length (P # Bs) + 1 < fuel'" using fuel length_blocks [of "P # Bs @ [?R]"] unfolding os(2) by simp
    moreover have r': "reads pread (writeVarInt (of_nat (length (saveAsCBOR (header_node ?c)))) @ saveAsCBOR (header_node ?c)
        @ blocks_bytes ((P # Bs) @ [(?c, snd ?R)]))" using r unfolding os(2) by simp
    moreover have "wf_cid ?c" using R(1) by (simp add: wf_block_def)
    ultimately have "car_load utf8 fuel' pread = Some (Inr ?car)"
      unfolding pre by (intro car_load_ok [OF _ assms(3) _ ident R(2) blocks _ load])
    moreover have "car_resolveOptional ?car n = st_resolveOptional S s n" if "n \<in> set ns" for n
      by (rule exported_resolve [OF assms(1) ok [OF that] that wf])
    moreover have "car_getOptional utf8 ?car c = st_getOptional S s c"
      if "n \<in> set ns" and "linked utf8 (abs s) (name_ref (abs s) n) c" for n c
    proof -
      have "car_getOptional utf8 ?car c = spec_get utf8 (abs s) c"
        by (rule exported_get [OF assms(2) hash, where pre = ?pre and P = P and Bs = Bs and R = ?R and root = ?loaded])
          (use r' Bs R(1) load coll reached [OF that] in simp_all)
      then show ?thesis using get_spec [OF assms(1) wf] reached [OF that] by simp
    qed
    ultimately show ?thesis by (intro exI [of _ ?car] conjI ballI allI impI)
  qed
  then show ?thesis using os(1) by blast
qed

end

end
