(* ===== verification/Memodb_Tool.thy ===== *)
theory Memodb_Tool
  imports Server CAR
begin

section \<open>The command-line tool\<close>

text \<open>
  \<^verbatim>\<open>memodb/tools/memodb/memodb.cpp\<close>: the class \<^verbatim>\<open>CLIRequest\<close>, a second implementation of
  \<^verbatim>\<open>Request\<close> that prints its answer, and the commands as functions of an opened store. What
  the process sees of its surroundings (options, standard input, files, whether the output
  is a terminal) is the record \<open>cli_env\<close>; a command returns its exit code, what it wrote to
  its output, and the store. \<^verbatim>\<open>exit(1)\<close> and fatal errors are values of type \<open>abort\<close>.

  The lemmas show that \<^verbatim>\<open>CLIRequest\<close> satisfies the contract of requests for the methods the
  tool uses, and that \<^verbatim>\<open>transfer\<close> copies everything that can be reached.
\<close>

datatype cli_format = Format_Auto | Format_CBOR | Format_Raw | Format_JSON

record cli_env =
  ce_format :: cli_format
  ce_force :: bool
  ce_console :: bool
  ce_output_opens :: bool
  ce_stdin :: string
  ce_file :: "string \<Rightarrow> string option"

record cli_request =
  cr_env :: cli_env
  cr_method :: req_method
  cr_uri :: uri
  cr_out :: string
  cr_responded :: bool

subsection \<open>CLIRequest\<close>

definition cli_request_new :: "cli_env \<Rightarrow> req_method \<Rightarrow> uri \<Rightarrow> cli_request" where
  "cli_request_new e m u = \<lparr>cr_env = e, cr_method = m, cr_uri = u, cr_out = [], cr_responded = False\<rparr>"

definition cli_chooseNodeContentType :: "cli_request \<Rightarrow> node \<Rightarrow> abort + content_type" where
  "cli_chooseNodeContentType q n =
     (case ce_format (cr_env q) of
        Format_CBOR \<Rightarrow> Inr CBORType
      | Format_Raw \<Rightarrow>
          if kind n \<noteq> KBytes then Inl (ReportFatal (''This value cannot be printed in '' @ [DQ] @ ''raw'' @ [DQ] @ '' format.''))
          else Inr OctetStream
      | Format_JSON \<Rightarrow> Inr JSONType
      | Format_Auto \<Rightarrow> Inr Plain)"

text \<open>\<^verbatim>\<open>GetOutputFile\<close>: whether there is a file to write to.\<close>

definition GetOutputFile :: "cli_env \<Rightarrow> bool \<Rightarrow> abort + bool" where
  "GetOutputFile e binary =
     (if \<not> ce_output_opens e then Inl (ExitProgram 1)
      else Inr (\<not> binary \<or> ce_force e \<or> \<not> ce_console e))"

definition cli_sendContent :: "cli_request \<Rightarrow> content_type \<Rightarrow> string \<Rightarrow> abort + cli_request" where
  "cli_sendContent q ct body =
     then_do (GetOutputFile (cr_env q) (ct \<noteq> JSONType \<and> ct \<noteq> Plain)) (\<lambda>output_file.
       Inr (q\<lparr>cr_out := (if output_file then cr_out q @ body else cr_out q), cr_responded := True\<rparr>))"

definition cli_sendCreated :: "cli_request \<Rightarrow> uri option \<Rightarrow> abort + cli_request" where
  "cli_sendCreated q path =
     (case path of
        None \<Rightarrow> Inr (q\<lparr>cr_responded := True\<rparr>)
      | Some u \<Rightarrow>
          (case path_segments u of
             a # rest \<Rightarrow>
               if a = ''cid'' then
                 (case rest of
                    [] \<Rightarrow> Inl (Undefined DropFrontPastEnd)
                  | b # _ \<Rightarrow> Inr (q\<lparr>cr_out := cr_out q @ b @ [NL], cr_responded := True\<rparr>))
               else Inr (q\<lparr>cr_out := cr_out q @ uri_encode u @ [NL], cr_responded := True\<rparr>)
           | [] \<Rightarrow> Inr (q\<lparr>cr_out := cr_out q @ uri_encode u @ [NL], cr_responded := True\<rparr>)))"

definition cli_ops :: "cli_request request_ops" where
  "cli_ops =
     \<lparr>rq_method = (\<lambda>q. Some (cr_method q)), rq_uri = (\<lambda>q. Some (cr_uri q)), rq_responded = cr_responded,
      rq_getContentNode = (\<lambda>q _. Inr (None, q)),
      rq_chooseNodeContentType = cli_chooseNodeContentType,
      rq_sendETag = (\<lambda>q _ _. (False, q)),
      rq_sendContent = cli_sendContent,
      rq_sendAccepted = (\<lambda>q. q\<lparr>cr_responded := True\<rparr>),
      rq_sendCreated = cli_sendCreated,
      rq_sendDeleted = (\<lambda>q. q\<lparr>cr_out := cr_out q @ ''deleted'' @ [NL], cr_responded := True\<rparr>),
      rq_sendError = (\<lambda>_ _ _ _ _. Inl (ExitProgram 1)),
      rq_sendMethodNotAllowed = (\<lambda>_ _. Inl (ExitProgram 1))\<rparr>"

subsection \<open>Reading names and values\<close>

definition GetNameFromURI :: "string \<Rightarrow> abort + name" where
  "GetNameFromURI u = then_do (map_sum Undefined id (name_parse u)) (\<lambda>r.
     case r of None \<Rightarrow> Inl (ReportFatal ''invalid name URI'') | Some n \<Rightarrow> Inr n)"

definition read_buffer :: "cli_env \<Rightarrow> string \<Rightarrow> abort + string option" where
  "read_buffer e u =
     (if u = ''-'' then Inr (Some (ce_stdin e))
      else if starts_with ''file:'' u then
        then_do (map_sum Undefined id (uri_parse u True)) (\<lambda>parsed.
          case parsed of
            None \<Rightarrow> Inl (ReportFatal ''invalid input URI'')
          | Some p \<Rightarrow>
              if host p \<noteq> [] \<or> port p \<noteq> 0 \<or> query_params p \<noteq> [] \<or> fragment p \<noteq> []
              then Inl (ReportFatal ''invalid input URI'')
              else then_do (map_sum Undefined id (getPathString p 0)) (\<lambda>path.
                case ce_file e path of None \<Rightarrow> Inl (ExitProgram 1) | Some b \<Rightarrow> Inr (Some b)))
      else Inr None)"

definition read_value :: "cli_format \<Rightarrow> json_lib \<Rightarrow> (string \<Rightarrow> bool) \<Rightarrow> string \<Rightarrow> abort + node" where
  "read_value fmt L utf8 buf =
     (case fmt of
        Format_CBOR \<Rightarrow> (case loadFromCBOR utf8 (to_bytes buf) of Inl _ \<Rightarrow> Inl CantFail | Inr n \<Rightarrow> Inr n)
      | Format_Raw \<Rightarrow> Inr (Bytes (to_bytes buf))
      | _ \<Rightarrow> (case loadFromJSON L utf8 buf of
               Inl (JSONFatal e) \<Rightarrow> Inl (NodeFatal e) | Inl _ \<Rightarrow> Inl (ExitProgram 1) | Inr n \<Rightarrow> Inr n))"

definition ReadRef ::
    "'s store \<Rightarrow> json_lib \<Rightarrow> (string \<Rightarrow> bool) \<Rightarrow> cli_env \<Rightarrow> 's \<Rightarrow> string \<Rightarrow> abort + cid option \<times> 's" where
  "ReadRef S L utf8 e st u =
     then_do (read_buffer e u) (\<lambda>buf.
       case buf of
         None \<Rightarrow> then_do (GetNameFromURI u) (\<lambda>n. then_do (st_resolveOptional S st n) (\<lambda>r. Inr (r, st)))
       | Some buf \<Rightarrow> then_do (read_value (ce_format e) L utf8 buf) (\<lambda>v.
           then_do (st_put S st v) (\<lambda>(c, st). Inr (Some c, st))))"

subsection \<open>The commands\<close>

definition cli_Add :: "'s store \<Rightarrow> json_lib \<Rightarrow> (string \<Rightarrow> bool) \<Rightarrow> cli_env \<Rightarrow> 's \<Rightarrow> abort + nat \<times> string \<times> 's" where
  "cli_Add S L utf8 e st =
     then_do (ReadRef S L utf8 e st ''-'') (\<lambda>(ref, st).
     then_do (deref ref) (\<lambda>c. then_do (map_sum Undefined id (name_text (CIDName c))) (\<lambda>str. Inr (0, str @ [NL], st))))"

definition cli_handle ::
    "'s store \<Rightarrow> server_env \<Rightarrow> cli_env \<Rightarrow> req_method \<Rightarrow> string \<Rightarrow> 's \<Rightarrow> abort + nat \<times> string \<times> 's" where
  "cli_handle S E e m target st =
     then_do (map_sum Undefined id (uri_parse target False)) (\<lambda>u.
       case u of
         None \<Rightarrow> Inr (1, [], st)
       | Some u \<Rightarrow> then_do (handleRequest S cli_ops E (server_new st) (cli_request_new e m u)) (\<lambda>(s, q).
           Inr (0, cr_out q, sv_store s)))"

definition cli_Delete :: "'s store \<Rightarrow> server_env \<Rightarrow> cli_env \<Rightarrow> string \<Rightarrow> 's \<Rightarrow> abort + nat \<times> string \<times> 's" where
  "cli_Delete S E e target st = cli_handle S E e DELETE target st"

definition cli_Get :: "'s store \<Rightarrow> server_env \<Rightarrow> cli_env \<Rightarrow> string \<Rightarrow> 's \<Rightarrow> abort + nat \<times> string \<times> 's" where
  "cli_Get S E e source st = cli_handle S E e GET source st"

definition path_line :: "json_lib \<Rightarrow> path \<Rightarrow> abort + string" where
  "path_line L p = then_do (map_sum Undefined id (name_text (fst p))) (\<lambda>str.
     Inr (str @ concat (map (\<lambda>item. ''['' @ saveAsJSON L item @ '']'') (snd p)) @ [NL]))"

definition cli_PathsTo ::
    "'s store \<Rightarrow> json_lib \<Rightarrow> (string \<Rightarrow> bool) \<Rightarrow> cli_env \<Rightarrow> nat \<Rightarrow> string \<Rightarrow> 's \<Rightarrow> (abort + nat \<times> string \<times> 's) option" where
  "cli_PathsTo S L utf8 e fuel target st =
     and_then (Some (ReadRef S L utf8 e st target)) (\<lambda>(ref, st).
       case ref of
         None \<Rightarrow> Some (Inr (1, [], st))
       | Some c \<Rightarrow> and_then (list_paths_to S st fuel c) (\<lambda>ps.
           and_then (Some (sum_map (path_line L) ps)) (\<lambda>strs. Some (Inr (0, concat strs, st)))))"

definition cli_RefsTo ::
    "'s store \<Rightarrow> json_lib \<Rightarrow> (string \<Rightarrow> bool) \<Rightarrow> cli_env \<Rightarrow> string \<Rightarrow> 's \<Rightarrow> abort + nat \<times> string \<times> 's" where
  "cli_RefsTo S L utf8 e target st =
     then_do (ReadRef S L utf8 e st target) (\<lambda>(ref, st).
       case ref of
         None \<Rightarrow> Inr (1, [], st)
       | Some c \<Rightarrow> then_do (st_list_names_using S st c) (\<lambda>ns.
           then_do (map_sum Undefined id (sum_map name_text ns)) (\<lambda>strs.
             Inr (0, concat (map (\<lambda>str. str @ [NL]) strs), st))))"

definition cli_Set ::
    "'s store \<Rightarrow> json_lib \<Rightarrow> (string \<Rightarrow> bool) \<Rightarrow> cli_env \<Rightarrow> string \<Rightarrow> string \<Rightarrow> 's \<Rightarrow> abort + nat \<times> string \<times> 's" where
  "cli_Set S L utf8 e target input st =
     then_do (GetNameFromURI target) (\<lambda>n.
     then_do (ReadRef S L utf8 e st input) (\<lambda>(v, st).
       case v of
         None \<Rightarrow> Inr (1, [], st)
       | Some c \<Rightarrow> then_do (st_set S st n c) (\<lambda>st. Inr (0, [], st))))"

subsection \<open>Transfer\<close>

text \<open>
  \<^verbatim>\<open>transferRef\<close>, which copies a node and then what it links to. The fuel bounds the depth
  of the recursion.
\<close>

fun transferRef :: "'a store \<Rightarrow> 'b store \<Rightarrow> 'a \<Rightarrow> nat \<Rightarrow> cid \<Rightarrow> 'b \<Rightarrow> (abort + 'b) option"
and transferRefs :: "'a store \<Rightarrow> 'b store \<Rightarrow> 'a \<Rightarrow> nat \<Rightarrow> cid list \<Rightarrow> 'b \<Rightarrow> (abort + 'b) option" where
  "transferRef A B a 0 Ref b = None"
| "transferRef A B a (Suc fuel) Ref b =
     and_then (Some (store_has_cid B b Ref)) (\<lambda>found.
       if found then Some (Inr b)
       else and_then (Some (store_get A a Ref)) (\<lambda>v.
         and_then (Some (st_put B b v)) (\<lambda>(_, b).
           transferRefs A B a fuel (eachLink v) b)))"
| "transferRefs A B a fuel [] b = Some (Inr b)"
| "transferRefs A B a fuel (c # cs) b =
     and_then (transferRef A B a fuel c b) (\<lambda>b. transferRefs A B a fuel cs b)"

definition transferName :: "'a store \<Rightarrow> 'b store \<Rightarrow> 'a \<Rightarrow> nat \<Rightarrow> name \<Rightarrow> 'b \<Rightarrow> (abort + 'b) option" where
  "transferName A B a fuel n b =
     and_then (Some (map_sum Undefined id (name_text n))) (\<lambda>_.
     case n of
        CIDName ref \<Rightarrow> transferRef A B a fuel ref b
      | HeadName h \<Rightarrow>
          and_then (Some (store_resolve A a n)) (\<lambda>Result.
          and_then (transferRef A B a fuel Result b) (\<lambda>b. Some (st_set B b n Result)))
      | CallName c \<Rightarrow>
          and_then (transferRefs A B a fuel (call_Args c) b) (\<lambda>b.
          and_then (Some (store_resolve A a n)) (\<lambda>Result.
          and_then (transferRef A B a fuel Result b) (\<lambda>b. Some (st_set B b n Result)))))"

fun transferNames :: "'a store \<Rightarrow> 'b store \<Rightarrow> 'a \<Rightarrow> nat \<Rightarrow> name list \<Rightarrow> 'b \<Rightarrow> (abort + 'b) option" where
  "transferNames A B a fuel [] b = Some (Inr b)"
| "transferNames A B a fuel (n # ns) b =
     and_then (transferName A B a fuel n b) (\<lambda>b. transferNames A B a fuel ns b)"

fun transferFuncs :: "'a store \<Rightarrow> 'b store \<Rightarrow> 'a \<Rightarrow> nat \<Rightarrow> string list \<Rightarrow> 'b \<Rightarrow> (abort + 'b) option" where
  "transferFuncs A B a fuel [] b = Some (Inr b)"
| "transferFuncs A B a fuel (f # fs) b =
     and_then (Some (list_calls A a f)) (\<lambda>cs.
     and_then (transferNames A B a fuel (map CallName cs) b) (\<lambda>b. transferFuncs A B a fuel fs b))"

fun transferURIs :: "'a store \<Rightarrow> 'b store \<Rightarrow> 'a \<Rightarrow> nat \<Rightarrow> string list \<Rightarrow> 'b \<Rightarrow> (abort + 'b) option" where
  "transferURIs A B a fuel [] b = Some (Inr b)"
| "transferURIs A B a fuel (NameURI # NameURIs) b =
     and_then (Some (GetNameFromURI NameURI)) (\<lambda>n.
     and_then (transferName A B a fuel n b) (\<lambda>b. transferURIs A B a fuel NameURIs b))"

definition cli_Transfer :: "'a store \<Rightarrow> 'b store \<Rightarrow> nat \<Rightarrow> string list \<Rightarrow> 'a \<Rightarrow> 'b \<Rightarrow> (abort + 'b) option" where
  "cli_Transfer A B fuel NamesToTransfer a b =
     (if NamesToTransfer = [] then
        and_then (Some (list_heads A a)) (\<lambda>hs.
        and_then (transferNames A B a fuel (map HeadName hs) b) (\<lambda>b.
        and_then (Some (st_list_funcs A a)) (\<lambda>fs. transferFuncs A B a fuel fs b)))
      else transferURIs A B a fuel NamesToTransfer b)"

text \<open>\<^verbatim>\<open>memodb export\<close>: the exit code and, when a file was written, its root and contents.\<close>

definition cli_Export ::
    "'s store \<Rightarrow> (bytes \<Rightarrow> bytes) \<Rightarrow> (string \<Rightarrow> bool) \<Rightarrow> string \<Rightarrow> cli_env \<Rightarrow> nat \<Rightarrow> bool \<Rightarrow> string list \<Rightarrow> 's
      \<Rightarrow> (abort + nat \<times> (cid \<times> ostream) option) option" where
  "cli_Export S blake2b utf8 opt e fuel supportsSeeking NamesToExport st =
     and_then (Some (GetOutputFile e True)) (\<lambda>OutputFile.
       if \<not> OutputFile then Some (Inr (1, None))
       else and_then (Some (sum_map GetNameFromURI NamesToExport)) (\<lambda>names.
         and_then (exportToCARFile S st blake2b utf8 opt fuel supportsSeeking names os_new) (\<lambda>r. Some (Inr (0, Some r)))))"

section \<open>CLIRequest is a request\<close>

text \<open>The tool makes requests of two methods only, for which no body is read.\<close>

definition cli_ready :: "cli_request \<Rightarrow> bool" where
  "cli_ready q \<longleftrightarrow> \<not> cr_responded q \<and> (cr_method q = GET \<or> cr_method q = DELETE)"

lemma cli_sendContent_responded: "cli_sendContent q ct b = Inr q' \<Longrightarrow> cr_responded q'"
  by (auto simp: cli_sendContent_def then_do_Inr_iff)

lemma cli_sendCreated_responded: "cli_sendCreated q u = Inr q' \<Longrightarrow> cr_responded q'"
  by (auto simp: cli_sendCreated_def split: option.splits list.splits if_splits)

interpretation cli: request_impl cli_ops cli_ready cli_ready cr_responded
  by unfold_locales
    (auto simp: cli_ops_def cli_ready_def dest: cli_sendContent_responded cli_sendCreated_responded)

lemma cli_handle_answered:
  assumes "handleNewRequest S cli_ops E s q = Inr (s', q')" and "cli_ready q"
  shows "handleRequest S cli_ops E s q = Inr (s', q') \<and> cr_responded q'"
  using cli.Request_answered [OF assms(2,1)] .

section \<open>Transfer copies everything that can be reached\<close>

definition spec_has :: "spec \<Rightarrow> cid \<Rightarrow> bool" where
  "spec_has sp c \<longleftrightarrow> isIdentity c \<or> sp_blocks sp c \<noteq> None"

text \<open>
  \<^verbatim>\<open>transferRef\<close> does not look at the links of an identity identifier, since every store has
  it. The identifiers below are those the program makes itself: an identity identifier has
  at most 34 bytes of content, which leaves no room for a link to a hash.
\<close>

definition readable_cid :: "(string \<Rightarrow> bool) \<Rightarrow> cid \<Rightarrow> bool" where
  "readable_cid utf8 c \<longleftrightarrow> wf_cid c
     \<and> (isIdentity c \<longrightarrow> HashSize c \<le> 34 \<and> (\<exists>n. loadFromIPLD utf8 c [] = Inr n))"

text \<open>Every link of a stored node, except of the nodes in \<open>G\<close>, leads to a stored node.\<close>

definition links_closed :: "spec \<Rightarrow> cid set \<Rightarrow> bool" where
  "links_closed sp G \<longleftrightarrow> (\<forall>c v. sp_blocks sp c = Some v \<longrightarrow> c \<notin> G \<longrightarrow> (\<forall>l \<in> set (eachLink v). spec_has sp l))"

text \<open>The nodes of a store that can be copied: finitely many, closed under links, each stored under its hash.\<close>

definition transferable :: "(bytes \<Rightarrow> bytes) \<Rightarrow> (string \<Rightarrow> bool) \<Rightarrow> spec \<Rightarrow> bool" where
  "transferable blake2b utf8 sp \<longleftrightarrow> finite (dom (sp_blocks sp)) \<and> links_closed sp {}
     \<and> (\<forall>c v. sp_blocks sp c = Some v \<longrightarrow> \<not> isIdentity c \<and> storable utf8 v \<and> cbor_norm v = v
          \<and> fst (saveAsIPLD blake2b False v) = c \<and> (\<forall>l \<in> set (eachLink v). readable_cid utf8 l))"

definition copied :: "spec \<Rightarrow> spec \<Rightarrow> spec \<Rightarrow> bool" where
  "copied src sp sp' \<longleftrightarrow> sp_heads sp' = sp_heads sp \<and> sp_calls sp' = sp_calls sp
     \<and> (\<forall>c. sp_blocks sp' c = sp_blocks sp c \<or> sp_blocks sp c = None \<and> sp_blocks sp' c = sp_blocks src c)"

lemma copied_refl: "copied src sp sp"
  by (simp add: copied_def)

lemma copied_trans: "copied src sp sp' \<Longrightarrow> copied src sp' sp'' \<Longrightarrow> copied src sp sp''"
  by (auto simp: copied_def) metis+

lemma copied_has: "copied src sp sp' \<Longrightarrow> spec_has sp c \<Longrightarrow> spec_has sp' c"
  unfolding copied_def spec_has_def by metis

definition missing :: "spec \<Rightarrow> spec \<Rightarrow> cid set" where
  "missing src sp = dom (sp_blocks src) - dom (sp_blocks sp)"

lemma copied_keeps: "copied src sp sp' \<Longrightarrow> sp_blocks sp c = Some v \<Longrightarrow> sp_blocks sp' c = Some v"
  unfolding copied_def by (metis option.distinct(1))

lemma copied_missing: "copied src sp sp' \<Longrightarrow> missing src sp' \<subseteq> missing src sp"
  unfolding missing_def using copied_keeps by blast

locale transfer_pair =
  src: store_impl A blake2b utf8 inva absa + dst: store_impl B blake2b utf8 invb absb
  for A :: "'a store" and B :: "'b store" and blake2b utf8 inva absa invb absb
begin

lemma has_cid_spec:
  assumes "invb b" and "readable_cid utf8 c"
  shows "store_has_cid B b c = Inr (spec_has (absb b) c)"
  using assms dst.get_spec [of b c]
  by (auto simp: store_has_cid_def readable_cid_def spec_get_def spec_has_def split: option.splits)

lemma copy_one:
  assumes "invb b" and "inva a" and "transferable blake2b utf8 (absa a)" and "links_closed (absb b) G"
    and "readable_cid utf8 ref" and "sp_blocks (absa a) ref = Some v" and "\<not> spec_has (absb b) ref"
  shows "store_get A a ref = Inr v"
    and "\<exists>b'. st_put B b v = Inr (ref, b') \<and> invb b' \<and> copied (absa a) (absb b) (absb b')
      \<and> sp_blocks (absb b') ref = Some v \<and> missing (absa a) (absb b') \<subset> missing (absa a) (absb b)
      \<and> links_closed (absb b') (insert ref G)"
proof -
  have v: "storable utf8 v" "cbor_norm v = v" "fst (saveAsIPLD blake2b False v) = ref"
    using assms(3,6) by (auto simp: transferable_def)
  have ref: "\<not> isIdentity ref" "sp_blocks (absb b) ref = None" using assms(7) by (auto simp: spec_has_def)
  show "store_get A a ref = Inr v"
    using src.get_spec [OF assms(2)] assms(5,6) ref by (simp add: store_get_def spec_get_def deref_def readable_cid_def)
  have "no_collision blake2b (absb b) v" using v ref by (simp add: no_collision_def Let_def)
  then obtain b' where b': "st_put B b v = Inr (fst (spec_put blake2b (absb b) v), b')" "invb b'"
    "absb b' = snd (spec_put blake2b (absb b) v)"
    using dst.put_spec [OF assms(1) v(1)] by blast
  then have new: "absb b' = (absb b)\<lparr>sp_blocks := (sp_blocks (absb b))(ref \<mapsto> v)\<rparr>"
    using v ref by (simp add: spec_put_def Let_def)
  have "copied (absa a) (absb b) (absb b')" using assms(6) ref by (simp add: new copied_def)
  moreover have "missing (absa a) (absb b') \<subset> missing (absa a) (absb b)"
    using assms(6) ref by (auto simp: new missing_def domIff)
  moreover have "links_closed (absb b') (insert ref G)"
  proof -
    have "spec_has (absb b') l" if "sp_blocks (absb b) c = Some w" "c \<notin> G" "l \<in> set (eachLink w)" for c w l
      using assms(4) that copied_has [OF calculation(1)] unfolding links_closed_def by blast
    then show ?thesis by (simp add: new links_closed_def)
  qed
  moreover have "st_put B b v = Inr (ref, b')" using b'(1) v(3) by (simp add: spec_put_def Let_def)
  moreover have "sp_blocks (absb b') ref = Some v" by (simp add: new)
  ultimately show "\<exists>b'. st_put B b v = Inr (ref, b') \<and> invb b' \<and> copied (absa a) (absb b) (absb b')
      \<and> sp_blocks (absb b') ref = Some v \<and> missing (absa a) (absb b') \<subset> missing (absa a) (absb b)
      \<and> links_closed (absb b') (insert ref G)"
    using b'(2) by blast
qed

definition transfers :: "'a \<Rightarrow> nat \<Rightarrow> bool" where
  "transfers a fuel \<longleftrightarrow> (\<forall>b G ref. invb b \<longrightarrow> links_closed (absb b) G \<longrightarrow> readable_cid utf8 ref \<longrightarrow> spec_has (absa a) ref
     \<longrightarrow> card (missing (absa a) (absb b)) < fuel
     \<longrightarrow> (\<exists>b'. transferRef A B a fuel ref b = Some (Inr b') \<and> invb b' \<and> links_closed (absb b') G
           \<and> spec_has (absb b') ref \<and> copied (absa a) (absb b) (absb b')))"

lemma refs_ok:
  assumes "transfers a fuel" and "finite (dom (sp_blocks (absa a)))" and "invb b" and "links_closed (absb b) G"
    and "card (missing (absa a) (absb b)) < fuel"
    and "\<forall>l \<in> set ls. readable_cid utf8 l \<and> spec_has (absa a) l"
  shows "\<exists>b'. transferRefs A B a fuel ls b = Some (Inr b') \<and> invb b' \<and> links_closed (absb b') G
    \<and> (\<forall>l \<in> set ls. spec_has (absb b') l) \<and> copied (absa a) (absb b) (absb b')"
  using assms(3-6)
proof (induction ls arbitrary: b)
  case Nil
  then show ?case by (simp add: copied_refl)
next
  case (Cons l ls)
  obtain b1 where 1: "transferRef A B a fuel l b = Some (Inr b1)" "invb b1" "links_closed (absb b1) G"
    "spec_has (absb b1) l" "copied (absa a) (absb b) (absb b1)"
    using assms(1) [unfolded transfers_def, rule_format, OF Cons.prems(1,2) _ _ Cons.prems(3), of l] Cons.prems(4) by auto
  have "finite (missing (absa a) (absb b))" using assms(2) by (simp add: missing_def)
  then have "card (missing (absa a) (absb b1)) < fuel"
    using card_mono [OF _ copied_missing [OF 1(5)]] Cons.prems(3) by linarith
  with Cons.IH [OF 1(2,3)] Cons.prems(4) obtain b2 where 2:
    "transferRefs A B a fuel ls b1 = Some (Inr b2)" "invb b2" "links_closed (absb b2) G"
    "\<forall>l \<in> set ls. spec_has (absb b2) l" "copied (absa a) (absb b1) (absb b2)"
    by auto
  have "transferRefs A B a fuel (l # ls) b = Some (Inr b2)" using 1(1) 2(1) by (simp add: and_then_def)
  moreover have "\<forall>l \<in> set (l # ls). spec_has (absb b2) l" using 2(4) copied_has [OF 2(5) 1(4)] by simp
  ultimately show ?case using 2(2,3) copied_trans [OF 1(5) 2(5)] by blast
qed

lemma ref_ok:
  assumes "inva a" and "transferable blake2b utf8 (absa a)"
  shows "transfers a fuel"
proof (induction fuel)
  case 0
  show ?case by (simp add: transfers_def)
next
  case (Suc fuel)
  have fin: "finite (dom (sp_blocks (absa a)))" using assms(2) by (simp add: transferable_def)
  show ?case unfolding transfers_def
  proof (intro allI impI)
    fix b G ref
    assume prems: "invb b" "links_closed (absb b) G" "readable_cid utf8 ref" "spec_has (absa a) ref"
      "card (missing (absa a) (absb b)) < Suc fuel"
    show "\<exists>b'. transferRef A B a (Suc fuel) ref b = Some (Inr b') \<and> invb b' \<and> links_closed (absb b') G
        \<and> spec_has (absb b') ref \<and> copied (absa a) (absb b) (absb b')"
    proof (cases "spec_has (absb b) ref")
      case True
      then show ?thesis using prems has_cid_spec [OF prems(1,3)] by (simp add: and_then_def copied_refl)
    next
      case False
      then obtain v where v: "sp_blocks (absa a) ref = Some v" using prems(4) by (auto simp: spec_has_def)
      note one = copy_one [OF prems(1) assms prems(2,3) v False]
      from one(2) obtain b1 where 1: "st_put B b v = Inr (ref, b1)" "invb b1" "copied (absa a) (absb b) (absb b1)"
        "sp_blocks (absb b1) ref = Some v" "missing (absa a) (absb b1) \<subset> missing (absa a) (absb b)"
        "links_closed (absb b1) (insert ref G)" by blast
      have "finite (missing (absa a) (absb b))" using fin by (simp add: missing_def)
      then have "card (missing (absa a) (absb b1)) < fuel"
        using psubset_card_mono [OF _ 1(5)] prems(5) by linarith
      moreover have "\<forall>l \<in> set (eachLink v). readable_cid utf8 l \<and> spec_has (absa a) l"
        using assms(2) v by (auto simp: transferable_def links_closed_def)
      ultimately obtain b2 where 2: "transferRefs A B a fuel (eachLink v) b1 = Some (Inr b2)" "invb b2"
        "links_closed (absb b2) (insert ref G)" "\<forall>l \<in> set (eachLink v). spec_has (absb b2) l"
        "copied (absa a) (absb b1) (absb b2)"
        using refs_ok [OF Suc fin 1(2,6)] by blast
      have ref: "sp_blocks (absb b2) ref = Some v" using copied_keeps [OF 2(5) 1(4)] .
      have "spec_has (absb b2) l" if "sp_blocks (absb b2) c = Some w" "c \<notin> G" "l \<in> set (eachLink w)" for c w l
        using 2(3,4) ref that by (cases "c = ref") (auto simp: links_closed_def)
      then have "links_closed (absb b2) G" "spec_has (absb b2) ref"
        using ref by (auto simp: links_closed_def spec_has_def)
      moreover have "transferRef A B a (Suc fuel) ref b = Some (Inr b2)"
        using False has_cid_spec [OF prems(1,3)] one(1) 1(1) 2(1) by (simp add: and_then_def)
      ultimately show ?thesis using 2(2) copied_trans [OF 1(3) 2(5)] by blast
    qed
  qed
qed

end

text \<open>Two stores have the same content under the same identifier.\<close>

definition specs_agree :: "spec \<Rightarrow> spec \<Rightarrow> bool" where
  "specs_agree sp sp' \<longleftrightarrow> (\<forall>c v w. sp_blocks sp c = Some v \<longrightarrow> sp_blocks sp' c = Some w \<longrightarrow> v = w)"

definition has_same :: "spec \<Rightarrow> spec \<Rightarrow> cid \<Rightarrow> bool" where
  "has_same src sp c \<longleftrightarrow> spec_has sp c \<and> (\<not> isIdentity c \<longrightarrow> sp_blocks sp c = sp_blocks src c)"

lemma same_content:
  assumes "copied src sp sp'" and "specs_agree src sp" and "spec_has src c" and "spec_has sp' c"
  shows "has_same src sp' c"
proof -
  have "sp_blocks sp' c = sp_blocks src c" if real: "\<not> isIdentity c"
  proof (cases "sp_blocks sp c")
    case None
    then show ?thesis using assms(1,4) real unfolding copied_def spec_has_def by metis
  next
    case (Some w)
    then have "sp_blocks sp' c = Some w" using copied_keeps [OF assms(1)] by blast
    moreover obtain v where "sp_blocks src c = Some v" using assms(3) real by (auto simp: spec_has_def)
    ultimately show ?thesis using assms(2) Some unfolding specs_agree_def by metis
  qed
  then show ?thesis using assms(4) by (simp add: has_same_def)
qed

lemma has_same_get: "has_same src sp c \<Longrightarrow> spec_get utf8 sp c = spec_get utf8 src c"
  by (simp add: has_same_def spec_get_def)

lemma reached_copied:
  assumes "linked utf8 src ref d" and "copied src sp sp'" and "specs_agree src sp" and "transferable blake2b utf8 src"
    and "links_closed sp' {}" and "readable_cid utf8 ref" and "spec_has src ref" and "spec_has sp' ref"
  shows "spec_has src d \<and> has_same src sp' d \<and> (isIdentity d \<longrightarrow> HashSize d \<le> 34)"
  using assms(1)
proof induction
  case linked_refl
  show ?case using assms(6,7) same_content [OF assms(2,3,7,8)] by (simp add: readable_cid_def)
next
  case (linked_step d v l)
  show ?case
  proof (cases "isIdentity d")
    case True
    then have "loadFromIPLD utf8 d [] = Inr v"
      using linked_step(2) by (auto simp: spec_get_def split: sum.splits)
    from identity_links [OF True _ this linked_step(3)] True linked_step(4)
    have "isIdentity l" "HashSize l \<le> 34" by simp_all
    then show ?thesis by (simp add: spec_has_def has_same_def)
  next
    case False
    then have v: "sp_blocks src d = Some v" using linked_step(2) by (simp add: spec_get_def)
    with False linked_step(4) have d: "sp_blocks sp' d = Some v" by (simp add: has_same_def)
    have src: "links_closed src {}" "readable_cid utf8 l"
      using assms(4) v linked_step(3) unfolding transferable_def by blast+
    then have l: "spec_has src l" using v linked_step(3) unfolding links_closed_def by simp
    have "spec_has sp' l" using assms(5) d linked_step(3) unfolding links_closed_def by simp
    then show ?thesis using l src(2) same_content [OF assms(2,3) l] by (simp add: readable_cid_def)
  qed
qed

context transfer_pair
begin

lemma transfer_complete:
  assumes "inva a" and "transferable blake2b utf8 (absa a)" and "invb b" and "links_closed (absb b) {}"
    and "specs_agree (absa a) (absb b)" and "readable_cid utf8 ref" and "spec_has (absa a) ref"
    and "card (missing (absa a) (absb b)) < fuel"
  shows "\<exists>b'. transferRef A B a fuel ref b = Some (Inr b') \<and> invb b' \<and> copied (absa a) (absb b) (absb b')
    \<and> links_closed (absb b') {} \<and> (\<forall>d. linked utf8 (absa a) ref d \<longrightarrow> has_same (absa a) (absb b') d)"
proof -
  obtain b' where b': "transferRef A B a fuel ref b = Some (Inr b')" "invb b'" "links_closed (absb b') {}"
    "spec_has (absb b') ref" "copied (absa a) (absb b) (absb b')"
    using ref_ok [OF assms(1,2), of fuel] assms(3-8) unfolding transfers_def by blast
  then show ?thesis using reached_copied [OF _ b'(5) assms(5,2) b'(3) assms(6,7) b'(4)] by blast
qed

text \<open>What is not copied: nothing happens for an identity identifier, whatever its node links to.\<close>

lemma identity_skipped:
  assumes "invb b" and "wf_cid ref" and "isIdentity ref" and "loadFromIPLD utf8 ref [] = Inr n"
  shows "transferRef A B a (Suc fuel) ref b = Some (Inr b)"
  using dst.get_spec [OF assms(1,2)] assms(3,4) by (simp add: and_then_def store_has_cid_def spec_get_def)

lemma transfer_head:
  assumes "inva a" and "transferable blake2b utf8 (absa a)" and "invb b" and "links_closed (absb b) {}"
    and "specs_agree (absa a) (absb b)" and "sp_heads (absa a) (head_Name h) = Some ref"
    and "readable_cid utf8 ref" and "spec_has (absa a) ref" and "card (missing (absa a) (absb b)) < fuel"
  shows "\<exists>b'. transferName A B a fuel (HeadName h) b = Some (Inr b') \<and> invb b' \<and> links_closed (absb b') {}
    \<and> sp_heads (absb b') = (sp_heads (absb b))(head_Name h \<mapsto> ref)
    \<and> (\<forall>d. linked utf8 (absa a) ref d \<longrightarrow> has_same (absa a) (absb b') d)"
proof -
  obtain b1 where b1: "transferRef A B a fuel ref b = Some (Inr b1)" "invb b1" "copied (absa a) (absb b) (absb b1)"
    "links_closed (absb b1) {}" "\<forall>d. linked utf8 (absa a) ref d \<longrightarrow> has_same (absa a) (absb b1) d"
    using transfer_complete [OF assms(1-5,7-9)] by blast
  have n: "wf_name utf8 (HeadName h)" "proper_name (HeadName h)" by (simp_all add: wf_name_def proper_name_def)
  have "store_resolve A a (HeadName h) = Inr ref"
    using src.resolve_spec [OF assms(1) n(1)] assms(6) by (simp add: store_resolve_def spec_resolve_def deref_def)
  moreover obtain b2 where b2: "st_set B b1 (HeadName h) ref = Inr b2" "invb b2"
      "absb b2 = spec_set (absb b1) (HeadName h) ref"
    using dst.set_spec [OF b1(2) n, of ref] assms(7) by (auto simp: readable_cid_def)
  moreover have "links_closed (absb b2) {}" using b1(4) b2(3) by (simp add: links_closed_def spec_has_def spec_set_def)
  moreover have "has_same (absa a) (absb b2) d = has_same (absa a) (absb b1) d" for d
    using b2(3) by (simp add: has_same_def spec_has_def spec_set_def)
  moreover have "sp_heads (absb b2) = (sp_heads (absb b))(head_Name h \<mapsto> ref)"
    using b1(3) b2(3) by (simp add: copied_def spec_set_def)
  ultimately show ?thesis using b1 by (auto simp: transferName_def and_then_def name_text_def name_asURI_def)
qed

end

end
