(* ===== verification/Spec2Isabelle.thy ===== *)
theory Spec2Isabelle
  imports Memo_Prelude Multibase CID Float64 NodeMap Node CBOR Strings URIs Names Memo_Store RocksDB_Store
    JSON Requests HTTP Call_Groups Server CAR CAR_Export Memodb_Tool
begin

text \<open>
  A verification of MemoDB, the content-addressed store and memoizing call server under
  \<^verbatim>\<open>memodb/\<close>.

  \<^bold>\<open>The program.\<close> A node (\<^verbatim>\<open>Node\<close>) is a JSON-like value with links. It is encoded as CBOR, and
  its content is named by a content identifier (\<^verbatim>\<open>CID\<close>), printed in a base of \<^verbatim>\<open>Multibase\<close>. A
  store (\<^verbatim>\<open>Store\<close>) keeps nodes by identifier, heads by name and the results of calls; names
  of all three kinds are printed as URIs. \<^verbatim>\<open>RocksDB.cpp\<close> implements a store on a key-value
  database, \<^verbatim>\<open>CAR.cpp\<close> one on a read-only archive file, which it also exports. The server
  (\<^verbatim>\<open>Server.cpp\<close>) answers requests (\<^verbatim>\<open>Request.cpp\<close>), which come over HTTP (\<^verbatim>\<open>HTTP.cpp\<close>) or from
  the command-line tool (\<^verbatim>\<open>memodb.cpp\<close>), and hands calls that have no result yet to workers.

  \<^bold>\<open>Theories and sources.\<close>
  \<^item> \<open>Memo_Prelude\<close> has what the others share: words, byte strings, sums as results,
    the locales of codecs and of maps. \<open>Strings\<close> has the operations of \<^verbatim>\<open>llvm::StringRef\<close>.
  \<^item> \<open>Multibase\<close> (\<^verbatim>\<open>Multibase.cpp\<close>), \<open>CID\<close> (\<^verbatim>\<open>CID.cpp\<close>): every base decodes what it encodes; the
    identifier decoder accepts exactly the canonical encodings; identifiers are prefix-free.
  \<^item> \<open>Float64\<close>, \<open>NodeMap\<close>, \<open>Node\<close> (\<^verbatim>\<open>Node.h\<close>, \<^verbatim>\<open>Node.cpp\<close>): doubles with their bit patterns, the
    sorted-vector map as a finite map, nodes with their accessors, conversions and order.
  \<^item> \<open>CBOR\<close> (\<^verbatim>\<open>NodeVisitor.cpp\<close>, \<^verbatim>\<open>CBOREncoder.cpp\<close>, \<^verbatim>\<open>Node.cpp\<close>), \<open>JSON\<close> (\<^verbatim>\<open>JSONEncoder.cpp\<close>, \<^verbatim>\<open>Node.cpp\<close>):
    encoders and readers, round trips, termination and well-formedness of what is read.
  \<^item> \<open>URIs\<close> (\<^verbatim>\<open>URI.cpp\<close>), \<open>Names\<close> (\<^verbatim>\<open>Store.cpp\<close>): parsing and printing, with the inputs on which
    the code leaves its strings or does not read back what it printed.
  \<^item> \<open>Memo_Store\<close> (\<^verbatim>\<open>Store.h\<close>, \<^verbatim>\<open>Store.cpp\<close>, \<^verbatim>\<open>Link\<close> of \<^verbatim>\<open>Node.h\<close>): the virtual functions as a record, the
    functions built on them, the abstract state \<open>spec\<close> and the contract \<open>store_impl\<close>.
  \<^item> \<open>RocksDB\<close>, \<open>RocksDB_Lists\<close>, \<open>RocksDB_Store\<close> (\<^verbatim>\<open>RocksDB.cpp\<close>): every operation on the column
    families, and the interpretation of \<open>store_impl\<close>, that is the refinement of \<open>spec\<close>, for
    a client without competition; and what \<^verbatim>\<open>set\<close> does while other clients write.
  \<^item> \<open>CAR\<close>, \<open>CAR_Export\<close> (\<^verbatim>\<open>CAR.cpp\<close>): opening and reading a file, exporting to one, and that
    an exported file is read back from any store that satisfies the contract.
  \<^item> \<open>Requests\<close> (\<^verbatim>\<open>Request.h\<close>, \<^verbatim>\<open>Request.cpp\<close>), \<open>HTTP\<close> (\<^verbatim>\<open>HTTP.cpp\<close>): the virtual functions of a request and
    the contract \<open>request_impl\<close>; content negotiation, entity tags, every response.
  \<^item> \<open>Call_Groups\<close>, \<open>Server\<close> (\<^verbatim>\<open>Server.h\<close>, \<^verbatim>\<open>Server.cpp\<close>): the queues of calls with explicit object
    addresses, each section under a mutex as one function, the handlers composed of them,
    and the step relation \<open>server_step\<close> in which the threads interleave these sections.
    The queue invariant holds in every interleaving and no deleted object is used; a call
    waits at most once, is then given to one worker and forgotten when its result arrives;
    every request is answered once; workers get every call.
  \<^item> \<open>Memodb_Tool\<close> (\<^verbatim>\<open>memodb.cpp\<close>): the second implementation of requests, the commands, and
    that a transfer between two stores copies everything that can be reached.
  \<^item> This theory has the properties that span components: a node posted over HTTP is served
    again, a malformed identity identifier ends the server, transfer and export are complete.

  \<^bold>\<open>State and errors.\<close> Stateful code passes its state explicitly. Whatever ends the process
  (fatal errors, failed assertions, \<^verbatim>\<open>cantFail\<close>, an empty optional that is dereferenced,
  undefined behaviour) is a value of type \<open>abort\<close>; errors that the code returns are sums.

  \<^bold>\<open>Fuel.\<close> Recursion whose depth depends on the data takes fuel and returns an option. The
  CBOR and JSON readers are given twice the length of their input, which is proved enough
  for every input. \<open>list_paths_to\<close> needs more than the height of the store above the node;
  \<open>transferRef\<close> more than the number of nodes the target lacks; \<open>exportRef\<close> more than the
  number of nodes that are exported; \<open>scan_blocks\<close> more than the length of the file. The
  theorems give the result for every such amount. The retry loop around transactions is a
  partial function: it returns exactly when a commit is accepted. That the refusals end is
  an assumption of the refinement theorems of the RocksDB store (\<open>no_contention\<close>), as it is
  one of the program.

  \<^bold>\<open>Parameters.\<close> Code outside the repository is an argument, with its documented behaviour as
  a hypothesis: \<^verbatim>\<open>blake2b\<close> of libsodium (32 bytes of output), RocksDB (a map per column family,
  atomic batches and transactions: \<open>rocksdb_laws\<close>), the UTF-8 validation and the JSON parser of LLVM, the
  number printing of dragonbox, the reads of the operating system, the clock. Hashes are not
  assumed to be injective; the theorems name the collisions they exclude.

  \<^bold>\<open>Not modelled.\<close> \<^verbatim>\<open>SQLite.cpp\<close> and \<^verbatim>\<open>Client.cpp\<close> consist of SQL statements and of messages of a
  network library, whose semantics is not in the repository. \<^verbatim>\<open>Evaluator.cpp\<close> and
  \<^verbatim>\<open>memodb-server.cpp\<close> are thread pools, sockets and sessions of Boost around the functions
  modelled here; \<^verbatim>\<open>ToolSupport.cpp\<close> sets up the process and its options. The libraries and
  tools under \<^verbatim>\<open>bcdb/\<close>, \<^verbatim>\<open>guided_linking/\<close> and \<^verbatim>\<open>outlining/\<close> transform LLVM modules through
  the classes of LLVM, so that nothing can be said of them without a model of LLVM; the
  scripts under \<^verbatim>\<open>sllim/\<close> start other programs. Memory exhaustion, stack depth and the
  formatting of messages to the error stream are not modelled.
\<close>

section \<open>Requests through the whole server\<close>

lemma accept_cbor:
  assumes "hq_header q ''Accept'' = Some ''application/cbor''"
  shows "http_chooseNodeContentType q n = Inr CBORType"
proof -
  have "accept_loop ''application'' ''octet-stream'' 0 None ''application/cbor'' = 0"
    "accept_loop ''application'' ''json'' 0 None ''application/cbor'' = 0"
    "accept_loop ''application'' ''cbor'' 0 None ''application/cbor'' = 1000"
    "accept_loop ''text'' ''html'' 0 None ''application/cbor'' = 0"
    by code_simp+
  then show ?thesis using assms by (simp add: http_chooseNodeContentType_def getAcceptQuality_def)
qed

lemma content_cbor:
  assumes "hq_header q ''Content-Type'' = Some ''application/cbor''" and "hq_body q = of_bytes (saveAsCBOR n)"
    and "wf_node (hl_utf8 L) n"
  shows "http_getContentNode L q None = Inr (Some (cbor_norm n), q)"
proof -
  have "equals_lower (ltrim (rtrim (fst (split_first CHR '';'' ''application/cbor'')))) ''application/cbor''"
    by code_simp
  moreover have "hq_body q \<noteq> []"
    using assms(2) length_cbor_pos [of n] by (auto simp: saveAsCBOR_cbor of_bytes_def)
  ultimately show ?thesis
    using assms loadFromCBOR_saved [OF assms(3)] by (simp add: http_getContentNode_def saveAsCBOR_cbor)
qed

definition post_cid :: "node \<Rightarrow> http_request" where
  "post_cid n = http_request_new ''POST'' (Some (uri_default\<lparr>path_segments := [''cid'']\<rparr>))
     [''Content-Type'' \<mapsto> ''application/cbor''] (of_bytes (saveAsCBOR n))"

definition cid_uri :: "cid \<Rightarrow> uri" where
  "cid_uri c = uri_default\<lparr>path_segments := [''cid'', asString base64url c]\<rparr>"

definition get_cid :: "cid \<Rightarrow> http_request" where
  "get_cid c = http_request_new ''GET'' (Some (cid_uri c)) [''Accept'' \<mapsto> ''application/cbor''] []"

lemma request_fields [simp]:
  "hq_method (post_cid n) = Some POST" "hq_uri (post_cid n) = Some (uri_default\<lparr>path_segments := [''cid'']\<rparr>)"
  "hq_header (post_cid n) = [''Content-Type'' \<mapsto> ''application/cbor'']" "hq_body (post_cid n) = of_bytes (saveAsCBOR n)"
  "hq_sent (post_cid n) = []" "hq_method (get_cid c) = Some GET" "hq_uri (get_cid c) = Some (cid_uri c)"
  "hq_header (get_cid c) = [''Accept'' \<mapsto> ''application/cbor'']" "hq_sent (get_cid c) = []"
proof -
  have "parseMethod ''POST'' = Some POST" "parseMethod ''GET'' = Some GET" by code_simp+
  then show "hq_method (post_cid n) = Some POST" "hq_method (get_cid c) = Some GET"
    by (simp_all add: post_cid_def get_cid_def http_request_new_def)
qed (simp_all add: post_cid_def get_cid_def http_request_new_def)

lemma handle_post_cid:
  assumes "wf_node (hl_utf8 L) n" and "st_put S (sv_store s) (cbor_norm n) = Inr (c, st)"
  shows "\<exists>q'. handleRequest S (http_ops L) E s (post_cid n) = Inr (s\<lparr>sv_store := st\<rparr>, q')
    \<and> hd (hq_sent q') = SendStatus 201 \<and> SendHeader ''Location'' (uri_encode (cid_uri c)) \<in> set (hq_sent q')"
  using content_cbor [of "post_cid n" n L] assms
  by (simp add: handleRequest_def handleNewRequest_def handleRequestCID_def http_ops_def uri_default_def
      http_sendCreated_def startResponse_def put_sent_def answer_def http_responded_def cid_uri_def)

lemma handle_get_cid:
  assumes "wf_cid c" and "st_getOptional S (sv_store s) c = Inr (Some n)"
  shows "\<exists>q'. handleRequest S (http_ops L) E s (get_cid c) = Inr (s, q')
    \<and> hd (hq_sent q') = SendStatus 200 \<and> last (hq_sent q') = SendBody (of_bytes (saveAsCBOR n))"
  using accept_cbor [of "get_cid c" n] assms cid_parse_base64url [OF assms(1)]
  by (simp add: handleRequest_def handleNewRequest_def handleRequestCID_def http_ops_def cid_uri_def uri_default_def
      send_node_def sendContentNode_def node_body_def http_sendETag_def hasIfNoneMatch_def http_sendContent_def
      startResponse_def put_sent_def answer_def http_responded_def Let_def)

text \<open>
  C1: a node posted to the server as CBOR is stored, and the answer names its location; a
  request for that location that accepts CBOR is answered 200 with exactly the bytes that
  were posted. The statement spans the HTTP layer, the request dispatch, the CBOR codec,
  the identifiers and the RocksDB store.
\<close>

theorem post_then_get:
  assumes "rocks_inv kv view pending blake2b (hl_utf8 L) (sv_store s)"
    and "storable (hl_utf8 L) n" and "cbor_norm n = n"
    and "no_collision blake2b (kv_spec (hl_utf8 L) (view (sv_store s))) n"
  defines "c \<equiv> fst (saveAsIPLD blake2b False n)" and "S \<equiv> rocks_store kv blake2b (hl_utf8 L)"
  shows "\<exists>s' p' g'. handleRequest S (http_ops L) E s (post_cid n) = Inr (s', p')
    \<and> hd (hq_sent p') = SendStatus 201 \<and> SendHeader ''Location'' (uri_encode (cid_uri c)) \<in> set (hq_sent p')
    \<and> handleRequest S (http_ops L) E s' (get_cid c) = Inr (s', g')
    \<and> hd (hq_sent g') = SendStatus 200 \<and> last (hq_sent g') = SendBody (of_bytes (saveAsCBOR n))"
proof -
  have n: "wf_node (hl_utf8 L) n" "content_size n < 2 ^ 63" using assms(2) by (simp_all add: storable_def)
  have "length (blake2b bs) = 32" for bs using rocks.hash_length [OF assms(1)] .
  then have c: "wf_cid c"
    using saveAsIPLD_cid(1) [OF _ n(2), of blake2b False] unfolding c_def by (metis prod.collapse)
  obtain db where db: "st_put S (sv_store s) n = Inr (c, db)" "st_getOptional S db c = Inr (Some n)"
    using rocks.put_get [OF assms(1,2,4)] assms(3) unfolding S_def c_def by auto
  obtain p' where p': "handleRequest S (http_ops L) E s (post_cid n) = Inr (s\<lparr>sv_store := db\<rparr>, p')"
    "hd (hq_sent p') = SendStatus 201" "SendHeader ''Location'' (uri_encode (cid_uri c)) \<in> set (hq_sent p')"
    using handle_post_cid [OF n(1), of S s c db E] db(1) assms(3) by auto
  obtain g' where g': "handleRequest S (http_ops L) E (s\<lparr>sv_store := db\<rparr>) (get_cid c) = Inr (s\<lparr>sv_store := db\<rparr>, g')"
    "hd (hq_sent g') = SendStatus 200" "last (hq_sent g') = SendBody (of_bytes (saveAsCBOR n))"
    using handle_get_cid [OF c, of S "s\<lparr>sv_store := db\<rparr>" n L E] db(2) by auto
  from p' g' show ?thesis by blast
qed

definition plain_http :: http_lib where
  "plain_http = example_http\<lparr>hl_utf8 := plain_utf8\<rparr>"

theorem post_then_get_witness:
  "\<exists>s' p' g'. handleRequest (rocks_store log_rocksdb (\<lambda>_. replicate 32 0) plain_utf8) (http_ops plain_http) example_env
       (server_new (0, [])) (post_cid (Bytes (replicate 40 1))) = Inr (s', p')
    \<and> handleRequest (rocks_store log_rocksdb (\<lambda>_. replicate 32 0) plain_utf8) (http_ops plain_http) example_env
       s' (get_cid (fst (saveAsIPLD (\<lambda>_. replicate 32 0) False (Bytes (replicate 40 1))))) = Inr (s', g')
    \<and> last (hq_sent g') = SendBody (of_bytes (saveAsCBOR (Bytes (replicate 40 1))))"
proof -
  let ?n = "Bytes (replicate 40 1)" and ?s = "server_new (0, []) :: (nat \<times> _) server"
  have utf8: "hl_utf8 plain_http = plain_utf8" by (simp add: plain_http_def)
  have "rocks_inv log_rocksdb log_view fst (\<lambda>_. replicate 32 0) (hl_utf8 plain_http) (sv_store ?s)"
    using log_rocks_inv [of 0] by (simp add: utf8 server_new_def)
  moreover have "storable (hl_utf8 plain_http) ?n" by (simp add: storable_def content_size_def)
  moreover have "cbor_norm ?n = ?n" by (simp only: cbor_norm.simps)
  moreover have "no_collision (\<lambda>_. replicate 32 0) (kv_spec (hl_utf8 plain_http) (log_view (sv_store ?s))) ?n"
    by (simp add: no_collision_def kv_spec_def log_view_def server_new_def Let_def)
  ultimately show ?thesis
    using post_then_get [of log_rocksdb log_view fst "\<lambda>_. replicate 32 0" plain_http ?s ?n example_env]
    unfolding utf8 by blast
qed

text \<open>
  C40: a request for an identity identifier whose inline bytes are not valid CBOR ends the
  server: the identifier parses, the store decodes the inline bytes itself and asserts that
  this cannot fail. Any client can send such a request; the same holds for a worker's
  information and other reads of the store.
\<close>

theorem identity_cid_aborts:
  assumes "rocks_inv kv view pending blake2b (hl_utf8 L) (sv_store s)" and "wf_cid c" and "isIdentity c"
    and "loadFromIPLD (hl_utf8 L) c [] = Inl e"
  shows "handleRequest (rocks_store kv blake2b (hl_utf8 L)) (http_ops L) E s (get_cid c) = Inl CantFail"
proof -
  have "rocks_getOptional kv (hl_utf8 L) (sv_store s) c = Inl CantFail"
    using rocks.get_spec [OF assms(1,2)] assms(3,4) by (simp add: spec_get_def)
  then show ?thesis
    using cid_parse_base64url [OF assms(2)]
    by (simp add: handleRequest_def handleNewRequest_def handleRequestCID_def http_ops_def cid_uri_def uri_default_def)
qed

theorem identity_cid_aborts_witness:
  "handleRequest (rocks_store log_rocksdb (\<lambda>_. replicate 32 0) plain_utf8) (http_ops plain_http) example_env
     (server_new (0, [])) (get_cid (make_cid DAG_CBOR Identity [0xff])) = Inl CantFail"
proof -
  let ?c = "make_cid DAG_CBOR Identity [0xff]" and ?s = "server_new (0, []) :: (nat \<times> _) server"
  have utf8: "hl_utf8 plain_http = plain_utf8" by (simp add: plain_http_def)
  have "rocks_inv log_rocksdb log_view fst (\<lambda>_. replicate 32 0) (hl_utf8 plain_http) (sv_store ?s)"
    using log_rocks_inv [of 0] by (simp add: utf8 server_new_def)
  moreover have "wf_cid ?c" by (simp add: wf_make_cid content_supported_def hash_supported_def)
  moreover have "isIdentity ?c" by code_simp
  moreover have "case loadFromIPLD plain_utf8 ?c [] of Inl _ \<Rightarrow> True | Inr _ \<Rightarrow> False" by code_simp
  then obtain e where "loadFromIPLD (hl_utf8 plain_http) ?c [] = Inl e" unfolding utf8 by (auto split: sum.splits)
  ultimately show ?thesis
    using identity_cid_aborts [of log_rocksdb log_view fst "\<lambda>_. replicate 32 0" plain_http ?s ?c] utf8 by metis
qed

section \<open>Transfer between two RocksDB stores\<close>

interpretation rocks_transfer: transfer_pair "rocks_store kv blake2b utf8" "rocks_store kv' blake2b utf8" blake2b utf8
  "rocks_inv kv view pending blake2b utf8" "\<lambda>db. kv_spec utf8 (view db)"
  "rocks_inv kv' view' pending' blake2b utf8" "\<lambda>db. kv_spec utf8 (view' db)"
  for kv :: "'a rocksdb" and view pending and kv' :: "'b rocksdb" and view' pending' blake2b utf8
  by unfold_locales

text \<open>A store with one node and one head, for examples.\<close>

definition zero_hash :: "bytes \<Rightarrow> bytes" where
  "zero_hash = (\<lambda>_. replicate 32 0)"

definition sample_node :: node where
  "sample_node = Bytes (replicate 40 1)"

definition sample_cid :: cid where
  "sample_cid = fst (saveAsIPLD zero_hash False sample_node)"

lemma zero_hash_length: "\<forall>bs. length (zero_hash bs) = 32"
  by (simp add: zero_hash_def)

lemma sample_facts:
  "content_size sample_node = 40" "wf_node plain_utf8 sample_node" "cbor_norm sample_node = sample_node"
  "eachLink sample_node = []" "wf_cid sample_cid" "\<not> isIdentity sample_cid" "ContentType sample_cid = Raw"
  "fst (saveAsIPLD zero_hash False sample_node) = sample_cid"
proof -
  show size: "content_size sample_node = 40" by (simp add: sample_node_def content_size_def)
  show "wf_node plain_utf8 sample_node" "eachLink sample_node = []" by (simp_all add: sample_node_def)
  show "cbor_norm sample_node = sample_node" by (simp only: sample_node_def cbor_norm.simps)
  show "fst (saveAsIPLD zero_hash False sample_node) = sample_cid" by (simp add: sample_cid_def)
  have save: "saveAsIPLD zero_hash False sample_node = (sample_cid, snd (saveAsIPLD zero_hash False sample_node))"
    by (simp add: sample_cid_def)
  show "wf_cid sample_cid" "\<not> isIdentity sample_cid"
    using saveAsIPLD_cid [OF zero_hash_length _ save] size by simp_all
  show "ContentType sample_cid = Raw"
    by (simp add: sample_cid_def saveAsIPLD_cases sample_node_def calculate_fields Let_def)
qed

lemma sample_db:
  "\<exists>db. rocks_inv log_rocksdb log_view fst zero_hash plain_utf8 db
     \<and> sp_blocks (kv_spec plain_utf8 (log_view db)) = [sample_cid \<mapsto> sample_node]
     \<and> sp_heads (kv_spec plain_utf8 (log_view db)) ''h'' = Some sample_cid"
proof -
  let ?inv = "rocks_inv log_rocksdb log_view fst zero_hash plain_utf8" and ?sp = "\<lambda>db. kv_spec plain_utf8 (log_view db)"
  have empty: "sp_blocks (?sp (0, [])) = (\<lambda>_. None)" by (simp add: kv_spec_def log_view_def fun_eq_iff)
  have inv0: "?inv (0, [])" unfolding zero_hash_def by (rule log_rocks_inv)
  have "no_collision zero_hash (?sp (0, [])) sample_node" using empty by (simp add: no_collision_def Let_def)
  moreover have "storable plain_utf8 sample_node" using sample_facts by (simp add: storable_def)
  ultimately obtain a1 where a1: "?inv a1" "?sp a1 = snd (spec_put zero_hash (?sp (0, [])) sample_node)"
    using rocks.put_spec [OF inv0] by blast
  obtain a where a: "?inv a" "?sp a = spec_set (?sp a1) (HeadName (make_head ''h'')) sample_cid"
    using rocks.set_spec [OF a1(1), of "HeadName (make_head ''h'')" sample_cid] sample_facts(5)
    by (auto simp: wf_name_def proper_name_def)
  have "sp_blocks (?sp a) = [sample_cid \<mapsto> sample_node]" "sp_heads (?sp a) ''h'' = Some sample_cid"
    using sample_facts empty by (simp_all add: a(2) a1(2) spec_set_def spec_put_def make_head_def Let_def)
  with a(1) show ?thesis by blast
qed

text \<open>
  C12: \<^verbatim>\<open>memodb transfer\<close> of a head copies everything: it terminates (within as many levels
  as the target has nodes missing), afterwards the head has the same value in the target,
  every node that can be reached from it in the source, through stored nodes and through
  nodes inside identity identifiers, is in the target and is read as from the source, no
  link in the target dangles, and the other heads of the target are as before. The source
  has to be closed under links, and so does the target: the copy stops at nodes the target
  already has. The copy also stops at identity identifiers, so these have to be of the size
  the program gives them, at most 34 bytes.
\<close>

theorem transfer_head_complete:
  assumes "rocks_inv kv view pending blake2b utf8 a" and "rocks_inv kv' view' pending' blake2b utf8 b"
    and "transferable blake2b utf8 (kv_spec utf8 (view a))" and "links_closed (kv_spec utf8 (view' b)) {}"
    and "specs_agree (kv_spec utf8 (view a)) (kv_spec utf8 (view' b))"
    and "sp_heads (kv_spec utf8 (view a)) (head_Name h) = Some ref" and "readable_cid utf8 ref"
    and "spec_has (kv_spec utf8 (view a)) ref"
    and "card (missing (kv_spec utf8 (view a)) (kv_spec utf8 (view' b))) < fuel"
  shows "\<exists>b'. transferName (rocks_store kv blake2b utf8) (rocks_store kv' blake2b utf8) a fuel (HeadName h) b = Some (Inr b')
    \<and> rocks_inv kv' view' pending' blake2b utf8 b' \<and> links_closed (kv_spec utf8 (view' b')) {}
    \<and> sp_heads (kv_spec utf8 (view' b')) = (sp_heads (kv_spec utf8 (view' b)))(head_Name h \<mapsto> ref)
    \<and> (\<forall>d. linked utf8 (kv_spec utf8 (view a)) ref d \<longrightarrow> has_same (kv_spec utf8 (view a)) (kv_spec utf8 (view' b')) d
          \<and> spec_get utf8 (kv_spec utf8 (view' b')) d = spec_get utf8 (kv_spec utf8 (view a)) d)"
  using rocks_transfer.transfer_head [OF assms(1,3,2,4-9)] has_same_get by blast

theorem transfer_head_complete_witness:
  "\<exists>a b'. transferName (rocks_store log_rocksdb zero_hash plain_utf8)
       (rocks_store log_rocksdb zero_hash plain_utf8) a 2 (HeadName (make_head ''h'')) (0, []) = Some (Inr b')
    \<and> sp_blocks (kv_spec plain_utf8 (log_view b')) sample_cid = Some sample_node"
proof -
  let ?h = "make_head ''h''" and ?sp = "\<lambda>db. kv_spec plain_utf8 (log_view db)"
  obtain a where a: "rocks_inv log_rocksdb log_view fst zero_hash plain_utf8 a" "sp_blocks (?sp a) = [sample_cid \<mapsto> sample_node]"
      "sp_heads (?sp a) ''h'' = Some sample_cid"
    using sample_db by blast
  have empty: "sp_blocks (?sp (0, [])) = (\<lambda>_. None)" by (simp add: kv_spec_def log_view_def fun_eq_iff)
  have inv0: "rocks_inv log_rocksdb log_view fst zero_hash plain_utf8 (0, [])"
    unfolding zero_hash_def by (rule log_rocks_inv)
  have "transferable zero_hash plain_utf8 (?sp a)"
    using sample_facts by (simp add: transferable_def links_closed_def a(2) storable_def)
  moreover have "links_closed (?sp (0, [])) {}" "specs_agree (?sp a) (?sp (0, []))"
    by (simp_all add: links_closed_def specs_agree_def empty)
  moreover have "readable_cid plain_utf8 sample_cid" "spec_has (?sp a) sample_cid"
    using sample_facts by (simp_all add: readable_cid_def spec_has_def a(2))
  moreover have "card (missing (?sp a) (?sp (0, []))) < 2" by (simp add: missing_def a(2) empty)
  ultimately obtain b' where b': "transferName (rocks_store log_rocksdb zero_hash plain_utf8) (rocks_store log_rocksdb zero_hash plain_utf8)
      a 2 (HeadName ?h) (0, []) = Some (Inr b')" "has_same (?sp a) (?sp b') sample_cid"
    using transfer_head_complete [OF a(1) inv0, of ?h sample_cid 2] a(3) linked_refl [of plain_utf8 "?sp a" sample_cid]
    by (auto simp: make_head_def)
  have "sp_blocks (?sp b') sample_cid = Some sample_node" using b'(2) sample_facts by (simp add: has_same_def a(2))
  with b'(1) show ?thesis by blast
qed

text \<open>
  Without the bound on identity identifiers the copy is not complete: for such an identifier
  \<^verbatim>\<open>transferRef\<close> does nothing, although a larger one can hold a node that links to nodes the
  target does not have.
\<close>

lemma transfer_skips_identity_links:
  assumes "rocks_inv kv' view' pending' blake2b utf8 b" and "wf_cid ref" and "isIdentity ref"
    and "loadFromIPLD utf8 ref [] = Inr n"
  shows "transferRef (rocks_store kv blake2b utf8) (rocks_store kv' blake2b utf8) a (Suc fuel) ref b = Some (Inr b)"
  by (rule rocks_transfer.identity_skipped [OF assms])

section \<open>Export from a RocksDB store and import from the file\<close>

text \<open>
  C2: what \<^verbatim>\<open>memodb export\<close> writes is read back by a CAR store. Exporting heads and identifiers
  from a RocksDB store terminates (within one level per node) and gives a file that
  \<^verbatim>\<open>CARStore::open\<close> accepts, however the operating system splits the reads; in the opened store
  every exported name has the value it has in the source, and every node that can be
  reached from an exported name is read with the same content. \<open>U\<close> is any finite set of
  stored nodes that is closed under links; no stored node has the hash of the root node.
\<close>

theorem car_export_import:
  assumes "rocks_inv kv view pending blake2b utf8 db" and "exportable blake2b utf8 (kv_spec utf8 (view db)) U"
    and "ascii_ok utf8" and "ns \<noteq> []" and "list_all (name_ok utf8 (kv_spec utf8 (view db)) U) ns" and "length ns < 2 ^ 63"
    and "content_size (names_root (kv_spec utf8 (view db)) ns) < 2 ^ 62" and "card U < fuel"
    and "no_collision blake2b (kv_spec utf8 (view db)) (names_root (kv_spec utf8 (view db)) ns)"
  defines "S \<equiv> rocks_store kv blake2b utf8"
  shows "\<exists>RootRef os. exportToCARFile S db blake2b utf8 opt fuel True ns os_new = Some (Inr (RootRef, os))
    \<and> (\<forall>pread fuel'. reads pread (os_data os) \<longrightarrow> length (os_data os) < fuel' \<longrightarrow>
        (\<exists>car. car_load utf8 fuel' pread = Some (Inr car)
          \<and> (\<forall>n \<in> set ns. car_resolveOptional car n = st_resolveOptional S db n)
          \<and> (\<forall>n \<in> set ns. \<forall>c. linked utf8 (kv_spec utf8 (view db)) (name_ref (kv_spec utf8 (view db)) n) c \<longrightarrow>
               car_getOptional utf8 car c = st_getOptional S db c)))"
  unfolding S_def by (rule rocks.export_import [OF assms(1-9)])

lemma ascii_plain: "ascii_ok plain_utf8"
  by (auto simp: ascii_ok_def plain_utf8_def list_all_iff)

theorem car_export_import_witness:
  "\<exists>db RootRef os car. exportToCARFile (rocks_store log_rocksdb zero_hash plain_utf8) db zero_hash plain_utf8 [] 2 True
       [HeadName (make_head ''h'')] os_new = Some (Inr (RootRef, os))
     \<and> car_load plain_utf8 (Suc (length (os_data os))) (\<lambda>Pos n. Some (take n (drop Pos (os_data os)))) = Some (Inr car)
     \<and> car_resolveOptional car (HeadName (make_head ''h'')) = Inr (Some sample_cid)
     \<and> car_getOptional plain_utf8 car sample_cid = Inr (Some sample_node)"
proof -
  let ?n = "HeadName (make_head ''h'')" and ?S = "rocks_store log_rocksdb zero_hash plain_utf8"
  obtain db where db: "rocks_inv log_rocksdb log_view fst zero_hash plain_utf8 db"
      "sp_blocks (kv_spec plain_utf8 (log_view db)) = [sample_cid \<mapsto> sample_node]"
      "sp_heads (kv_spec plain_utf8 (log_view db)) ''h'' = Some sample_cid"
    using sample_db by blast
  let ?sp = "kv_spec plain_utf8 (log_view db)"
  have get: "spec_get plain_utf8 ?sp sample_cid = Inr (Some sample_node)" using sample_facts db(2) by (simp add: spec_get_def)
  have ref: "name_ref ?sp ?n = sample_cid" using db(3) by (simp add: make_head_def)
  have len: "length (cid_Bytes sample_cid) \<in> {38, 39}"
    using saved_block(2) [OF zero_hash_length _ refl, of sample_node] sample_facts(1,6,8) by simp
  have entries: "head_entries ?sp [?n] [] = [(''h'', Link sample_cid)]"
    using db(3) by (simp add: insert_or_assign_Nil make_head_def)
  have "exportable zero_hash plain_utf8 ?sp {sample_cid}" using sample_facts get by (simp add: exportable_def)
  moreover have "list_all (name_ok plain_utf8 ?sp {sample_cid}) [?n]" using db(3) by (simp add: name_ok_def plain_utf8_def make_head_def)
  moreover have "content_size (names_root ?sp [?n]) < 2 ^ 62"
    using len unfolding names_root_def entries by (auto simp: root_node_def content_size_def saveAsCBOR_cbor head_bytes_def Let_def)
  moreover have "no_collision zero_hash ?sp (names_root ?sp [?n])"
  proof -
    have "ContentType (fst (saveAsIPLD zero_hash False (names_root ?sp [?n]))) \<noteq> Raw"
      by (simp add: names_root_def root_node_def saveAsIPLD_cases calculate_fields Let_def del: cbor.simps)
    then show ?thesis using sample_facts(7) db(2) by (auto simp: no_collision_def Let_def)
  qed
  ultimately obtain RootRef os where os: "exportToCARFile ?S db zero_hash plain_utf8 [] 2 True [?n] os_new = Some (Inr (RootRef, os))"
    and read: "\<And>pread fuel'. reads pread (os_data os) \<Longrightarrow> length (os_data os) < fuel' \<Longrightarrow>
        \<exists>car. car_load plain_utf8 fuel' pread = Some (Inr car) \<and> car_resolveOptional car ?n = st_resolveOptional ?S db ?n
          \<and> (\<forall>c. linked plain_utf8 ?sp (name_ref ?sp ?n) c \<longrightarrow> car_getOptional plain_utf8 car c = st_getOptional ?S db c)"
    using car_export_import [OF db(1) _ ascii_plain, of "{sample_cid}" "[?n]" 2 "[]"] by fastforce
  obtain car where car: "car_load plain_utf8 (Suc (length (os_data os))) (\<lambda>Pos n. Some (take n (drop Pos (os_data os)))) = Some (Inr car)"
      "car_resolveOptional car ?n = st_resolveOptional ?S db ?n"
      "car_getOptional plain_utf8 car sample_cid = st_getOptional ?S db sample_cid"
    using read [OF reads_whole, of "Suc (length (os_data os))"] linked_refl unfolding ref by blast
  moreover have "st_resolveOptional ?S db ?n = Inr (Some sample_cid)"
    using rocks.resolve_spec [OF db(1), of ?n] db(3) by (simp add: wf_name_def spec_resolve_def make_head_def)
  moreover have "st_getOptional ?S db sample_cid = Inr (Some sample_node)"
    using rocks.get_spec [OF db(1) sample_facts(5)] get by (rule trans)
  ultimately show ?thesis using os car by (metis (no_types, lifting))
qed

end
